(* ===== verification/Mangosteen_Prelude.thy ===== *)
theory Mangosteen_Prelude
  imports Main "HOL-Library.Word"
begin

text \<open>
  Shared vocabulary of the Mangosteen development: machine integers and addresses, byte
  memory with \<open>memcpy\<close>, the little-endian layout of a 64-bit field, and the ways a C
  function can fail to return (a failed assertion, \<open>exit\<close>, a fault, a spin loop that the
  observed loads never release). The lemmas on memory and on reachable states are used by
  every component theory.
\<close>

unbundle bit_operations_syntax

section \<open>Machine types\<close>

type_synonym u8 = "8 word"
type_synonym u32 = "32 word"
type_synonym u64 = "64 word"
type_synonym addr = "64 word"
type_synonym byte = "8 word"
type_synonym mem = "addr \<Rightarrow> byte"

section \<open>Ways of not returning\<close>

datatype fault =
    AssertFail   \<comment> \<open>a failed \<open>assert\<close>\<close>
  | ExitFailure  \<comment> \<open>\<open>exit(1)\<close>\<close>
  | SegFault     \<comment> \<open>an access to memory that is not mapped\<close>
  | OutOfBounds  \<comment> \<open>an access outside an array, which C leaves undefined\<close>
  | IntOverflow  \<comment> \<open>a signed overflow, which C leaves undefined\<close>
  | Spinning     \<comment> \<open>a busy-wait loop that no observed load has released\<close>

type_synonym 'a result = "fault + 'a"

definition returns :: "'a result \<Rightarrow> bool" where
  "returns r \<longleftrightarrow> (case r of Inl _ \<Rightarrow> False | Inr _ \<Rightarrow> True)"

definition and_then :: "'a result \<Rightarrow> ('a \<Rightarrow> 'b result) \<Rightarrow> 'b result" where
  "and_then r f = (case r of Inl e \<Rightarrow> Inl e | Inr x \<Rightarrow> f x)"

section \<open>Byte memory\<close>

definition read_bytes :: "mem \<Rightarrow> addr \<Rightarrow> nat \<Rightarrow> byte list" where
  "read_bytes m a n = map (\<lambda>i. m (a + of_nat i)) [0..<n]"

definition write_bytes :: "mem \<Rightarrow> addr \<Rightarrow> byte list \<Rightarrow> mem" where
  "write_bytes m a bs = (\<lambda>x. if unat (x - a) < length bs then bs ! unat (x - a) else m x)"

text \<open>The bytes \<open>[a, a + n)\<close>, with the wrap-around of the address space.\<close>

definition in_range :: "addr \<Rightarrow> nat \<Rightarrow> addr \<Rightarrow> bool" where
  "in_range a n x \<longleftrightarrow> unat (x - a) < n"

section \<open>A 64-bit field seen as eight bytes\<close>

definition le_bytes :: "u64 \<Rightarrow> byte list" where
  "le_bytes w = map (\<lambda>i. ucast (drop_bit (8 * i) w)) [0..<8]"

definition of_le_bytes :: "byte list \<Rightarrow> u64" where
  "of_le_bytes bs = foldr (\<lambda>b acc. ucast b OR push_bit 8 acc) bs 0"

definition ld64 :: "mem \<Rightarrow> addr \<Rightarrow> u64" where
  "ld64 m a = of_le_bytes (read_bytes m a 8)"

definition st64 :: "mem \<Rightarrow> addr \<Rightarrow> u64 \<Rightarrow> mem" where
  "st64 m a w = write_bytes m a (le_bytes w)"

section \<open>Lemmas\<close>

named_theorems mem_simps "reading, writing and copying byte ranges"

lemma returns_Inr [simp]: "returns (Inr x)"
  by (simp add: returns_def)

lemma returns_Inl [simp]: "\<not> returns (Inl e)"
  by (simp add: returns_def)

lemma returns_iff: "returns r \<longleftrightarrow> (\<exists>x. r = Inr x)"
  by (cases r) auto

lemma and_then_simps [simp]: "and_then (Inr x) f = f x" "and_then (Inl e) f = Inl e"
  by (simp_all add: and_then_def)

lemma and_then_Inr: "and_then r f = Inr y \<longleftrightarrow> (\<exists>x. r = Inr x \<and> f x = Inr y)"
  by (cases r) auto

lemma length_read_bytes [simp]: "length (read_bytes m a n) = n"
  by (simp add: read_bytes_def)

lemma nth_read_bytes [mem_simps]: "i < n \<Longrightarrow> read_bytes m a n ! i = m (a + of_nat i)"
  by (simp add: read_bytes_def)

lemma memcpy_apply [mem_simps]:
  "write_bytes d a (read_bytes s a n) x = (if in_range a n x then s x else d x)"
  by (simp add: write_bytes_def read_bytes_def in_range_def)

lemma write_bytes_outside [mem_simps]:
  "\<not> in_range a (length bs) x \<Longrightarrow> write_bytes m a bs x = m x"
  by (simp add: write_bytes_def in_range_def)

lemma read_write_bytes [mem_simps]:
  "length bs \<le> 2 ^ 64 \<Longrightarrow> read_bytes (write_bytes m a bs) a (length bs) = bs"
  by (rule nth_equalityI) (auto simp: read_bytes_def write_bytes_def unat_of_nat)

lemma in_range_start [simp]: "0 < n \<Longrightarrow> in_range a n a"
  by (simp add: in_range_def)

lemma length_le_bytes [simp]: "length (le_bytes w) = 8"
  by (simp add: le_bytes_def)

lemma of_le_bytes_Cons: "of_le_bytes (b # bs) = ucast b OR push_bit 8 (of_le_bytes bs)"
  by (simp add: of_le_bytes_def)

lemma upt_8: "[0..<8] = [0, 1, 2, 3, 4, 5, 6, 7 :: nat]"
  by (simp add: upt_rec)

lemma of_le_bytes_shift:
  "ucast (ucast (drop_bit n w :: u64) :: byte) OR push_bit 8 (drop_bit (n + 8) w) = drop_bit n w"
proof (rule bit_word_eqI)
  fix k :: nat
  assume "k < LENGTH(64)"
  moreover have "n + 8 + (k - 8) = n + k" if "8 \<le> k"
    using that by simp
  ultimately show "bit (ucast (ucast (drop_bit n w) :: byte) OR push_bit 8 (drop_bit (n + 8) w)) k
      = bit (drop_bit n w) k"
    by (cases "k < 8") (auto simp: bit_simps)
qed

lemma of_le_bytes_le_bytes [simp]: "of_le_bytes (le_bytes w) = w"
proof -
  have top: "drop_bit 64 w = 0"
    by (rule bit_word_eqI) (auto simp: bit_simps dest: bit_imp_le_length)
  have step: "ucast (ucast (drop_bit n w) :: byte) OR push_bit 8 (drop_bit k w) = drop_bit n w"
    if "k = n + 8" for n k
    using that of_le_bytes_shift by simp
  show ?thesis
    using step [of 64 56] step [of 56 48] step [of 48 40] step [of 40 32] step [of 32 24]
      step [of 24 16] step [of 16 8] step [of 8 0]
    by (simp add: le_bytes_def upt_8 of_le_bytes_def top)
qed

lemma unat_lt64: "unat (a :: u64) < 2 ^ 64"
  using unsigned_less [of a, where ?'a = nat] by simp

lemma ld64_st64_same [mem_simps]: "ld64 (st64 m a w) a = w"
  using read_write_bytes [of "le_bytes w" m a] by (simp add: ld64_def st64_def)

lemma ld64_st64_other [mem_simps]:
  assumes "8 \<le> unat (a - b)" "8 \<le> unat (b - a)"
  shows "ld64 (st64 m a w) b = ld64 m b"
proof -
  have le: "unat (b - a) \<le> 2 ^ 64 - 8"
    using assms unat_lt64 [of a] unat_lt64 [of b]
    by (simp add: unat_sub_if_size word_size split: if_splits)
  have "\<not> unat (b + of_nat i - a) < 8" if i: "i < 8" for i
  proof -
    have "b + of_nat i - a = (b - a) + of_nat i" by simp
    moreover have "unat ((b - a) + of_nat i) = unat (b - a) + i"
      using le i by (simp add: unat_word_ariths unat_of_nat)
    ultimately have "unat (b + of_nat i - a) = unat (b - a) + i" by (simp only:)
    with assms(2) show ?thesis by linarith
  qed
  then have "write_bytes m a (le_bytes w) (b + of_nat i) = m (b + of_nat i)" if "i < 8" for i
    using that by (simp add: write_bytes_def)
  then have "read_bytes (write_bytes m a (le_bytes w)) b 8 = read_bytes m b 8"
    by (simp add: read_bytes_def)
  then show ?thesis by (simp add: ld64_def st64_def)
qed

section \<open>Rounding an address down to its block\<close>

lemma and_high_mask: "a AND push_bit n (NOT 0) = push_bit n (drop_bit n (a :: u64))"
  by (rule bit_word_eqI) (auto simp: bit_simps)

lemma unat_clear_low: "unat (push_bit n (drop_bit n (a :: u64))) = unat a div 2 ^ n * 2 ^ n"
proof -
  have "take_bit 64 (unat a) = unat a"
    by (rule take_bit_nat_eq_self) (rule unat_lt64)
  then have "unat (push_bit n (drop_bit n a)) = take_bit 64 (push_bit n (drop_bit n (unat a)))"
    by (simp only: unsigned_push_bit_eq unsigned_drop_bit_eq) simp
  also have "\<dots> = (unat a div 2 ^ n * 2 ^ n) mod 2 ^ 64"
    by (simp only: take_bit_eq_mod push_bit_eq_mult drop_bit_eq_div)
  also have "\<dots> = unat a div 2 ^ n * 2 ^ n"
    by (rule mod_less, rule le_less_trans [OF div_times_less_eq_dividend])
      (rule unat_lt64)
  finally show ?thesis .
qed

section \<open>Invariants of step relations\<close>

text \<open>
  A step relation with a set of start states and an invariant that the steps keep. The
  concurrent components (the lock, the combiner, the log channel) interpret it with their
  own relations and take the facts on runs from here.
\<close>

locale invariant_system =
  fixes start :: "'s \<Rightarrow> bool"
    and step :: "'s \<Rightarrow> 's \<Rightarrow> bool"
    and inv :: "'s \<Rightarrow> bool"
  assumes inv_start: "start s \<Longrightarrow> inv s"
    and inv_step: "inv s \<Longrightarrow> step s t \<Longrightarrow> inv t"
begin

lemma inv_run: "rtranclp step s t \<Longrightarrow> inv s \<Longrightarrow> inv t"
  by (induction rule: rtranclp_induct) (auto intro: inv_step)

lemma inv_reachable: "start s \<Longrightarrow> rtranclp step s t \<Longrightarrow> inv t"
  by (blast intro: inv_start inv_run)

end

end
