(* ===== verification/Ring_Buffer.thy ===== *)
theory Ring_Buffer
  imports Mangosteen_Prelude
begin

text \<open>
  The persistent ring buffer of \<^verbatim>\<open>ring_buffer/ring_buffer.c\<close>: the log through which the
  front end hands redo and mmap entries to the back end. The structure that lives in the
  shared file is the record \<open>ring_buffer\<close>; the globals each process keeps beside it are
  \<open>rb_globals\<close>. A busy-wait loop consumes the list of values its loads observe, one per
  iteration: the other process runs in between, so the values are not determined by this
  process. The abstraction \<open>rb_entries\<close> is the queue of entries between a head and a tail.
\<close>

section \<open>Data\<close>

definition RING_BUFFER_SIZE :: u64 where
  "RING_BUFFER_SIZE = 65536"

definition PAYLOAD_SIZE :: nat where
  "PAYLOAD_SIZE = 32"

definition REDO_ENTRY :: u8 where "REDO_ENTRY = 0"
definition MMAP_ENTRY :: u8 where "MMAP_ENTRY = 1"
definition COMMIT_ENTRY :: u8 where "COMMIT_ENTRY = 2"
definition TRANSIENT_MMAP_ENTRY :: u8 where "TRANSIENT_MMAP_ENTRY = 3"

record ring_buffer_entry =
  entry_type :: u8
  entry_addr :: addr
  payload :: "byte list"

text \<open>
  \<open>ring_buffer_map_entry\<close> has the same first two fields; its \<open>size\<close> lies over the first
  eight bytes of the payload (both start at offset 16). Every slot of the buffer is read and
  written under either type.
\<close>

record ring_buffer_map_entry =
  map_entry_type :: u8
  map_entry_addr :: addr
  map_entry_size :: u64

record atomic_pmem_commit =
  numberOfRegions :: u32
  ringBufferHead :: u32

record ring_buffer =
  buffer :: "u64 \<Rightarrow> ring_buffer_entry"
  last_persisted_head :: u64
  last_persisted_tail :: u64
  remote_head :: u64
  remote_tail :: u64
  producer_addr :: addr
  commit_metadata :: atomic_pmem_commit

record rb_globals =
  global_local_head :: u64
  global_local_tail :: u64
  number_of_mmaped_memory_regions :: u64

text \<open>The content of the file right after \<open>ftruncate\<close>: zero bytes.\<close>

definition zero_entry :: ring_buffer_entry where
  "zero_entry = \<lparr>entry_type = 0, entry_addr = 0, payload = replicate PAYLOAD_SIZE 0\<rparr>"

definition zero_ring_buffer :: ring_buffer where
  "zero_ring_buffer =
     \<lparr>buffer = (\<lambda>_. zero_entry), last_persisted_head = 0, last_persisted_tail = 0,
      remote_head = 0, remote_tail = 0, producer_addr = 0,
      commit_metadata = \<lparr>numberOfRegions = 0, ringBufferHead = 0\<rparr>\<rparr>"

section \<open>Reading a slot under the two entry types\<close>

definition map_entry_of :: "ring_buffer_entry \<Rightarrow> ring_buffer_map_entry" where
  "map_entry_of e =
     \<lparr>map_entry_type = entry_type e, map_entry_addr = entry_addr e,
      map_entry_size = of_le_bytes (take 8 (payload e))\<rparr>"

definition store_map_entry :: "ring_buffer_map_entry \<Rightarrow> ring_buffer_entry \<Rightarrow> ring_buffer_entry" where
  "store_map_entry me old =
     \<lparr>entry_type = map_entry_type me, entry_addr = map_entry_addr me,
      payload = le_bytes (map_entry_size me) @ drop 8 (payload old)\<rparr>"

section \<open>Tags\<close>

text \<open>The first eight characters of a message, up to a terminating zero, compared with a tag.\<close>

definition starts_with_tag :: "string \<Rightarrow> string \<Rightarrow> bool" where
  "starts_with_tag tag msg \<longleftrightarrow> take 8 (takeWhile (\<lambda>c. c \<noteq> CHR 0x00) msg) = tag"

definition is_a_memory_tag :: "string \<Rightarrow> bool" where
  "is_a_memory_tag msg = starts_with_tag ''S_MEMORY'' msg"

definition has_more_map_entries :: "string \<Rightarrow> bool" where
  "has_more_map_entries msg = (\<not> starts_with_tag ''E_MEMORY'' msg)"

definition has_more_redo_entries :: "string \<Rightarrow> bool" where
  "has_more_redo_entries msg = (\<not> starts_with_tag ''E_REDOLO'' msg)"

text \<open>No message is two tags at once.\<close>

lemma tags_exclusive:
  "is_a_memory_tag msg \<Longrightarrow> has_more_map_entries msg \<and> has_more_redo_entries msg"
  "\<not> has_more_map_entries msg \<Longrightarrow> has_more_redo_entries msg"
  by (auto simp: is_a_memory_tag_def has_more_map_entries_def has_more_redo_entries_def starts_with_tag_def)

section \<open>Opening the buffer\<close>

text \<open>
  \<open>file\<close> is what \<open>access\<close> finds at \<open>RING_BUFFER_FILE_PATH\<close> (\<open>None\<close> when it is missing) and
  \<open>mapped\<close> what \<open>mmap\<close> returns (\<open>None\<close> for \<open>MAP_FAILED\<close>, which is not \<open>NULL\<close>, so the
  assertion lets it through and the first access faults). The globals \<open>g\<close> are the
  process's static storage.
\<close>

definition ring_buffer_create_and_initialise ::
    "ring_buffer option \<Rightarrow> addr option \<Rightarrow> rb_globals \<Rightarrow> (ring_buffer \<times> rb_globals) result" where
  "ring_buffer_create_and_initialise file mapped g =
     (case mapped of
        None \<Rightarrow> Inl SegFault
      | Some a \<Rightarrow>
          if a = 0 then Inl AssertFail
          else
            (case file of
               None \<Rightarrow>
                 if unat a mod 64 \<noteq> 0 then Inl AssertFail
                 else
                   Inr (zero_ring_buffer\<lparr>remote_head := 0, remote_tail := 0,
                          last_persisted_head := 0, last_persisted_tail := 0,
                          producer_addr := a,
                          commit_metadata := \<lparr>numberOfRegions = 0, ringBufferHead = 0\<rparr>\<rparr>,
                        g\<lparr>global_local_tail := 0, global_local_head := 0,
                          number_of_mmaped_memory_regions := 0\<rparr>)
             | Some rb \<Rightarrow>
                 Inr (rb\<lparr>last_persisted_head := remote_head rb,
                         last_persisted_tail := remote_tail rb\<rparr>,
                      g\<lparr>global_local_tail := remote_tail rb,
                        global_local_head := remote_head rb,
                        number_of_mmaped_memory_regions :=
                          ucast (numberOfRegions (commit_metadata rb))\<rparr>)))"

text \<open>
  \<open>ring_buffer_open\<close> maps the file twice, the second time at the address the producer
  recorded. \<open>mapped_at\<close> is what the second, fixed \<open>mmap\<close> returns.
\<close>

definition map_ring_buffer_file_to_correct_address ::
    "ring_buffer option \<Rightarrow> addr \<Rightarrow> ring_buffer result" where
  "map_ring_buffer_file_to_correct_address file mapped_at =
     (let rb = (case file of None \<Rightarrow> zero_ring_buffer | Some rb \<Rightarrow> rb)
      in if mapped_at = producer_addr rb then Inr rb else Inl AssertFail)"

definition ring_buffer_open ::
    "ring_buffer option \<Rightarrow> addr \<Rightarrow> rb_globals \<Rightarrow> (ring_buffer \<times> rb_globals) result" where
  "ring_buffer_open file mapped_at g =
     (case map_ring_buffer_file_to_correct_address file mapped_at of
        Inl e \<Rightarrow> Inl e
      | Inr rb \<Rightarrow>
          let rb' = rb\<lparr>remote_head := ucast (ringBufferHead (commit_metadata rb))\<rparr>
          in Inr (rb', g\<lparr>global_local_tail := remote_tail rb',
                         global_local_head := remote_head rb'\<rparr>))"

definition reset_mmaped_regions_counter :: "rb_globals \<Rightarrow> rb_globals" where
  "reset_mmaped_regions_counter g = g\<lparr>number_of_mmaped_memory_regions := 0\<rparr>"

section \<open>Accessors\<close>

definition get_global_head_value :: "ring_buffer \<Rightarrow> u64" where
  "get_global_head_value rb = last_persisted_head rb"

definition get_global_tail_value :: "ring_buffer \<Rightarrow> u64" where
  "get_global_tail_value rb = last_persisted_tail rb"

definition set_global_head_value :: "u64 \<Rightarrow> ring_buffer \<Rightarrow> ring_buffer" where
  "set_global_head_value h rb = rb\<lparr>last_persisted_head := h\<rparr>"

definition set_global_tail_value :: "u64 \<Rightarrow> ring_buffer \<Rightarrow> ring_buffer" where
  "set_global_tail_value t rb = rb\<lparr>last_persisted_tail := t\<rparr>"

section \<open>The producer\<close>

definition next_index :: "u64 \<Rightarrow> u64" where
  "next_index t = (if t + 1 = RING_BUFFER_SIZE then 0 else t + 1)"

text \<open>
  \<open>while(nextTail == head) head = <load>;\<close> on the successive values the load returns. The
  list is what this thread will observe; when it runs out the loop is still waiting.
\<close>

fun spin_while_equal :: "u64 \<Rightarrow> u64 \<Rightarrow> u64 list \<Rightarrow> (u64 \<times> u64 list) result" where
  "spin_while_equal n h [] = (if n = h then Inl Spinning else Inr (h, []))"
| "spin_while_equal n h (v # vs) = (if n = h then spin_while_equal n v vs else Inr (h, v # vs))"

text \<open>A producer call returns the buffer, the thread's head and tail and the unused loads.\<close>

type_synonym producer_result = "(ring_buffer \<times> u64 \<times> u64 \<times> u64 list) result"

definition put_slot :: "u64 \<Rightarrow> ring_buffer_entry \<Rightarrow> ring_buffer \<Rightarrow> ring_buffer" where
  "put_slot t e rb = rb\<lparr>buffer := (buffer rb)(t := e)\<rparr>"

definition ring_buffer_enqueue_mmap_entry ::
    "ring_buffer \<Rightarrow> ring_buffer_map_entry \<Rightarrow> u64 \<Rightarrow> u64 \<Rightarrow> u64 list \<Rightarrow> producer_result" where
  "ring_buffer_enqueue_mmap_entry rb me head tail loads =
     (let nextTail = next_index tail
      in case spin_while_equal nextTail head loads of
           Inl e \<Rightarrow> Inl e
         | Inr (head', loads') \<Rightarrow>
             Inr (put_slot tail (store_map_entry me (buffer rb tail)) rb, head', nextTail, loads'))"

definition redo_entry_for :: "mem \<Rightarrow> addr \<Rightarrow> ring_buffer_entry" where
  "redo_entry_for m a =
     \<lparr>entry_type = REDO_ENTRY, entry_addr = a, payload = read_bytes m a PAYLOAD_SIZE\<rparr>"

definition ring_buffer_enqueue_redo_log_entry ::
    "ring_buffer \<Rightarrow> mem \<Rightarrow> addr \<Rightarrow> u64 \<Rightarrow> u64 \<Rightarrow> u64 list \<Rightarrow> producer_result" where
  "ring_buffer_enqueue_redo_log_entry rb m a head tail loads =
     (let nextTail = next_index tail
      in case spin_while_equal nextTail head loads of
           Inl e \<Rightarrow> Inl e
         | Inr (head', loads') \<Rightarrow>
             Inr (put_slot tail (redo_entry_for m a) rb, head', nextTail, loads'))"

text \<open>
  The commit writes only the type of its slot and then publishes the tail. Its loop loads
  \<open>last_persisted_head\<close>, where the two enqueue loops load \<open>remote_head\<close>: \<open>loads\<close> are the values that field
  has at the moments of the loads, and the step relation of \<open>Ring_Channel\<close> fixes for each loop which of
  the two it reads.
\<close>

definition ring_buffer_commit_enqueued_entries ::
    "ring_buffer \<Rightarrow> u64 \<Rightarrow> u64 \<Rightarrow> u64 list \<Rightarrow> producer_result" where
  "ring_buffer_commit_enqueued_entries rb head tail loads =
     (let nextTail = next_index tail
      in case spin_while_equal nextTail head loads of
           Inl e \<Rightarrow> Inl e
         | Inr (head', loads') \<Rightarrow>
             (let rb1 = put_slot tail ((buffer rb tail)\<lparr>entry_type := COMMIT_ENTRY\<rparr>) rb;
                  rb2 = rb1\<lparr>remote_tail := nextTail\<rparr>;
                  rb3 = rb2\<lparr>last_persisted_tail := remote_tail rb2\<rparr>
              in Inr (rb3, head', nextTail, loads')))"

section \<open>The consumer\<close>

definition ring_buffer_dequeue ::
    "ring_buffer \<Rightarrow> rb_globals \<Rightarrow> u64 list \<Rightarrow> (ring_buffer_entry \<times> rb_globals \<times> u64 list) result" where
  "ring_buffer_dequeue rb g loads =
     (let head = global_local_head g
      in case spin_while_equal head (global_local_tail g) loads of
           Inl e \<Rightarrow> Inl e
         | Inr (tail', loads') \<Rightarrow>
             Inr (buffer rb head,
                  g\<lparr>global_local_tail := tail', global_local_head := next_index head\<rparr>,
                  loads'))"

definition ring_buffer_commit_dequeued_entries :: "ring_buffer \<Rightarrow> rb_globals \<Rightarrow> ring_buffer" where
  "ring_buffer_commit_dequeued_entries rb g =
     (let rb' = rb\<lparr>remote_head := global_local_head g\<rparr>
      in rb'\<lparr>last_persisted_head := remote_head rb'\<rparr>)"

section \<open>The queue between a head and a tail\<close>

definition valid_index :: "u64 \<Rightarrow> bool" where
  "valid_index i \<longleftrightarrow> unat i < 65536"

definition rb_dist :: "u64 \<Rightarrow> u64 \<Rightarrow> nat" where
  "rb_dist h t = (if h \<le> t then unat t - unat h else unat t + 65536 - unat h)"

definition rb_slot :: "u64 \<Rightarrow> nat \<Rightarrow> u64" where
  "rb_slot h i = of_nat ((unat h + i) mod 65536)"

definition rb_entries :: "(u64 \<Rightarrow> ring_buffer_entry) \<Rightarrow> u64 \<Rightarrow> u64 \<Rightarrow> ring_buffer_entry list" where
  "rb_entries buf h t = map (\<lambda>i. buf (rb_slot h i)) [0..<rb_dist h t]"

type_synonym rb_view = "(u64 \<Rightarrow> ring_buffer_entry) \<times> u64 \<times> u64"

definition rb_put :: "ring_buffer_entry \<Rightarrow> rb_view \<Rightarrow> rb_view" where
  "rb_put e = (\<lambda>(buf, h, t). (buf(t := e), h, next_index t))"

definition rb_get :: "rb_view \<Rightarrow> ring_buffer_entry \<times> rb_view" where
  "rb_get = (\<lambda>(buf, h, t). (buf h, (buf, next_index h, t)))"

definition rb_content :: "rb_view \<Rightarrow> ring_buffer_entry list" where
  "rb_content = (\<lambda>(buf, h, t). rb_entries buf h t)"

definition rb_valid :: "rb_view \<Rightarrow> bool" where
  "rb_valid = (\<lambda>(buf, h, t). valid_index h \<and> valid_index t)"

section \<open>The layout of the mapped file\<close>

text \<open>
  Offsets of the members of \<open>ring_buffer\<close> under the x86-64 ABI (an entry is 48 bytes: the
  type byte, seven bytes of padding, the address and the payload) and the number of bytes
  \<open>ftruncate\<close> gives the file.
\<close>

definition sizeof_ring_buffer_entry :: nat where
  "sizeof_ring_buffer_entry = 8 + 8 + PAYLOAD_SIZE"

definition offset_last_persisted_head :: nat where
  "offset_last_persisted_head = 65536 * sizeof_ring_buffer_entry"

definition offset_remote_head :: nat where
  "offset_remote_head = offset_last_persisted_head + 16"

definition offset_remote_tail :: nat where
  "offset_remote_tail = offset_remote_head + 8 + 128"

definition offset_producer_addr :: nat where
  "offset_producer_addr = offset_remote_tail + 8 + 128"

definition offset_commit_metadata :: nat where
  "offset_commit_metadata = offset_producer_addr + 8"

definition pmem_file_size :: nat where
  "pmem_file_size = unat RING_BUFFER_SIZE * sizeof_ring_buffer_entry + 32"

section \<open>Index arithmetic\<close>

named_theorems ring_simps "the ring buffer's operations and index arithmetic"

lemmas entry_type_defs = REDO_ENTRY_def MMAP_ENTRY_def COMMIT_ENTRY_def TRANSIENT_MMAP_ENTRY_def

lemma unat_next_index:
  "valid_index t \<Longrightarrow> unat (next_index t) = (if unat t = 65535 then 0 else unat t + 1)"
proof -
  assume v: "valid_index t"
  then have s: "unat (t + 1) = unat t + 1"
    by (simp add: valid_index_def unat_word_ariths)
  then have "t + 1 = 65536 \<longleftrightarrow> unat t = 65535"
    by (simp add: word_unat_eq_iff)
  then show ?thesis
    using s by (simp add: next_index_def RING_BUFFER_SIZE_def)
qed

lemmas ring_arith = valid_index_def rb_dist_def word_le_nat_alt word_unat_eq_iff

lemma valid_next_index [simp, intro]: "valid_index t \<Longrightarrow> valid_index (next_index t)"
  using unat_next_index [of t] by (auto simp: valid_index_def split: if_splits)

lemma valid_index_0 [simp]: "valid_index 0"
  by (simp add: valid_index_def)

lemma next_index_neq: "valid_index t \<Longrightarrow> next_index t \<noteq> t"
  by (auto simp: word_unat_eq_iff unat_next_index split: if_splits)

lemma rb_dist_less: "valid_index h \<Longrightarrow> valid_index t \<Longrightarrow> rb_dist h t < 65536"
  by (auto simp: ring_arith)

lemma rb_dist_eq_0: "valid_index h \<Longrightarrow> valid_index t \<Longrightarrow> rb_dist h t = 0 \<longleftrightarrow> h = t"
  by (auto simp: ring_arith)

lemma rb_dist_same [simp]: "rb_dist h h = 0"
  by (simp add: rb_dist_def)

lemma rb_dist_next_tail:
  "valid_index h \<Longrightarrow> valid_index t \<Longrightarrow> next_index t \<noteq> h \<Longrightarrow>
   rb_dist h (next_index t) = Suc (rb_dist h t)"
  by (auto simp: ring_arith unat_next_index split: if_splits)

lemma rb_dist_next_head:
  "valid_index h \<Longrightarrow> valid_index t \<Longrightarrow> h \<noteq> t \<Longrightarrow>
   rb_dist h t = Suc (rb_dist (next_index h) t)"
  by (auto simp: ring_arith unat_next_index split: if_splits)

lemma rb_dist_full:
  "valid_index h \<Longrightarrow> valid_index t \<Longrightarrow> next_index t = h \<longleftrightarrow> rb_dist h t = 65535"
  by (auto simp: ring_arith unat_next_index split: if_splits)

lemma unat_rb_slot: "unat (rb_slot h i) = (unat h + i) mod 65536"
proof -
  have "(unat h + i) mod 65536 < 65536" by simp
  then have "(unat h + i) mod 65536 < 2 ^ LENGTH(64)" by simp
  then show ?thesis by (simp add: rb_slot_def unat_of_nat del: mod_mod_trivial)
qed

lemma mod_ring_if: "(n :: nat) < 131072 \<Longrightarrow> n mod 65536 = (if n < 65536 then n else n - 65536)"
  by (simp add: mod_if)

lemma rb_slot_0 [simp]: "valid_index h \<Longrightarrow> rb_slot h 0 = h"
  by (simp add: rb_slot_def valid_index_def)

lemma rb_slot_next: "valid_index h \<Longrightarrow> rb_slot (next_index h) i = rb_slot h (Suc i)"
proof -
  assume "valid_index h"
  moreover have "i mod 65536 = (65536 + i) mod 65536" by simp
  ultimately show ?thesis
    by (auto simp: rb_slot_def unat_next_index simp del: mod_add_self1)
qed

lemma rb_slot_dist: "valid_index h \<Longrightarrow> valid_index t \<Longrightarrow> rb_slot h (rb_dist h t) = t"
  by (auto simp: word_unat_eq_iff unat_rb_slot rb_dist_def valid_index_def word_le_nat_alt)

lemma rb_slot_neq_tail:
  assumes "valid_index h" "valid_index t" "i < rb_dist h t"
  shows "rb_slot h i \<noteq> t"
proof -
  have "unat h + i < 131072"
    using assms rb_dist_less [of h t] by (simp add: valid_index_def)
  then show ?thesis
    using assms by (auto simp: word_unat_eq_iff unat_rb_slot mod_ring_if rb_dist_def
        valid_index_def word_le_nat_alt split: if_splits)
qed

section \<open>The queue laws\<close>

lemma length_rb_entries [simp]: "length (rb_entries buf h t) = rb_dist h t"
  by (simp add: rb_entries_def)

lemma rb_entries_Nil [simp]: "valid_index h \<Longrightarrow> rb_entries buf h h = []"
  by (simp add: rb_entries_def)

lemma rb_entries_Nil_iff:
  "valid_index h \<Longrightarrow> valid_index t \<Longrightarrow> rb_entries buf h t = [] \<longleftrightarrow> h = t"
  by (simp add: rb_entries_def rb_dist_eq_0)

lemma rb_entries_put:
  assumes "valid_index h" "valid_index t" "next_index t \<noteq> h"
  shows "rb_entries (buf(t := e)) h (next_index t) = rb_entries buf h t @ [e]"
proof -
  have "map (\<lambda>i. (buf(t := e)) (rb_slot h i)) [0..<rb_dist h t]
      = map (\<lambda>i. buf (rb_slot h i)) [0..<rb_dist h t]"
    using assms rb_slot_neq_tail by auto
  then show ?thesis
    by (simp add: rb_entries_def rb_dist_next_tail rb_slot_dist assms)
qed

lemma rb_entries_get:
  assumes "valid_index h" "valid_index t" "h \<noteq> t"
  shows "rb_entries buf h t = buf h # rb_entries buf (next_index h) t"
  unfolding rb_entries_def rb_dist_next_head [OF assms]
  by (simp add: rb_slot_next assms upt_conv_Cons map_Suc_upt [symmetric] o_def
      del: upt_Suc map_Suc_upt)

section \<open>The queue interface\<close>

text \<open>
  What the two ends rely on: a bounded queue. The producer appends while there is room, the
  consumer takes the oldest entry; the facts on whole batches are proved from these laws.
\<close>

locale entry_queue =
  fixes put :: "'e \<Rightarrow> 'q \<Rightarrow> 'q"
    and get :: "'q \<Rightarrow> 'e \<times> 'q"
    and content :: "'q \<Rightarrow> 'e list"
    and valid :: "'q \<Rightarrow> bool"
    and capacity :: nat
  assumes valid_put: "valid q \<Longrightarrow> length (content q) < capacity \<Longrightarrow> valid (put e q)"
    and content_put: "valid q \<Longrightarrow> length (content q) < capacity \<Longrightarrow> content (put e q) = content q @ [e]"
    and valid_get: "valid q \<Longrightarrow> content q \<noteq> [] \<Longrightarrow> valid (snd (get q))"
    and content_get: "valid q \<Longrightarrow> content q \<noteq> [] \<Longrightarrow> content q = fst (get q) # content (snd (get q))"
begin

lemma content_puts:
  "valid q \<Longrightarrow> length (content q) + length es \<le> capacity \<Longrightarrow>
   valid (fold put es q) \<and> content (fold put es q) = content q @ es"
proof (induction es arbitrary: q)
  case Nil
  then show ?case by simp
next
  case (Cons e es)
  then have "valid (put e q)" "content (put e q) = content q @ [e]"
    by (auto intro: valid_put content_put)
  with Cons.IH [of "put e q"] Cons.prems show ?case by simp
qed

lemma gets_drop:
  "valid q \<Longrightarrow> n \<le> length (content q) \<Longrightarrow>
   valid (((\<lambda>s. snd (get s)) ^^ n) q) \<and> content (((\<lambda>s. snd (get s)) ^^ n) q) = drop n (content q)"
proof (induction n)
  case 0
  then show ?case by simp
next
  case (Suc n)
  then have IH: "valid (((\<lambda>s. snd (get s)) ^^ n) q)" "content (((\<lambda>s. snd (get s)) ^^ n) q) = drop n (content q)"
    by auto
  with Suc.prems have ne: "content (((\<lambda>s. snd (get s)) ^^ n) q) \<noteq> []" by simp
  have "drop (Suc n) (content q) = tl (drop n (content q))"
    by (simp add: drop_Suc tl_drop)
  moreover have "content (snd (get (((\<lambda>s. snd (get s)) ^^ n) q))) = tl (drop n (content q))"
    using content_get [OF IH(1) ne] IH(2) by (metis list.sel(3))
  ultimately show ?case using valid_get [OF IH(1) ne] by simp
qed

lemma get_nth:
  assumes "valid q" "n < length (content q)"
  shows "fst (get (((\<lambda>s. snd (get s)) ^^ n) q)) = content q ! n"
proof -
  from assms have v: "valid (((\<lambda>s. snd (get s)) ^^ n) q)" "content (((\<lambda>s. snd (get s)) ^^ n) q) = drop n (content q)"
    using gets_drop [of q n] by auto
  with assms content_get [OF v(1)] show ?thesis
    by (metis Cons_nth_drop_Suc list.sel(1) list.simps(3))
qed

lemma fifo:
  assumes "valid q" "content q = []" "length es \<le> capacity" "n < length es"
  shows "fst (get (((\<lambda>s. snd (get s)) ^^ n) (fold put es q))) = es ! n"
  using assms content_puts [of q es] get_nth [of "fold put es q" n] by simp

end

interpretation rbq: entry_queue rb_put rb_get rb_content rb_valid 65535
proof (unfold_locales, goal_cases)
  case (1 q e)
  then show ?case by (auto simp: rb_valid_def rb_put_def)
next
  case (2 q e)
  then show ?case
    by (auto simp: rb_valid_def rb_put_def rb_content_def intro!: rb_entries_put)
      (metis rb_dist_full less_irrefl valid_next_index)
next
  case (3 q)
  then show ?case by (auto simp: rb_valid_def rb_get_def rb_content_def)
next
  case (4 q)
  then show ?case
    by (auto simp: rb_valid_def rb_get_def rb_content_def intro!: rb_entries_get)
qed

section \<open>Busy waiting\<close>

lemma spin_returns: "returns (spin_while_equal n h vs) \<longleftrightarrow> (\<exists>v\<in>set (h # vs). v \<noteq> n)"
  by (induction n h vs rule: spin_while_equal.induct) auto

lemma spin_result:
  "spin_while_equal n h vs = Inr (h', vs') \<Longrightarrow>
   h' \<noteq> n \<and> h' \<in> set (h # vs) \<and> (\<exists>us. vs = us @ vs')"
  by (induction n h vs rule: spin_while_equal.induct) (auto split: if_splits)

lemma spin_free: "h \<noteq> n \<Longrightarrow> spin_while_equal n h vs = Inr (h, vs)"
  by (cases vs) auto

lemma spin_stuck: "spin_while_equal n n (replicate k n) = Inl Spinning"
  by (induction k) auto

lemma spin_fault: "spin_while_equal n h vs = Inl e \<Longrightarrow> e = Spinning"
  by (induction n h vs rule: spin_while_equal.induct) (auto split: if_splits)

lemmas producer_defs =
  ring_buffer_enqueue_redo_log_entry_def ring_buffer_enqueue_mmap_entry_def
  ring_buffer_commit_enqueued_entries_def put_slot_def Let_def

lemmas spin_split = sum.splits prod.splits

section \<open>What the operations do\<close>

lemma enqueue_redo_result:
  "ring_buffer_enqueue_redo_log_entry rb m a h t vs = Inr (rb', h', t', vs') \<longleftrightarrow>
   spin_while_equal (next_index t) h vs = Inr (h', vs') \<and> t' = next_index t \<and>
   rb' = put_slot t (redo_entry_for m a) rb"
  by (auto simp: ring_buffer_enqueue_redo_log_entry_def Let_def split: spin_split)

lemma enqueue_mmap_result:
  "ring_buffer_enqueue_mmap_entry rb me h t vs = Inr (rb', h', t', vs') \<longleftrightarrow>
   spin_while_equal (next_index t) h vs = Inr (h', vs') \<and> t' = next_index t \<and>
   rb' = put_slot t (store_map_entry me (buffer rb t)) rb"
  by (auto simp: ring_buffer_enqueue_mmap_entry_def Let_def split: spin_split)

lemma commit_enqueued_result:
  "ring_buffer_commit_enqueued_entries rb h t vs = Inr (rb', h', t', vs') \<longleftrightarrow>
   spin_while_equal (next_index t) h vs = Inr (h', vs') \<and> t' = next_index t \<and>
   rb' = put_slot t ((buffer rb t)\<lparr>entry_type := COMMIT_ENTRY\<rparr>) rb
           \<lparr>remote_tail := t', last_persisted_tail := t'\<rparr>"
  by (auto simp: ring_buffer_commit_enqueued_entries_def Let_def split: spin_split)

lemma dequeue_result:
  "ring_buffer_dequeue rb g vs = Inr (e, g', vs') \<longleftrightarrow>
   (\<exists>t'. spin_while_equal (global_local_head g) (global_local_tail g) vs = Inr (t', vs') \<and>
      e = buffer rb (global_local_head g) \<and>
      g' = g\<lparr>global_local_tail := t', global_local_head := next_index (global_local_head g)\<rparr>)"
  by (auto simp: ring_buffer_dequeue_def Let_def split: spin_split)

lemma map_entry_of_store [simp]: "map_entry_of (store_map_entry me old) = me"
  by (simp add: map_entry_of_def store_map_entry_def)

lemma length_payload_store [simp]:
  "length (payload old) = PAYLOAD_SIZE \<Longrightarrow> length (payload (store_map_entry me old)) = PAYLOAD_SIZE"
  by (simp add: store_map_entry_def PAYLOAD_SIZE_def)

text \<open>
  Enqueueing a redo entry that returns appends to the queue one redo entry for the given
  address, holding the 32 bytes the application's memory has there, moves the tail by one
  slot, and publishes nothing: the consumer's view of the tail is unchanged.
\<close>

lemma enqueue_redo_appends:
  assumes "valid_index head" "valid_index tail" "\<forall>v\<in>set loads. valid_index v"
    and "ring_buffer_enqueue_redo_log_entry rb m a head tail loads = Inr (rb', head', tail', loads')"
  shows "rb_entries (buffer rb') head' tail' =
           rb_entries (buffer rb) head' tail @
             [\<lparr>entry_type = REDO_ENTRY, entry_addr = a, payload = read_bytes m a 32\<rparr>]
         \<and> tail' = next_index tail \<and> valid_index tail' \<and> valid_index head'
         \<and> remote_tail rb' = remote_tail rb \<and> last_persisted_tail rb' = last_persisted_tail rb"
proof -
  from assms(4) have r: "spin_while_equal (next_index tail) head loads = Inr (head', loads')"
    "tail' = next_index tail" "rb' = put_slot tail (redo_entry_for m a) rb"
    by (auto simp: enqueue_redo_result)
  then have "head' \<noteq> next_index tail" "valid_index head'"
    using spin_result [OF r(1)] assms(1,3) by auto
  then show ?thesis
    using rb_entries_put [of head' tail "buffer rb" "redo_entry_for m a"] assms(2) r
    by (auto simp: put_slot_def redo_entry_for_def PAYLOAD_SIZE_def)
qed

lemma enqueue_redo_appends_witness:
  "rb_entries (buffer (put_slot 65535 (redo_entry_for (\<lambda>x. ucast x) 4096) zero_ring_buffer)) 5 0 =
     rb_entries (buffer zero_ring_buffer) 5 65535 @
       [\<lparr>entry_type = REDO_ENTRY, entry_addr = 4096, payload = read_bytes (\<lambda>x. ucast x) 4096 32\<rparr>]"
proof -
  have n: "next_index 65535 = 0" by (simp add: next_index_def RING_BUFFER_SIZE_def)
  have "ring_buffer_enqueue_redo_log_entry zero_ring_buffer (\<lambda>x. ucast x) 4096 0 65535 [0, 5]
      = Inr (put_slot 65535 (redo_entry_for (\<lambda>x. ucast x) 4096) zero_ring_buffer, 5, 0, [])"
    by (simp add: enqueue_redo_result n)
  from enqueue_redo_appends [OF _ _ _ this] show ?thesis
    by (simp add: valid_index_def)
qed

text \<open>
  A producer call waits only while the ring is full: an enqueue or a commit returns
  exactly when one of the head values it has or loads differs from the next tail, and the
  only other outcome is that it is still waiting.
\<close>

lemma producer_returns_iff_room:
  "(returns (ring_buffer_enqueue_redo_log_entry rb m a head tail loads) \<longleftrightarrow>
      (\<exists>v\<in>set (head # loads). v \<noteq> next_index tail)) \<and>
   (returns (ring_buffer_enqueue_mmap_entry rb me head tail loads) \<longleftrightarrow>
      (\<exists>v\<in>set (head # loads). v \<noteq> next_index tail)) \<and>
   (returns (ring_buffer_commit_enqueued_entries rb head tail loads) \<longleftrightarrow>
      (\<exists>v\<in>set (head # loads). v \<noteq> next_index tail)) \<and>
   (ring_buffer_commit_enqueued_entries rb head tail loads \<in> {Inl Spinning} \<union> range Inr)"
proof -
  have r: "returns (spin_while_equal (next_index tail) head loads) \<longleftrightarrow>
      (\<exists>v\<in>set (head # loads). v \<noteq> next_index tail)"
    by (rule spin_returns)
  then show ?thesis
    by (cases "spin_while_equal (next_index tail) head loads")
      (auto simp: producer_defs dest: spin_fault)
qed

text \<open>
  A commit appends a commit entry and publishes exactly the entries before it: the
  consumer's tail becomes the slot after the commit entry, so that from any head the
  published queue is the old content of the batch followed by the commit entry.
\<close>

lemma commit_enqueued_publishes:
  assumes "valid_index head" "valid_index tail" "\<forall>v\<in>set loads. valid_index v"
    and "ring_buffer_commit_enqueued_entries rb head tail loads = Inr (rb', head', tail', loads')"
  shows "rb_entries (buffer rb') head' (last_persisted_tail rb') =
           rb_entries (buffer rb) head' tail @ [(buffer rb tail)\<lparr>entry_type := COMMIT_ENTRY\<rparr>]
         \<and> last_persisted_tail rb' = tail' \<and> remote_tail rb' = tail' \<and> tail' = next_index tail
         \<and> remote_head rb' = remote_head rb \<and> commit_metadata rb' = commit_metadata rb"
proof -
  from assms(4) have r: "spin_while_equal (next_index tail) head loads = Inr (head', loads')"
    by (auto simp: commit_enqueued_result)
  then have "head' \<noteq> next_index tail" "valid_index head'"
    using spin_result [OF r] assms(1,3) by auto
  with assms(2,4) rb_entries_put [of head' tail "buffer rb"] show ?thesis
    by (auto simp: commit_enqueued_result put_slot_def)
qed

lemma commit_enqueued_publishes_witness:
  "let rb' = put_slot 3 (zero_entry\<lparr>entry_type := COMMIT_ENTRY\<rparr>) zero_ring_buffer
               \<lparr>remote_tail := 4, last_persisted_tail := 4\<rparr>
   in rb_entries (buffer rb') 2 (last_persisted_tail rb') =
        rb_entries (buffer zero_ring_buffer) 2 3 @ [zero_entry\<lparr>entry_type := COMMIT_ENTRY\<rparr>]"
proof -
  have n: "next_index 3 = 4" by (simp add: next_index_def RING_BUFFER_SIZE_def)
  have "ring_buffer_commit_enqueued_entries zero_ring_buffer 2 3 []
      = Inr (put_slot 3 (zero_entry\<lparr>entry_type := COMMIT_ENTRY\<rparr>) zero_ring_buffer
               \<lparr>remote_tail := 4, last_persisted_tail := 4\<rparr>, 2, 4, [])"
    by (simp add: commit_enqueued_result n zero_ring_buffer_def)
  from commit_enqueued_publishes [OF _ _ _ this] show ?thesis
    by (simp add: valid_index_def zero_ring_buffer_def Let_def)
qed

text \<open>
  An mmap entry survives the trip through a slot that is typed as a redo entry: after
  the enqueue, reading the slot as a map entry gives back the type, the address and the full
  64-bit size, and the slot still has 32 payload bytes.
\<close>

lemma enqueue_mmap_roundtrip:
  assumes "ring_buffer_enqueue_mmap_entry rb me head tail loads = Inr (rb', head', tail', loads')"
    and "length (payload (buffer rb tail)) = 32"
  shows "map_entry_of (buffer rb' tail) = me \<and> length (payload (buffer rb' tail)) = 32
         \<and> (\<forall>i. i \<noteq> tail \<longrightarrow> buffer rb' i = buffer rb i)"
  using assms length_payload_store [of "buffer rb tail" me]
  by (auto simp: enqueue_mmap_result put_slot_def PAYLOAD_SIZE_def)

lemma enqueue_mmap_roundtrip_witness:
  "map_entry_of (store_map_entry
      \<lparr>map_entry_type = MMAP_ENTRY, map_entry_addr = 0x7f0000000000, map_entry_size = 2621472\<rparr> zero_entry)
   = \<lparr>map_entry_type = MMAP_ENTRY, map_entry_addr = 0x7f0000000000, map_entry_size = 2621472\<rparr>"
proof -
  let ?me = "\<lparr>map_entry_type = MMAP_ENTRY, map_entry_addr = 0x7f0000000000, map_entry_size = 2621472\<rparr>"
  have "ring_buffer_enqueue_mmap_entry zero_ring_buffer ?me 0 7 []
      = Inr (put_slot 7 (store_map_entry ?me zero_entry) zero_ring_buffer, 0, 8, [])"
    by (simp add: enqueue_mmap_result zero_ring_buffer_def next_index_def RING_BUFFER_SIZE_def)
  from enqueue_mmap_roundtrip [OF this] show ?thesis
    by (simp add: zero_ring_buffer_def zero_entry_def PAYLOAD_SIZE_def put_slot_def)
qed

text \<open>
  A dequeue that returns hands out the oldest entry of the queue between the consumer's
  head and the tail it has loaded, and leaves exactly the rest of that queue.
\<close>

lemma dequeue_takes_oldest:
  assumes "valid_index (global_local_head g)" "valid_index (global_local_tail g)"
    and "\<forall>v\<in>set loads. valid_index v"
    and "ring_buffer_dequeue rb g loads = Inr (e, g', loads')"
  shows "rb_entries (buffer rb) (global_local_head g) (global_local_tail g') =
           e # rb_entries (buffer rb) (global_local_head g') (global_local_tail g')
         \<and> global_local_head g' = next_index (global_local_head g)
         \<and> valid_index (global_local_head g') \<and> valid_index (global_local_tail g')"
proof -
  from assms(4) obtain t' where t': "e = buffer rb (global_local_head g)"
      "spin_while_equal (global_local_head g) (global_local_tail g) loads = Inr (t', loads')"
      "g' = g\<lparr>global_local_tail := t', global_local_head := next_index (global_local_head g)\<rparr>"
    by (auto simp: dequeue_result)
  then have "t' \<noteq> global_local_head g" "valid_index t'"
    using spin_result [OF t'(2)] assms(2,3) by auto
  with t' assms(1) show ?thesis by (simp add: rb_entries_get)
qed

lemma dequeue_takes_oldest_witness:
  "rb_entries (buffer zero_ring_buffer) 65535 1 =
     zero_entry # rb_entries (buffer zero_ring_buffer) 0 1"
proof -
  let ?g = "\<lparr>global_local_head = 65535, global_local_tail = 65535, number_of_mmaped_memory_regions = 0\<rparr>"
  have "ring_buffer_dequeue zero_ring_buffer ?g [65535, 65535, 1]
      = Inr (zero_entry, ?g\<lparr>global_local_tail := 1, global_local_head := 0\<rparr>, [])"
    by (simp add: ring_buffer_dequeue_def zero_ring_buffer_def next_index_def RING_BUFFER_SIZE_def)
  from dequeue_takes_oldest [OF _ _ _ this] show ?thesis
    by (simp add: valid_index_def)
qed

text \<open>
  The head a commit waits on can be stale. When the thread's head, and the
  \<open>last_persisted_head\<close> its loop loads, both still equal the next tail, the commit waits
  however often it looks, although an enqueue at the same position, which loads
  \<open>remote_head\<close>, returns at once when the consumer has moved on.
\<close>

lemma commit_waits_on_stale_head:
  assumes "head = next_index tail" "last_persisted_head rb = head" "remote_head rb \<noteq> next_index tail"
  shows "(\<forall>k. ring_buffer_commit_enqueued_entries rb head tail
                 (replicate k (last_persisted_head rb)) = Inl Spinning)
         \<and> returns (ring_buffer_enqueue_redo_log_entry rb m a head tail [remote_head rb])"
  using assms spin_stuck [of "next_index tail"]
  by (auto simp: producer_defs)

lemma commit_waits_on_stale_head_witness:
  "\<forall>k. ring_buffer_commit_enqueued_entries (zero_ring_buffer\<lparr>remote_head := 9\<rparr>) 0 65535
          (replicate k 0) = Inl Spinning"
  using commit_waits_on_stale_head [of 0 65535 "zero_ring_buffer\<lparr>remote_head := 9\<rparr>" "\<lambda>_. 0" 0]
  by (simp add: next_index_def RING_BUFFER_SIZE_def zero_ring_buffer_def)

text \<open>
  Creating the buffer on a missing file gives an empty log; opening an existing file gives
  a process whose queue is exactly the entries between the file's \<open>remote_head\<close> and
  \<open>remote_tail\<close>, with the process-independent copies of both reset to the same values.
\<close>

lemma create_and_initialise_recovers_log:
  assumes "a \<noteq> 0" "unat a mod 64 = 0"
  shows "(\<exists>rb g. ring_buffer_create_and_initialise None (Some a) g0 = Inr (rb, g)
           \<and> rb_entries (buffer rb) (global_local_head g) (global_local_tail g) = []
           \<and> remote_head rb = remote_tail rb \<and> producer_addr rb = a)
    \<and> (\<exists>rb g. ring_buffer_create_and_initialise (Some old) (Some a) g0 = Inr (rb, g)
           \<and> rb_entries (buffer rb) (global_local_head g) (global_local_tail g)
               = rb_entries (buffer old) (remote_head old) (remote_tail old)
           \<and> last_persisted_head rb = remote_head old \<and> last_persisted_tail rb = remote_tail old
           \<and> commit_metadata rb = commit_metadata old)"
  using assms by (auto simp: ring_buffer_create_and_initialise_def zero_ring_buffer_def)

lemma create_and_initialise_recovers_log_witness:
  "\<exists>rb g. ring_buffer_create_and_initialise (Some (zero_ring_buffer\<lparr>remote_head := 4, remote_tail := 6\<rparr>))
       (Some 4096) \<lparr>global_local_head = 0, global_local_tail = 0, number_of_mmaped_memory_regions = 0\<rparr>
       = Inr (rb, g) \<and> rb_entries (buffer rb) (global_local_head g) (global_local_tail g) = [zero_entry, zero_entry]"
proof -
  have "rb_entries (\<lambda>_. zero_entry) 4 6 = [zero_entry, zero_entry]"
    by (simp add: rb_entries_def rb_dist_def upt_rec)
  then show ?thesis
    using create_and_initialise_recovers_log [of 4096
        "\<lparr>global_local_head = 0, global_local_tail = 0, number_of_mmaped_memory_regions = 0\<rparr>"
        "zero_ring_buffer\<lparr>remote_head := 4, remote_tail := 6\<rparr>"]
    by (auto simp: zero_ring_buffer_def)
qed

text \<open>
  The file is too short for the structure mapped over it: \<open>remote_tail\<close>,
  \<open>producer_addr\<close> and \<open>commit_metadata\<close> lie entirely past the end of the file that
  \<open>ftruncate\<close> creates, while \<open>remote_head\<close> still lies inside it.
\<close>

lemma ring_buffer_fields_past_end_of_file:
  "offset_remote_head + 8 \<le> pmem_file_size
   \<and> pmem_file_size < offset_remote_tail
   \<and> pmem_file_size < offset_producer_addr
   \<and> pmem_file_size < offset_commit_metadata"
  by (simp add: offset_remote_head_def offset_remote_tail_def offset_producer_addr_def
      offset_commit_metadata_def offset_last_persisted_head_def pmem_file_size_def
      sizeof_ring_buffer_entry_def PAYLOAD_SIZE_def RING_BUFFER_SIZE_def)

end
