(* ===== verification/Ring_Channel.thy ===== *)
theory Ring_Channel
  imports Ring_Buffer "HOL-Library.Sublist"
begin

text \<open>
  The ring buffer as a channel between two processes that run concurrently: the producer
  (the combiner thread of the front end, \<open>instrument_stop\<close> and \<open>event_post_syscall\<close>) and
  the consumer (\<open>process_entry\<close> of the back end). A step is one load, one store or one
  operation of \<open>Ring_Buffer\<close> that does not wait; a waiting loop is a sequence of its loads: an enqueue
  reloads \<open>remote_head\<close>, a commit reloads \<open>last_persisted_head\<close>. The history variables \<open>ch_log\<close>,
  \<open>ch_published\<close> and \<open>ch_read\<close> record all entries ever enqueued, committed and dequeued, and \<open>ch_stale\<close>
  records that a commit has loaded a \<open>last_persisted_head\<close> that lies further behind \<open>remote_head\<close> than the head
  it replaces. The producer itself can leave such a value there: at the end of a batch it stores its own
  head into \<open>last_persisted_head\<close>. Until that happens the channel keeps its promises; the last
  section shows what a commit after such a load does.
\<close>

datatype producer_pc = Between | InBatch | Committed

record channel =
  ch_rb :: ring_buffer
  ch_head :: u64                      \<comment> \<open>\<open>thread_local_head\<close>\<close>
  ch_tail :: u64                      \<comment> \<open>\<open>thread_local_tail\<close>\<close>
  ch_pc :: producer_pc
  ch_cons :: rb_globals
  ch_log :: "ring_buffer_entry list"
  ch_published :: "ring_buffer_entry list"
  ch_read :: "ring_buffer_entry list"
  ch_stale :: bool

definition channel_start :: "channel \<Rightarrow> bool" where
  "channel_start s \<longleftrightarrow>
     remote_head (ch_rb s) = 0 \<and> remote_tail (ch_rb s) = 0 \<and>
     last_persisted_head (ch_rb s) = 0 \<and> last_persisted_tail (ch_rb s) = 0 \<and>
     global_local_head (ch_cons s) = 0 \<and> global_local_tail (ch_cons s) = 0 \<and>
     ch_pc s = Between \<and> ch_log s = [] \<and> ch_published s = [] \<and> ch_read s = [] \<and>
     \<not> ch_stale s"

text \<open>The value \<open>h'\<close> is an older head than \<open>h\<close>: it lies further behind \<open>remote_head\<close>.\<close>

definition older_head :: "ring_buffer \<Rightarrow> u64 \<Rightarrow> u64 \<Rightarrow> bool" where
  "older_head rb h h' \<longleftrightarrow> rb_dist h (remote_head rb) < rb_dist h' (remote_head rb)"

inductive channel_step :: "channel \<Rightarrow> channel \<Rightarrow> bool" where
  begin_batch:
    "ch_pc s = Between \<Longrightarrow>
     channel_step s (s\<lparr>ch_head := get_global_head_value (ch_rb s),
                       ch_tail := get_global_tail_value (ch_rb s), ch_pc := InBatch\<rparr>)"
| reload_head:
    "ch_pc s \<noteq> Between \<Longrightarrow> next_index (ch_tail s) = ch_head s \<Longrightarrow>
     channel_step s (s\<lparr>ch_head := remote_head (ch_rb s)\<rparr>)"
| reload_persisted_head:
    "ch_pc s \<noteq> Between \<Longrightarrow> next_index (ch_tail s) = ch_head s \<Longrightarrow>
     channel_step s (s\<lparr>ch_head := last_persisted_head (ch_rb s),
                       ch_stale := ch_stale s \<or> older_head (ch_rb s) (ch_head s) (last_persisted_head (ch_rb s))\<rparr>)"
| put_redo:
    "ch_pc s \<noteq> Between \<Longrightarrow>
     ring_buffer_enqueue_redo_log_entry (ch_rb s) m a (ch_head s) (ch_tail s) [] = Inr (rb', h', t', []) \<Longrightarrow>
     channel_step s (s\<lparr>ch_rb := rb', ch_head := h', ch_tail := t', ch_pc := InBatch,
                       ch_log := ch_log s @ [buffer rb' (ch_tail s)]\<rparr>)"
| put_mmap:
    "ch_pc s \<noteq> Between \<Longrightarrow>
     ring_buffer_enqueue_mmap_entry (ch_rb s) me (ch_head s) (ch_tail s) [] = Inr (rb', h', t', []) \<Longrightarrow>
     channel_step s (s\<lparr>ch_rb := rb', ch_head := h', ch_tail := t', ch_pc := InBatch,
                       ch_log := ch_log s @ [buffer rb' (ch_tail s)]\<rparr>)"
| commit:
    "ch_pc s \<noteq> Between \<Longrightarrow>
     ring_buffer_commit_enqueued_entries (ch_rb s) (ch_head s) (ch_tail s) [] = Inr (rb', h', t', []) \<Longrightarrow>
     channel_step s (s\<lparr>ch_rb := rb', ch_head := h', ch_tail := t', ch_pc := Committed,
                       ch_log := ch_log s @ [buffer rb' (ch_tail s)],
                       ch_published := ch_log s @ [buffer rb' (ch_tail s)]\<rparr>)"
| end_batch:
    "ch_pc s = Committed \<Longrightarrow>
     channel_step s (s\<lparr>ch_rb := set_global_tail_value (ch_tail s)
                                 (set_global_head_value (ch_head s) (ch_rb s)),
                       ch_pc := Between\<rparr>)"
| load_tail:
    "global_local_head (ch_cons s) = global_local_tail (ch_cons s) \<Longrightarrow>
     channel_step s (s\<lparr>ch_cons := (ch_cons s)\<lparr>global_local_tail := last_persisted_tail (ch_rb s)\<rparr>\<rparr>)"
| dequeue:
    "ring_buffer_dequeue (ch_rb s) (ch_cons s) [] = Inr (e, g', []) \<Longrightarrow>
     channel_step s (s\<lparr>ch_cons := g', ch_read := ch_read s @ [e]\<rparr>)"
| store_remote_head:
    "channel_step s (s\<lparr>ch_rb := (ch_rb s)\<lparr>remote_head := global_local_head (ch_cons s)\<rparr>\<rparr>)"
| store_persisted_head:
    "channel_step s (s\<lparr>ch_rb := (ch_rb s)\<lparr>last_persisted_head := remote_head (ch_rb s)\<rparr>\<rparr>)"

section \<open>Positions and indices\<close>

text \<open>The slot of the \<open>k\<close>-th entry ever enqueued.\<close>

definition idx :: "nat \<Rightarrow> u64" where
  "idx k = of_nat (k mod 65536)"

lemma unat_idx [simp]: "unat (idx k) = k mod 65536"
proof -
  have "k mod 65536 < 65536" by simp
  then have "k mod 65536 < 2 ^ LENGTH(64)" by simp
  then show ?thesis by (simp add: idx_def unat_of_nat del: mod_mod_trivial)
qed

lemma valid_idx [simp]: "valid_index (idx k)"
  by (simp add: valid_index_def)

lemma idx_0 [simp]: "idx 0 = 0"
  by (simp add: idx_def)

lemma next_index_idx [simp]: "next_index (idx k) = idx (Suc k)"
proof -
  have "unat (next_index (idx k)) = Suc k mod 65536"
    by (simp add: unat_next_index mod_Suc)
  then show ?thesis by (simp add: word_unat_eq_iff)
qed

lemma idx_eq_iff: "a \<le> b \<Longrightarrow> b < a + 65536 \<Longrightarrow> idx a = idx b \<longleftrightarrow> a = b"
proof -
  assume ab: "a \<le> b" "b < a + 65536"
  have "a = b" if "a mod 65536 = b mod 65536"
  proof -
    have "(b - a) mod 65536 = 0"
      using ab that by (metis mod_eq_dvd_iff_nat dvd_imp_mod_0)
    then show ?thesis using ab by simp
  qed
  then show ?thesis by (auto simp: word_unat_eq_iff)
qed

lemma idx_wrap: "idx (k + 65536) = idx k"
  by (simp add: idx_def)

lemma ring_split: obtains q r where "(a :: nat) = q * 65536 + r" "r < 65536" "a mod 65536 = r"
  by (metis div_mult_mod_eq mod_less_divisor zero_less_numeral)

lemma rb_dist_idx:
  assumes "a \<le> b" "b < a + 65536"
  shows "rb_dist (idx a) (idx b) = b - a"
proof -
  obtain p x where a: "a = p * 65536 + x" "x < 65536" "a mod 65536 = x" by (rule ring_split)
  obtain q y where b: "b = q * 65536 + y" "y < 65536" "b mod 65536 = y" by (rule ring_split)
  have "q = (if x \<le> y then p else Suc p)" using assms a(1,2) b(1,2) by (cases "x \<le> y") simp_all
  moreover have "rb_dist (idx a) (idx b) = (if x \<le> y then y - x else y + 65536 - x)"
    by (simp add: rb_dist_def word_le_nat_alt a(3) b(3))
  ultimately show ?thesis using a(1) b(1) by (simp add: add.commute [of y])
qed

lemma idx_minus_dist:
  assumes "rb_dist (idx a) (idx b) \<le> b"
  shows "idx (b - rb_dist (idx a) (idx b)) = idx a"
proof -
  obtain x where a: "x < 65536" "a mod 65536 = x" by (rule ring_split [of a]) blast
  obtain q y where b: "b = q * 65536 + y" "y < 65536" "b mod 65536 = y" by (rule ring_split)
  have d: "rb_dist (idx a) (idx b) = (if x \<le> y then y - x else y + 65536 - x)"
    using a b(3) by (simp add: rb_dist_def word_le_nat_alt)
  have "(b - rb_dist (idx a) (idx b)) mod 65536 = x"
  proof (cases "x \<le> y")
    case True
    then have "b - rb_dist (idx a) (idx b) = q * 65536 + x" using d b(1) by simp
    then show ?thesis using a(1) by simp
  next
    case False
    then have "q \<noteq> 0" using assms d a(1) b(1) by auto
    then obtain q' where "q = Suc q'" by (cases q) auto
    then have "b - rb_dist (idx a) (idx b) = q' * 65536 + x" using d b(1) False a(1) by simp
    then show ?thesis using a(1) by simp
  qed
  then show ?thesis using a(2) by (simp add: word_unat_eq_iff)
qed

section \<open>The invariant\<close>

text \<open>
  \<open>ph\<close>, \<open>lh\<close> and \<open>rh\<close> are the positions of the producer's head, of
  \<open>last_persisted_head\<close> and of \<open>remote_head\<close>; \<open>ct\<close> is the position of the tail the consumer
  has loaded. The producer's head may lag behind, never run ahead.
\<close>

definition channel_at :: "nat \<Rightarrow> nat \<Rightarrow> nat \<Rightarrow> nat \<Rightarrow> channel \<Rightarrow> bool" where
  "channel_at ph lh rh ct s \<longleftrightarrow>
     (let np = length (ch_log s); pub = length (ch_published s); rd = length (ch_read s)
      in ph \<le> rh \<and> lh \<le> rh \<and> rh \<le> rd \<and> rd \<le> ct \<and> ct \<le> pub \<and> pub \<le> np \<and>
         prefix (ch_published s) (ch_log s) \<and> prefix (ch_read s) (ch_log s) \<and>
         (\<forall>k. rh \<le> k \<and> k < np \<longrightarrow> buffer (ch_rb s) (idx k) = ch_log s ! k) \<and>
         remote_head (ch_rb s) = idx rh \<and> last_persisted_head (ch_rb s) = idx lh \<and>
         remote_tail (ch_rb s) = idx pub \<and> last_persisted_tail (ch_rb s) = idx pub \<and>
         global_local_head (ch_cons s) = idx rd \<and> global_local_tail (ch_cons s) = idx ct \<and>
         np < ph + 65536 \<and>
         (ch_pc s = Between \<longrightarrow> np = pub \<and> np < lh + 65536) \<and>
         (ch_pc s = Committed \<longrightarrow> np = pub) \<and>
         (ch_pc s \<noteq> Between \<longrightarrow> ch_head s = idx ph \<and> ch_tail s = idx np))"

definition channel_inv :: "channel \<Rightarrow> bool" where
  "channel_inv s \<longleftrightarrow> (\<exists>ph lh rh ct. channel_at ph lh rh ct s)"

lemma channel_inv_start: "channel_start s \<Longrightarrow> channel_inv s"
  unfolding channel_inv_def
  by (rule exI [of _ 0], rule exI [of _ 0], rule exI [of _ 0], rule exI [of _ 0])
    (simp add: channel_at_def channel_start_def Let_def)

lemmas channel_at_simps = channel_at_def Let_def get_global_head_value_def get_global_tail_value_def
  set_global_head_value_def set_global_tail_value_def put_slot_def

lemma put_keeps_channel_at:
  assumes "channel_at ph lh rh ct s" "ch_pc s \<noteq> Between" "next_index (ch_tail s) \<noteq> ch_head s"
  shows "channel_at ph lh rh ct
           (s\<lparr>ch_rb := put_slot (ch_tail s) e (ch_rb s), ch_tail := next_index (ch_tail s),
              ch_pc := InBatch, ch_log := ch_log s @ [e]\<rparr>)"
proof -
  let ?np = "length (ch_log s)"
  have np: "?np < ph + 65536" "ph \<le> ?np" "ch_head s = idx ph" "ch_tail s = idx ?np" "ph \<le> rh"
    using assms by (auto simp: channel_at_def Let_def)
  with assms(3) have room: "Suc ?np < ph + 65536"
    using idx_wrap [of ph] by (cases "Suc ?np = ph + 65536") auto
  have "idx k \<noteq> idx ?np" if "rh \<le> k" "k < ?np" for k
    using that np idx_eq_iff [of k ?np] by simp
  with room np assms(1,2) show ?thesis
    by (auto simp: channel_at_def Let_def put_slot_def nth_append less_Suc_eq)
qed

lemma channel_inv_put:
  assumes "channel_inv s" "ch_pc s \<noteq> Between"
    and "spin_while_equal (next_index (ch_tail s)) (ch_head s) [] = Inr (h', [])"
  shows "channel_inv (s\<lparr>ch_rb := put_slot (ch_tail s) e (ch_rb s), ch_head := h',
           ch_tail := next_index (ch_tail s), ch_pc := InBatch, ch_log := ch_log s @ [e]\<rparr>)"
proof -
  have h': "h' = ch_head s" "next_index (ch_tail s) \<noteq> ch_head s"
    using assms(3) by (auto split: if_splits)
  obtain ph lh rh ct where "channel_at ph lh rh ct s"
    using assms(1) by (auto simp: channel_inv_def)
  from put_keeps_channel_at [OF this assms(2) h'(2), of e] h'(1) show ?thesis
    by (auto simp: channel_inv_def channel_at_def Let_def)
qed

lemma channel_inv_publish:
  assumes "channel_inv s" "ch_pc s = InBatch"
  shows "channel_inv (s\<lparr>ch_rb := (ch_rb s)\<lparr>remote_tail := ch_tail s, last_persisted_tail := ch_tail s\<rparr>,
           ch_pc := Committed, ch_published := ch_log s\<rparr>)"
proof -
  obtain ph lh rh ct where "channel_at ph lh rh ct s"
    using assms(1) by (auto simp: channel_inv_def)
  with assms(2) have "channel_at ph lh rh ct
      (s\<lparr>ch_rb := (ch_rb s)\<lparr>remote_tail := ch_tail s, last_persisted_tail := ch_tail s\<rparr>,
         ch_pc := Committed, ch_published := ch_log s\<rparr>)"
    by (auto simp: channel_at_def Let_def)
  then show ?thesis by (auto simp: channel_inv_def)
qed

lemma channel_at_dequeue:
  assumes "channel_at ph lh rh ct s" "global_local_tail (ch_cons s) \<noteq> global_local_head (ch_cons s)"
  shows "channel_at ph lh rh ct
           (s\<lparr>ch_cons := (ch_cons s)\<lparr>global_local_head := next_index (global_local_head (ch_cons s))\<rparr>,
              ch_read := ch_read s @ [buffer (ch_rb s) (global_local_head (ch_cons s))]\<rparr>)"
proof -
  let ?rd = "length (ch_read s)"
  have rd: "?rd \<le> ct" "ct \<le> length (ch_log s)" "rh \<le> ?rd" "prefix (ch_read s) (ch_log s)"
    and ix: "global_local_tail (ch_cons s) = idx ct" "global_local_head (ch_cons s) = idx ?rd"
    and buf: "\<And>k. rh \<le> k \<Longrightarrow> k < length (ch_log s) \<Longrightarrow> buffer (ch_rb s) (idx k) = ch_log s ! k"
    using assms(1) by (auto simp: channel_at_def Let_def)
  have lt: "?rd < ct" using assms(2) rd ix by (cases "?rd = ct") auto
  then have "prefix (ch_read s @ [buffer (ch_rb s) (idx ?rd)]) (ch_log s)"
    using rd buf [of ?rd] append_one_prefix [of "ch_read s" "ch_log s"] by simp
  with assms(1) lt ix show ?thesis
    by (auto simp: channel_at_def Let_def)
qed

lemma channel_inv_consumer_stores:
  assumes "channel_inv s"
  shows "channel_inv (s\<lparr>ch_rb := (ch_rb s)\<lparr>remote_head := global_local_head (ch_cons s)\<rparr>\<rparr>)"
    and "channel_inv (s\<lparr>ch_rb := (ch_rb s)\<lparr>last_persisted_head := remote_head (ch_rb s)\<rparr>\<rparr>)"
proof -
  obtain ph lh rh ct where at: "channel_at ph lh rh ct s"
    using assms by (auto simp: channel_inv_def)
  have "channel_at ph lh (length (ch_read s)) ct
      (s\<lparr>ch_rb := (ch_rb s)\<lparr>remote_head := global_local_head (ch_cons s)\<rparr>\<rparr>)"
    using at by (auto simp: channel_at_def Let_def)
  then show "channel_inv (s\<lparr>ch_rb := (ch_rb s)\<lparr>remote_head := global_local_head (ch_cons s)\<rparr>\<rparr>)"
    by (auto simp: channel_inv_def)
  have "channel_at ph rh rh ct
      (s\<lparr>ch_rb := (ch_rb s)\<lparr>last_persisted_head := remote_head (ch_rb s)\<rparr>\<rparr>)"
    using at by (auto simp: channel_at_def Let_def)
  then show "channel_inv (s\<lparr>ch_rb := (ch_rb s)\<lparr>last_persisted_head := remote_head (ch_rb s)\<rparr>\<rparr>)"
    by (auto simp: channel_inv_def)
qed

text \<open>A load of \<open>last_persisted_head\<close> that is not older moves the producer's head forward.\<close>

lemma channel_inv_reload_persisted:
  assumes "channel_inv s" "ch_pc s \<noteq> Between"
    and "\<not> older_head (ch_rb s) (ch_head s) (last_persisted_head (ch_rb s))"
  shows "channel_inv (s\<lparr>ch_head := last_persisted_head (ch_rb s)\<rparr>)"
proof -
  obtain ph lh rh ct where at: "channel_at ph lh rh ct s"
    using assms(1) by (auto simp: channel_inv_def)
  have p: "ph \<le> rh" "rh < ph + 65536" "ch_head s = idx ph" "last_persisted_head (ch_rb s) = idx lh"
      "remote_head (ch_rb s) = idx rh"
    using at assms(2) by (auto simp: channel_at_def Let_def)
  let ?d = "rb_dist (idx lh) (idx rh)"
  have d: "?d \<le> rh - ph" using assms(3) p rb_dist_idx [of ph rh] by (simp add: older_head_def)
  have "idx (rh - ?d) = idx lh" using idx_minus_dist [of lh rh] d p by simp
  moreover have "channel_at (rh - ?d) lh rh ct (s\<lparr>ch_head := idx (rh - ?d)\<rparr>)"
    using at d p by (auto simp: channel_at_def Let_def)
  ultimately show ?thesis unfolding channel_inv_def using p(4) by auto
qed

lemma stale_grows: "channel_step s t \<Longrightarrow> ch_stale s \<Longrightarrow> ch_stale t"
  by (cases rule: channel_step.cases) auto

lemma channel_inv_step:
  assumes "channel_inv s" "channel_step s t" "\<not> ch_stale t"
  shows "channel_inv t"
proof -
  obtain ph lh rh ct where at: "channel_at ph lh rh ct s"
    using assms(1) by (auto simp: channel_inv_def)
  from assms(2) show ?thesis
  proof cases
    case begin_batch
    then have "channel_at lh lh rh ct t"
      using at by (auto simp: channel_at_simps)
    then show ?thesis by (auto simp: channel_inv_def)
  next
    case reload_head
    then have "channel_at rh lh rh ct t"
      using at by (auto simp: channel_at_simps)
    then show ?thesis by (auto simp: channel_inv_def)
  next
    case reload_persisted_head
    then have "\<not> older_head (ch_rb s) (ch_head s) (last_persisted_head (ch_rb s))"
      using assms(3) by simp
    with reload_persisted_head show ?thesis
      using channel_inv_reload_persisted [OF assms(1)] by (simp add: channel_inv_def channel_at_def Let_def)
  next
    case (put_redo m a rb' h' t')
    then show ?thesis
      using channel_inv_put [OF assms(1), of h' "redo_entry_for m a"]
      by (auto simp: enqueue_redo_result put_slot_def)
  next
    case (put_mmap me rb' h' t')
    then show ?thesis
      using channel_inv_put [OF assms(1), of h' "store_map_entry me (buffer (ch_rb s) (ch_tail s))"]
      by (auto simp: enqueue_mmap_result put_slot_def)
  next
    case (commit rb' h' t')
    let ?e = "(buffer (ch_rb s) (ch_tail s))\<lparr>entry_type := COMMIT_ENTRY\<rparr>"
    from commit have "channel_inv (s\<lparr>ch_rb := put_slot (ch_tail s) ?e (ch_rb s), ch_head := h',
           ch_tail := next_index (ch_tail s), ch_pc := InBatch, ch_log := ch_log s @ [?e]\<rparr>)"
      using channel_inv_put [OF assms(1), of h' ?e] by (auto simp: commit_enqueued_result)
    from channel_inv_publish [OF this] commit show ?thesis
      by (cases s) (auto simp: commit_enqueued_result put_slot_def)
  next
    case end_batch
    then have "channel_at ph ph rh ct t"
      using at by (auto simp: channel_at_simps)
    then show ?thesis by (auto simp: channel_inv_def)
  next
    case load_tail
    then have "channel_at ph lh rh (length (ch_published s)) t"
      using at by (auto simp: channel_at_simps)
    then show ?thesis by (auto simp: channel_inv_def)
  next
    case (dequeue e g')
    then show ?thesis
      using channel_at_dequeue [OF at] by (auto simp: channel_inv_def dequeue_result split: if_splits)
  next
    case store_remote_head
    then show ?thesis using channel_inv_consumer_stores(1) [OF assms(1)] by simp
  next
    case store_persisted_head
    then show ?thesis using channel_inv_consumer_stores(2) [OF assms(1)] by simp
  qed
qed

definition channel_sound :: "channel \<Rightarrow> bool" where
  "channel_sound s \<longleftrightarrow> ch_stale s \<or> channel_inv s"

interpretation rch: invariant_system channel_start channel_step channel_sound
  by unfold_locales (auto simp: channel_sound_def intro: channel_inv_start channel_inv_step stale_grows)

section \<open>What the channel guarantees\<close>

text \<open>
  C7: However producer and consumer interleave, and however often either of them waits, what the
  consumer has dequeued is a prefix of the committed entries, in the order they were enqueued, each
  once and unchanged, and never holds an entry of a batch that has not been committed. One condition: no
  commit that found the ring full has loaded a \<open>last_persisted_head\<close> older than the head it had.
\<close>

theorem channel_delivers_committed_log:
  assumes "channel_start s0" "rtranclp channel_step s0 s" "\<not> ch_stale s"
  shows "prefix (ch_read s) (ch_published s) \<and> prefix (ch_published s) (ch_log s)"
proof -
  from rch.inv_reachable [OF assms(1,2)] assms(3) obtain ph lh rh ct where at: "channel_at ph lh rh ct s"
    by (auto simp: channel_inv_def channel_sound_def)
  then have "prefix (ch_published s) (ch_log s)" "prefix (ch_read s) (ch_log s)"
    "length (ch_read s) \<le> length (ch_published s)"
    by (auto simp: channel_at_def Let_def)
  then show ?thesis
    by (blast intro: prefix_length_prefix)
qed

text \<open>
  C19: The producer never overwrites an entry the consumer has not freed, as long as no commit that
  found the ring full has loaded a \<open>last_persisted_head\<close> older than the head it had: in every state
  reachable that way all enqueued entries that lie past \<open>remote_head\<close> are still in their slots, and
  there are at most 65535 of them.
\<close>

theorem channel_never_overwrites:
  assumes "channel_start s0" "rtranclp channel_step s0 s" "\<not> ch_stale s"
  shows "\<exists>rh. remote_head (ch_rb s) = idx rh \<and> rh \<le> length (ch_read s)
           \<and> length (ch_log s) \<le> rh + 65535
           \<and> (\<forall>k. rh \<le> k \<and> k < length (ch_log s) \<longrightarrow> buffer (ch_rb s) (idx k) = ch_log s ! k)"
proof -
  from rch.inv_reachable [OF assms(1,2)] assms(3) obtain ph lh rh ct where at: "channel_at ph lh rh ct s"
    by (auto simp: channel_inv_def channel_sound_def)
  then show ?thesis
    by (intro exI [of _ rh]) (auto simp: channel_at_def Let_def)
qed

text \<open>A short run used by the witnesses: one redo entry is enqueued, committed and read.\<close>

definition channel_example :: channel where
  "channel_example =
     \<lparr>ch_rb = zero_ring_buffer, ch_head = 0, ch_tail = 0, ch_pc = Between,
      ch_cons = \<lparr>global_local_head = 0, global_local_tail = 0, number_of_mmaped_memory_regions = 0\<rparr>,
      ch_log = [], ch_published = [], ch_read = [], ch_stale = False\<rparr>"

definition channel_example_batch :: channel where
  "channel_example_batch = channel_example\<lparr>ch_pc := InBatch\<rparr>"

definition channel_example_put :: channel where
  "channel_example_put =
     channel_example_batch\<lparr>ch_rb := put_slot 0 (redo_entry_for (\<lambda>_. 7) 64) zero_ring_buffer,
       ch_tail := 1, ch_log := [redo_entry_for (\<lambda>_. 7) 64]\<rparr>"

lemma channel_example_start: "channel_start channel_example"
  by (simp add: channel_start_def channel_example_def zero_ring_buffer_def)

lemma channel_example_fresh: "\<not> ch_stale channel_example_put"
  by (simp add: channel_example_put_def channel_example_batch_def channel_example_def)

lemma channel_example_run: "rtranclp channel_step channel_example channel_example_put"
proof -
  have "channel_step channel_example channel_example_batch"
    using channel_step.begin_batch [of channel_example]
    by (simp add: channel_example_def channel_example_batch_def zero_ring_buffer_def
        get_global_head_value_def get_global_tail_value_def)
  moreover have "ring_buffer_enqueue_redo_log_entry (ch_rb channel_example_batch) (\<lambda>_. 7) 64 0 0 []
      = Inr (put_slot 0 (redo_entry_for (\<lambda>_. 7) 64) zero_ring_buffer, 0, 1, [])"
    by (simp add: enqueue_redo_result channel_example_batch_def channel_example_def
        next_index_def RING_BUFFER_SIZE_def)
  then have "channel_step channel_example_batch channel_example_put"
    using channel_step.put_redo [of channel_example_batch "\<lambda>_. 7" 64]
    by (simp add: channel_example_put_def channel_example_batch_def channel_example_def put_slot_def)
  ultimately show ?thesis by simp
qed

theorem channel_delivers_committed_log_witness:
  "prefix (ch_read channel_example_put) (ch_published channel_example_put)
   \<and> prefix (ch_published channel_example_put) (ch_log channel_example_put)
   \<and> ch_log channel_example_put = [redo_entry_for (\<lambda>_. 7) 64]"
  using channel_delivers_committed_log [OF channel_example_start channel_example_run channel_example_fresh]
  by (simp add: channel_example_put_def)

theorem channel_never_overwrites_witness:
  "\<exists>rh. remote_head (ch_rb channel_example_put) = idx rh
      \<and> length (ch_log channel_example_put) \<le> rh + 65535"
  using channel_never_overwrites [OF channel_example_start channel_example_run channel_example_fresh] by blast

text \<open>
  C36: What the condition of the two claims above excludes, the reload of an outdated
  \<open>last_persisted_head\<close> in the waiting loop of a commit, breaks the channel. With 65535 entries waiting
  between the consumer's head and the tail, a commit whose loop loads a head older than the consumer's
  returns; it publishes a tail equal to the consumer's head, and the consumer's queue, which held those
  entries, is empty.
\<close>

theorem commit_after_stale_load_empties_queue:
  assumes "valid_index consumer" "valid_index tail"
    and "length (rb_entries (buffer rb) consumer tail) = 65535"
    and "stale \<noteq> consumer"
  shows "\<exists>rb'. ring_buffer_commit_enqueued_entries rb consumer tail [stale]
                 = Inr (rb', stale, next_index tail, [])
               \<and> rb_entries (buffer rb') consumer (last_persisted_tail rb') = []"
proof -
  have "next_index tail = consumer"
    using assms(1-3) by (simp add: rb_dist_full)
  then show ?thesis
    using assms(1,4) by (auto simp: producer_defs)
qed

theorem commit_after_stale_load_empties_queue_witness:
  "length (rb_entries (buffer zero_ring_buffer) 10 9) = 65535
   \<and> (\<exists>rb'. ring_buffer_commit_enqueued_entries zero_ring_buffer 10 9 [8] = Inr (rb', 8, 10, [])
         \<and> rb_entries (buffer rb') 10 (last_persisted_tail rb') = [])"
proof -
  have "length (rb_entries (buffer zero_ring_buffer) 10 9) = 65535"
    by (simp add: rb_dist_def)
  moreover have "next_index 9 = 10"
    by (simp add: next_index_def RING_BUFFER_SIZE_def)
  ultimately show ?thesis
    using commit_after_stale_load_empties_queue [of 10 9 zero_ring_buffer 8]
    by (simp add: valid_index_def)
qed

end
