(* ===== verification/Linear_Probing.thy ===== *)
theory Linear_Probing
  imports Mangosteen_Prelude
begin

text \<open>
  Tables of block addresses with linear probing, the structure both of the software hash set
  (\<^verbatim>\<open>hash_set/hash_set.c\<close>) and of the hash set that the instrumentation's emitted code fills
  (\<^verbatim>\<open>instrumentation/redo_entry_collector.c\<close>). A slot holding 0 is free. The invariant says
  that walking from an element's home slot to the slot it is in meets neither a free slot nor
  the element itself. The locale \<open>linear_probing\<close> asks only that the hash function gives a slot
  of the table; each component interprets it with its own hash. The locale \<open>block_set\<close> is what
  the clients of either set rely on.
\<close>

definition lp_slot :: "nat \<Rightarrow> nat \<Rightarrow> nat \<Rightarrow> nat" where
  "lp_slot n s k = (s + k) mod n"

definition lp_stop :: "addr list \<Rightarrow> addr \<Rightarrow> nat \<Rightarrow> bool" where
  "lp_stop tab a i \<longleftrightarrow> tab ! i = 0 \<or> tab ! i = a"

text \<open>The probe sequence for \<open>a\<close> from slot \<open>s\<close> first meets a free slot or \<open>a\<close> after \<open>k\<close> steps.\<close>

definition lp_first :: "addr list \<Rightarrow> addr \<Rightarrow> nat \<Rightarrow> nat \<Rightarrow> bool" where
  "lp_first tab a s k \<longleftrightarrow>
     k < length tab \<and> lp_stop tab a (lp_slot (length tab) s k) \<and>
     (\<forall>j<k. \<not> lp_stop tab a (lp_slot (length tab) s j))"

definition lp_inv :: "(nat \<Rightarrow> addr \<Rightarrow> nat) \<Rightarrow> addr list \<Rightarrow> bool" where
  "lp_inv hash tab \<longleftrightarrow>
     (\<forall>p<length tab. tab ! p \<noteq> 0 \<longrightarrow>
        (\<exists>k. lp_first tab (tab ! p) (hash (length tab) (tab ! p)) k \<and>
             p = lp_slot (length tab) (hash (length tab) (tab ! p)) k))"

definition lp_elems :: "addr list \<Rightarrow> addr set" where
  "lp_elems tab = set tab - {0}"

definition lp_count :: "addr list \<Rightarrow> nat" where
  "lp_count tab = length (filter (\<lambda>x. x \<noteq> 0) tab)"

section \<open>Slots of the probe sequence\<close>

lemma lp_slot_less [simp]: "0 < n \<Longrightarrow> lp_slot n s k < n"
  by (simp add: lp_slot_def)

lemma lp_slot_0 [simp]: "s < n \<Longrightarrow> lp_slot n s 0 = s"
  by (simp add: lp_slot_def)

lemma lp_slot_Suc: "lp_slot n s (Suc k) = (lp_slot n s k + 1) mod n"
  by (simp add: lp_slot_def mod_simps)

lemma lp_slot_surj: "s < n \<Longrightarrow> p < n \<Longrightarrow> \<exists>k<n. lp_slot n s k = p"
proof -
  assume s: "s < n" and p: "p < n"
  show ?thesis
  proof (cases "s \<le> p")
    case True
    with p show ?thesis by (intro exI [of _ "p - s"]) (auto simp: lp_slot_def)
  next
    case False
    with s p have "s + (p + n - s) = p + n" by simp
    with False s p show ?thesis
      by (intro exI [of _ "p + n - s"]) (auto simp: lp_slot_def)
  qed
qed

lemma lp_first_ex:
  assumes "s < length tab" "0 \<in> set tab \<or> a \<in> set tab"
  shows "\<exists>k. lp_first tab a s k"
proof -
  from assms(2) obtain p where p: "p < length tab" "tab ! p = 0 \<or> tab ! p = a"
    by (auto simp: in_set_conv_nth)
  obtain k0 where k0: "k0 < length tab" "lp_slot (length tab) s k0 = p"
    using lp_slot_surj [OF assms(1) p(1)] by blast
  define k where "k = (LEAST k. lp_stop tab a (lp_slot (length tab) s k))"
  have "lp_stop tab a (lp_slot (length tab) s k0)"
    using p k0 by (simp add: lp_stop_def)
  then have "lp_stop tab a (lp_slot (length tab) s k)" "k \<le> k0"
    unfolding k_def by (rule LeastI, rule Least_le)
  moreover have "\<not> lp_stop tab a (lp_slot (length tab) s j)" if "j < k" for j
    using that not_less_Least unfolding k_def by blast
  ultimately show ?thesis
    using k0 by (intro exI [of _ k]) (simp add: lp_first_def)
qed

lemma lp_first_unique: "lp_first tab a s k \<Longrightarrow> lp_first tab a s k' \<Longrightarrow> k = k'"
  by (metis lp_first_def linorder_neqE_nat)

lemma lp_first_slot: "lp_first tab a s k \<Longrightarrow> lp_slot (length tab) s k < length tab"
  unfolding lp_first_def by (intro lp_slot_less) auto

lemma lp_first_shift:
  assumes "lp_first tab a s (Suc k)"
  shows "lp_first tab a ((s + 1) mod length tab) k
     \<and> lp_slot (length tab) ((s + 1) mod length tab) k = lp_slot (length tab) s (Suc k)"
proof -
  have sl: "lp_slot (length tab) ((s + 1) mod length tab) j = lp_slot (length tab) s (Suc j)" for j
    by (simp add: lp_slot_def mod_simps)
  with assms show ?thesis by (auto simp: lp_first_def)
qed

lemma lp_inv_replicate [simp]: "lp_inv hash (replicate n 0)"
  by (simp add: lp_inv_def)

lemma lp_elems_replicate [simp]: "lp_elems (replicate n 0) = {}"
  by (auto simp: lp_elems_def)

lemma lp_count_replicate [simp]: "lp_count (replicate n 0) = 0"
  by (simp add: lp_count_def)

lemma lp_count_le: "lp_count tab \<le> length tab"
  by (simp add: lp_count_def)

lemma lp_free_slot: "lp_count tab < length tab \<Longrightarrow> 0 \<in> set tab"
proof (rule ccontr)
  assume l: "lp_count tab < length tab" and "0 \<notin> set tab"
  then have "filter (\<lambda>x. x \<noteq> 0) tab = tab" by (auto simp: filter_id_conv)
  with l show False by (simp add: lp_count_def)
qed

lemma lp_count_update:
  "i < length tab \<Longrightarrow> tab ! i = 0 \<Longrightarrow> a \<noteq> 0 \<Longrightarrow> lp_count (tab[i := a]) = Suc (lp_count tab)"
proof (induction tab arbitrary: i)
  case Nil
  then show ?case by simp
next
  case (Cons x tab)
  then show ?case by (cases i) (auto simp: lp_count_def)
qed

lemma lp_elems_update:
  assumes "i < length tab" "tab ! i = 0" "a \<noteq> 0"
  shows "lp_elems (tab[i := a]) = insert a (lp_elems tab)"
proof -
  have "x \<in> set (tab[i := a]) \<longleftrightarrow> x = a \<or> x \<in> set tab" if "x \<noteq> 0" for x
  proof
    assume "x \<in> set (tab[i := a])"
    then show "x = a \<or> x \<in> set tab"
      using set_update_subset_insert by fastforce
  next
    assume "x = a \<or> x \<in> set tab"
    then show "x \<in> set (tab[i := a])"
      using assms that by (auto simp: in_set_conv_nth nth_list_update)
  qed
  with assms(3) show ?thesis by (auto simp: lp_elems_def)
qed

section \<open>Insertion keeps the invariant\<close>

locale linear_probing =
  fixes hash :: "nat \<Rightarrow> addr \<Rightarrow> nat"
    and size_ok :: "nat \<Rightarrow> bool"
  assumes hash_less: "size_ok n \<Longrightarrow> hash n a < n"
begin

lemma found_iff_member:
  assumes "lp_inv hash tab" "size_ok (length tab)" "a \<noteq> 0"
    and "lp_first tab a (hash (length tab) a) k"
  shows "tab ! lp_slot (length tab) (hash (length tab) a) k = a \<longleftrightarrow> a \<in> lp_elems tab"
proof
  assume "tab ! lp_slot (length tab) (hash (length tab) a) k = a"
  then have "a \<in> set tab"
    using lp_first_slot [OF assms(4)] by (metis nth_mem)
  with assms(3) show "a \<in> lp_elems tab" by (simp add: lp_elems_def)
next
  assume "a \<in> lp_elems tab"
  then obtain p where p: "p < length tab" "tab ! p = a"
    by (auto simp: lp_elems_def in_set_conv_nth)
  with assms(1,3) obtain k' where "lp_first tab a (hash (length tab) a) k'"
      "p = lp_slot (length tab) (hash (length tab) a) k'"
    by (auto simp: lp_inv_def)
  with p lp_first_unique [OF assms(4)] show "tab ! lp_slot (length tab) (hash (length tab) a) k = a"
    by simp
qed

lemma insert_inv:
  assumes "lp_inv hash tab" "size_ok (length tab)" "a \<noteq> 0"
    and first: "lp_first tab a (hash (length tab) a) k"
    and free: "tab ! lp_slot (length tab) (hash (length tab) a) k = 0"
  shows "lp_inv hash (tab[lp_slot (length tab) (hash (length tab) a) k := a])"
    (is "lp_inv hash ?tab'")
proof -
  let ?n = "length tab"
  let ?i = "lp_slot ?n (hash ?n a) k"
  have i: "?i < ?n" by (rule lp_first_slot [OF first])
  have notin: "a \<notin> set tab"
    using found_iff_member [OF assms(1-4)] free assms(3) by (auto simp: lp_elems_def)
  have "\<exists>k'. lp_first ?tab' (?tab' ! p) (hash ?n (?tab' ! p)) k' \<and> p = lp_slot ?n (hash ?n (?tab' ! p)) k'"
    if p: "p < ?n" "?tab' ! p \<noteq> 0" for p
  proof (cases "p = ?i")
    case True
    have "?tab' ! lp_slot ?n (hash ?n a) j = tab ! lp_slot ?n (hash ?n a) j" if "j < k" for j
    proof -
      have "tab ! lp_slot ?n (hash ?n a) j \<noteq> 0"
        using first that by (auto simp: lp_first_def lp_stop_def)
      with free have "lp_slot ?n (hash ?n a) j \<noteq> ?i" by metis
      then show ?thesis by simp
    qed
    with True i first show ?thesis
      by (intro exI [of _ k]) (auto simp: lp_first_def lp_stop_def)
  next
    case False
    with p have x: "tab ! p \<noteq> 0" "?tab' ! p = tab ! p" by auto
    with assms(1) p obtain k' where k': "lp_first tab (tab ! p) (hash ?n (tab ! p)) k'"
        "p = lp_slot ?n (hash ?n (tab ! p)) k'"
      by (auto simp: lp_inv_def)
    have ne: "tab ! p \<noteq> a" using notin p by (metis nth_mem)
    have "lp_first ?tab' (tab ! p) (hash ?n (tab ! p)) k'"
      using k' False ne assms(3) i
      by (auto simp: lp_first_def lp_stop_def nth_list_update)
    with x k' show ?thesis by auto
  qed
  then show ?thesis by (simp add: lp_inv_def)
qed

lemma distinct_elems:
  assumes "lp_inv hash tab" "p < length tab" "q < length tab" "tab ! p = tab ! q" "tab ! p \<noteq> 0"
  shows "p = q"
  using assms lp_first_unique unfolding lp_inv_def by metis

lemma count_card:
  assumes "lp_inv hash tab"
  shows "lp_count tab = card (lp_elems tab)"
proof -
  have "distinct (filter (\<lambda>x. x \<noteq> 0) tab)"
  proof -
    have "inj_on (\<lambda>i. tab ! i) {i. i < length tab \<and> tab ! i \<noteq> 0}"
      using distinct_elems [OF assms] by (auto intro!: inj_onI)
    then have "card {i. i < length tab \<and> tab ! i \<noteq> 0} = card (lp_elems tab)"
      by (subst card_image [symmetric]) (auto simp: lp_elems_def in_set_conv_nth intro!: arg_cong [of _ _ card])
    then show ?thesis
      by (intro card_distinct)
        (auto simp: length_filter_conv_card lp_elems_def intro!: arg_cong [of _ _ card])
  qed
  moreover have "set (filter (\<lambda>x. x \<noteq> 0) tab) = lp_elems tab"
    by (auto simp: lp_elems_def)
  ultimately show ?thesis
    unfolding lp_count_def by (metis distinct_card)
qed

end

section \<open>What a client of a block set relies on\<close>

text \<open>
  Adding a block to a set that has room, or already holds it, returns, keeps the set valid
  and adds exactly that block. \<open>frame s\<close> is what insertions leave alone, and \<open>room\<close> reads off it
  the number of blocks the set can hold.
\<close>

locale block_set =
  fixes add :: "addr \<Rightarrow> 's \<Rightarrow> 's option"
    and elems :: "'s \<Rightarrow> addr set"
    and valid :: "'s \<Rightarrow> bool"
    and frame :: "'s \<Rightarrow> 'f"
    and room :: "'f \<Rightarrow> nat"
  assumes add_ok: "valid s \<Longrightarrow> a \<noteq> 0 \<Longrightarrow> card (insert a (elems s)) \<le> room (frame s) \<Longrightarrow>
      \<exists>s'. add a s = Some s' \<and> valid s' \<and> elems s' = insert a (elems s) \<and> frame s' = frame s"
    and finite_elems: "valid s \<Longrightarrow> finite (elems s)"
begin

lemma add_list_ok:
  "valid s \<Longrightarrow> 0 \<notin> set as \<Longrightarrow> card (set as \<union> elems s) \<le> room (frame s) \<Longrightarrow>
   \<exists>s'. fold (\<lambda>a r. Option.bind r (add a)) as (Some s) = Some s' \<and> valid s'
      \<and> elems s' = set as \<union> elems s \<and> frame s' = frame s"
proof (induction as arbitrary: s)
  case Nil
  then show ?case by simp
next
  case (Cons a as)
  have "card (insert a (elems s)) \<le> card (set (a # as) \<union> elems s)"
    using Cons.prems finite_elems by (intro card_mono) auto
  with Cons.prems obtain s1 where s1: "add a s = Some s1" "valid s1"
      "elems s1 = insert a (elems s)" "frame s1 = frame s"
    using add_ok [of s a] by fastforce
  with Cons.prems Cons.IH [of s1] show ?case by auto
qed

end

end
