(* ===== verification/Hash_Set.thy ===== *)
theory Hash_Set
  imports Linear_Probing Complex_Main
begin

text \<open>
  The software hash set of \<^verbatim>\<open>hash_set/hash_set.c\<close>: the set of 64-byte blocks a batch has
  written, with linear probing and doubling when the load threshold is reached. The C \<open>int\<close> fields are
  kept at their width: the size is a natural below \<open>2^31\<close>, and a resize that would double it past that
  is the fault \<open>IntOverflow\<close>; the number of entries and the load limit are at most the size; the
  counters that are only printed are 32-bit words, which wrap as the machine's additions do. The C \<open>double\<close>
  threshold is an exact rational: the lemmas that need its product with the size ask that the product is
  an integer, and such a product of an \<open>int\<close> and a \<open>double\<close> is exact in C too. The probing
  loop and the loop over a memory range may fail to end, so both are \<open>option\<close>-valued, and the assertions
  of the resize are values of \<open>fault\<close>.
\<close>

section \<open>Data\<close>

definition HASH_SET_ADDRESS_COVERAGE :: u64 where
  "HASH_SET_ADDRESS_COVERAGE = 64"

definition MASK_SHIFT :: nat where
  "MASK_SHIFT = 6"

record address_hash_set_stats =
  numberOfEntries :: nat
  numberOfCollisions :: u32
  numberOfDuplicates :: u32
  numberOfResizes :: u32

record address_hash_set =
  hs_size :: nat
  resizeThreshold :: rat
  maxElementsBeforeResize :: nat
  stats :: address_hash_set_stats
  setOfEntries :: "addr list"
  last_used_index :: nat

section \<open>Operations\<close>

definition address_hash_set_initialise :: "nat \<Rightarrow> rat \<Rightarrow> address_hash_set" where
  "address_hash_set_initialise sz threshold =
     \<lparr>hs_size = sz, resizeThreshold = threshold,
      maxElementsBeforeResize = nat \<lfloor>of_nat sz * threshold\<rfloor>,
      stats = \<lparr>numberOfEntries = 0, numberOfCollisions = 0, numberOfDuplicates = 0,
               numberOfResizes = 0\<rparr>,
      setOfEntries = replicate sz 0, last_used_index = 0\<rparr>"

definition address_hash_set_reset :: "address_hash_set \<Rightarrow> address_hash_set" where
  "address_hash_set_reset hs =
     hs\<lparr>setOfEntries := replicate (hs_size hs) 0 @ drop (hs_size hs) (setOfEntries hs),
        stats := \<lparr>numberOfEntries = 0, numberOfCollisions = 0, numberOfDuplicates = 0,
                  numberOfResizes = 0\<rparr>\<rparr>"

definition element_is_inserted ::
    "address_hash_set \<Rightarrow> nat \<Rightarrow> addr \<Rightarrow> bool \<times> address_hash_set" where
  "element_is_inserted hs i a =
     (if setOfEntries hs ! i = 0
      then (True, hs\<lparr>setOfEntries := (setOfEntries hs)[i := a],
                     stats := (stats hs)\<lparr>numberOfEntries := numberOfEntries (stats hs) + 1\<rparr>,
                     last_used_index := i\<rparr>)
      else (False, hs\<lparr>stats := (stats hs)\<lparr>numberOfCollisions := numberOfCollisions (stats hs) + 1\<rparr>\<rparr>))"

definition element_is_a_duplicate ::
    "address_hash_set \<Rightarrow> nat \<Rightarrow> addr \<Rightarrow> bool \<times> address_hash_set" where
  "element_is_a_duplicate hs i a =
     (if setOfEntries hs ! i = a
      then (True, hs\<lparr>stats := (stats hs)\<lparr>numberOfDuplicates := numberOfDuplicates (stats hs) + 1\<rparr>\<rparr>)
      else (False, hs))"

definition addressIsProcessed ::
    "address_hash_set \<Rightarrow> nat \<Rightarrow> addr \<Rightarrow> bool \<times> address_hash_set" where
  "addressIsProcessed hs i a =
     (case element_is_inserted hs i a of
        (True, hs') \<Rightarrow> (True, hs')
      | (False, hs') \<Rightarrow>
          (case element_is_a_duplicate hs' i a of
             (True, hs'') \<Rightarrow> (True, hs'')
           | (False, hs'') \<Rightarrow> (False, hs'')))"

partial_function (option) insert_probe_loop ::
    "address_hash_set \<Rightarrow> nat \<Rightarrow> addr \<Rightarrow> address_hash_set option" where
  "insert_probe_loop hs i a =
     (if fst (addressIsProcessed hs i a) then Some (snd (addressIsProcessed hs i a))
      else insert_probe_loop (snd (addressIsProcessed hs i a))
             ((i + 1) mod hs_size (snd (addressIsProcessed hs i a))) a)"

definition address_hash_set_insert_aligned_block_address ::
    "address_hash_set \<Rightarrow> addr \<Rightarrow> address_hash_set option" where
  "address_hash_set_insert_aligned_block_address hs a =
     insert_probe_loop hs (unat a mod hs_size hs) a"

fun reinsert_elements :: "addr list \<Rightarrow> address_hash_set \<Rightarrow> address_hash_set option" where
  "reinsert_elements [] hs = Some hs"
| "reinsert_elements (x # xs) hs =
     (if x \<noteq> 0
      then (case address_hash_set_insert_aligned_block_address hs x of
              None \<Rightarrow> None
            | Some hs' \<Rightarrow> reinsert_elements xs hs')
      else reinsert_elements xs hs)"

definition address_hash_set_resize :: "address_hash_set \<Rightarrow> address_hash_set result option" where
  "address_hash_set_resize hs =
     (let new_size = hs_size hs * 2;
          resized = address_hash_set_initialise new_size (resizeThreshold hs)
      in if \<not> new_size < 2 ^ 31 then Some (Inl IntOverflow)
         else if hs_size resized \<noteq> hs_size hs * 2 then Some (Inl AssertFail)
         else if of_nat (maxElementsBeforeResize resized) \<noteq> of_nat (hs_size hs * 2) * resizeThreshold hs
         then Some (Inl AssertFail)
         else
           let carried = resized\<lparr>stats := (stats resized)
                 \<lparr>numberOfResizes := numberOfResizes (stats resized) + (numberOfResizes (stats hs) + 1),
                  numberOfCollisions := numberOfCollisions (stats resized) + numberOfCollisions (stats hs),
                  numberOfDuplicates := numberOfDuplicates (stats resized) + numberOfDuplicates (stats hs)\<rparr>\<rparr>
           in map_option Inr (reinsert_elements (take (hs_size hs) (setOfEntries hs)) carried))"

text \<open>One iteration of the loop of \<open>address_hash_set_add_redo_log_stub\<close>: resize, then insert.\<close>

definition add_stub_block :: "address_hash_set \<Rightarrow> addr \<Rightarrow> address_hash_set result option" where
  "add_stub_block hs a =
     (case (if numberOfEntries (stats hs) = maxElementsBeforeResize hs
            then address_hash_set_resize hs else Some (Inr hs)) of
        None \<Rightarrow> None
      | Some (Inl e) \<Rightarrow> Some (Inl e)
      | Some (Inr hs') \<Rightarrow> map_option Inr (address_hash_set_insert_aligned_block_address hs' a))"

partial_function (option) add_stub_loop ::
    "address_hash_set \<Rightarrow> addr \<Rightarrow> addr \<Rightarrow> address_hash_set result option" where
  "add_stub_loop hs a bound =
     (if a < bound
      then Option.bind (add_stub_block hs a)
             (\<lambda>r. case r of
                    Inl e \<Rightarrow> Some (Inl e)
                  | Inr hs' \<Rightarrow> add_stub_loop hs' (a + HASH_SET_ADDRESS_COVERAGE) bound)
      else Some (Inr hs))"

definition address_hash_set_add_redo_log_stub ::
    "address_hash_set \<Rightarrow> addr \<Rightarrow> u64 \<Rightarrow> address_hash_set result option" where
  "address_hash_set_add_redo_log_stub hs address sz =
     (let bitmask = push_bit MASK_SHIFT (NOT 0 :: u64);
          bound = address + sz
      in add_stub_loop hs (address AND bitmask) bound)"

text \<open>What \<open>address_hash_set_print_elements\<close> prints, and the end of a set: both of its blocks are freed.\<close>

definition address_hash_set_print_elements :: "address_hash_set \<Rightarrow> (nat \<times> addr) list" where
  "address_hash_set_print_elements hs =
     filter (\<lambda>(i, a). a \<noteq> 0) (enumerate 0 (take (hs_size hs) (setOfEntries hs)))"

definition address_hash_set_destroy :: "address_hash_set option \<Rightarrow> address_hash_set option result" where
  "address_hash_set_destroy hs = (case hs of None \<Rightarrow> Inl SegFault | Some _ \<Rightarrow> Inr None)"

section \<open>Invariant and abstraction\<close>

definition hs_hash :: "nat \<Rightarrow> addr \<Rightarrow> nat" where
  "hs_hash n a = unat a mod n"

definition hs_elems :: "address_hash_set \<Rightarrow> addr set" where
  "hs_elems hs = lp_elems (setOfEntries hs)"

definition hs_inv :: "address_hash_set \<Rightarrow> bool" where
  "hs_inv hs \<longleftrightarrow>
     0 < hs_size hs \<and> hs_size hs < 2 ^ 31 \<and> length (setOfEntries hs) = hs_size hs \<and>
     lp_inv hs_hash (setOfEntries hs) \<and>
     numberOfEntries (stats hs) = lp_count (setOfEntries hs)"

text \<open>The threshold divides the table exactly and is usable: at least one element fits.\<close>

definition hs_threshold_ok :: "address_hash_set \<Rightarrow> bool" where
  "hs_threshold_ok hs \<longleftrightarrow>
     0 < maxElementsBeforeResize hs \<and> resizeThreshold hs \<le> 1 \<and>
     of_nat (maxElementsBeforeResize hs) = of_nat (hs_size hs) * resizeThreshold hs \<and>
     numberOfEntries (stats hs) \<le> maxElementsBeforeResize hs"

section \<open>The probing loop\<close>

interpretation hsp: linear_probing hs_hash "\<lambda>n. 0 < n"
  by unfold_locales (simp add: hs_hash_def)

lemma addressIsProcessed_free:
  "setOfEntries hs ! i = 0 \<Longrightarrow>
   addressIsProcessed hs i a =
     (True, hs\<lparr>setOfEntries := (setOfEntries hs)[i := a],
               stats := (stats hs)\<lparr>numberOfEntries := numberOfEntries (stats hs) + 1\<rparr>,
               last_used_index := i\<rparr>)"
  by (simp add: addressIsProcessed_def element_is_inserted_def)

lemma addressIsProcessed_taken:
  "setOfEntries hs ! i \<noteq> 0 \<Longrightarrow>
   fst (addressIsProcessed hs i a) = (setOfEntries hs ! i = a) \<and>
   setOfEntries (snd (addressIsProcessed hs i a)) = setOfEntries hs \<and>
   hs_size (snd (addressIsProcessed hs i a)) = hs_size hs \<and>
   resizeThreshold (snd (addressIsProcessed hs i a)) = resizeThreshold hs \<and>
   maxElementsBeforeResize (snd (addressIsProcessed hs i a)) = maxElementsBeforeResize hs \<and>
   numberOfEntries (stats (snd (addressIsProcessed hs i a))) = numberOfEntries (stats hs)"
  by (simp add: addressIsProcessed_def element_is_inserted_def element_is_a_duplicate_def)

text \<open>The frame of an insertion: everything but the table, the counters and the last index.\<close>

definition same_shape :: "address_hash_set \<Rightarrow> address_hash_set \<Rightarrow> bool" where
  "same_shape hs hs' \<longleftrightarrow>
     hs_size hs' = hs_size hs \<and> resizeThreshold hs' = resizeThreshold hs \<and>
     maxElementsBeforeResize hs' = maxElementsBeforeResize hs"

text \<open>The insertion of \<open>a\<close> that ends at slot \<open>i\<close>: either the slot was free or it held \<open>a\<close>.\<close>

definition inserted_at :: "address_hash_set \<Rightarrow> addr \<Rightarrow> nat \<Rightarrow> address_hash_set \<Rightarrow> bool" where
  "inserted_at hs a i hs' \<longleftrightarrow>
     same_shape hs hs' \<and>
     (if setOfEntries hs ! i = 0
      then setOfEntries hs' = (setOfEntries hs)[i := a]
           \<and> numberOfEntries (stats hs') = numberOfEntries (stats hs) + 1
      else setOfEntries hs' = setOfEntries hs
           \<and> numberOfEntries (stats hs') = numberOfEntries (stats hs))"

lemma inserted_at_probe:
  assumes "setOfEntries hs ! s \<noteq> 0"
  shows "inserted_at (snd (addressIsProcessed hs s a)) a i hs' = inserted_at hs a i hs'"
  using addressIsProcessed_taken [OF assms, of a] by (simp add: inserted_at_def same_shape_def)

lemma insert_probe_loop_result:
  assumes "length (setOfEntries hs) = hs_size hs" "s < hs_size hs"
    and "lp_first (setOfEntries hs) a s k"
  shows "\<exists>hs'. insert_probe_loop hs s a = Some hs' \<and> inserted_at hs a (lp_slot (hs_size hs) s k) hs'"
  using assms
proof (induction k arbitrary: s hs)
  case 0
  then have stop: "lp_stop (setOfEntries hs) a s" by (simp add: lp_first_def)
  show ?case
  proof (cases "setOfEntries hs ! s = 0")
    case True
    with "0.prems" show ?thesis
      by (subst insert_probe_loop.simps)
        (auto simp: addressIsProcessed_free inserted_at_def same_shape_def)
  next
    case False
    with stop "0.prems" addressIsProcessed_taken [OF False, of a] show ?thesis
      by (subst insert_probe_loop.simps) (auto simp: inserted_at_def same_shape_def lp_stop_def)
  qed
next
  case (Suc k)
  let ?hs = "snd (addressIsProcessed hs s a)"
  from Suc.prems have "\<not> lp_stop (setOfEntries hs) a s"
    by (auto simp: lp_first_def dest: spec [of _ 0])
  then have t: "setOfEntries hs ! s \<noteq> 0" "setOfEntries hs ! s \<noteq> a" by (auto simp: lp_stop_def)
  note p = addressIsProcessed_taken [OF t(1), of a]
  have step: "insert_probe_loop hs s a = insert_probe_loop ?hs ((s + 1) mod hs_size hs) a"
    using p t by (subst insert_probe_loop.simps) simp
  note sh = lp_first_shift [OF Suc.prems(3), unfolded Suc.prems(1)]
  have "\<exists>hs'. insert_probe_loop ?hs ((s + 1) mod hs_size hs) a = Some hs'
      \<and> inserted_at ?hs a (lp_slot (hs_size ?hs) ((s + 1) mod hs_size hs) k) hs'"
    using Suc.prems p sh by (intro Suc.IH) auto
  with step p sh t show ?case by (auto simp: inserted_at_probe)
qed

lemma insert_keeps_inv:
  assumes "hs_inv hs" "a \<noteq> 0" "card (insert a (hs_elems hs)) \<le> hs_size hs"
  shows "\<exists>hs'. address_hash_set_insert_aligned_block_address hs a = Some hs' \<and> hs_inv hs'
           \<and> hs_elems hs' = insert a (hs_elems hs) \<and> same_shape hs hs'
           \<and> numberOfEntries (stats hs') = card (insert a (hs_elems hs))"
proof -
  let ?tab = "setOfEntries hs"
  let ?n = "length ?tab"
  have inv: "0 < hs_size hs" "?n = hs_size hs" "lp_inv hs_hash ?tab"
      "numberOfEntries (stats hs) = lp_count ?tab" "hs_size hs < 2 ^ 31"
    using assms(1) by (auto simp: hs_inv_def)
  have card: "lp_count ?tab = card (hs_elems hs)"
    by (simp add: hsp.count_card inv hs_elems_def)
  have fin: "finite (hs_elems hs)" by (simp add: hs_elems_def lp_elems_def)
  have "0 \<in> set ?tab \<or> a \<in> set ?tab"
  proof (cases "a \<in> hs_elems hs")
    case True
    then show ?thesis by (simp add: hs_elems_def lp_elems_def)
  next
    case False
    with assms(3) fin card inv(2) have "lp_count ?tab < ?n" by simp
    then show ?thesis using lp_free_slot by blast
  qed
  moreover have h: "hs_hash ?n a < ?n" using hsp.hash_less [of ?n a] inv(1,2) by simp
  ultimately obtain k where k: "lp_first ?tab a (hs_hash ?n a) k"
    using lp_first_ex by blast
  let ?i = "lp_slot ?n (hs_hash ?n a) k"
  obtain hs' where hs': "address_hash_set_insert_aligned_block_address hs a = Some hs'"
      "inserted_at hs a ?i hs'"
    using insert_probe_loop_result [of hs "hs_hash ?n a" a k] k h inv
    by (auto simp: address_hash_set_insert_aligned_block_address_def hs_hash_def)
  have i: "?i < ?n" by (rule lp_first_slot [OF k])
  have mem: "?tab ! ?i = a \<longleftrightarrow> a \<in> hs_elems hs"
    using hsp.found_iff_member [OF inv(3) _ assms(2) k] inv by (simp add: hs_elems_def)
  show ?thesis
  proof (cases "?tab ! ?i = 0")
    case True
    with mem assms(2) have "a \<notin> hs_elems hs" by auto
    with True hs' inv i assms(2) card fin show ?thesis
      using hsp.insert_inv [OF inv(3) _ assms(2) k True]
      by (auto simp: inserted_at_def hs_inv_def same_shape_def hs_elems_def lp_elems_update
          lp_count_update)
  next
    case False
    with k have "?tab ! ?i = a" by (auto simp: lp_first_def lp_stop_def)
    with mem have "a \<in> hs_elems hs" by simp
    with False hs' inv card show ?thesis
      by (auto simp: inserted_at_def hs_inv_def same_shape_def hs_elems_def insert_absorb)
  qed
qed

interpretation hss: block_set "\<lambda>a hs. address_hash_set_insert_aligned_block_address hs a"
    hs_elems hs_inv "\<lambda>hs. (hs_size hs, resizeThreshold hs, maxElementsBeforeResize hs)" fst
proof (unfold_locales, goal_cases)
  case (1 s a)
  then show ?case using insert_keeps_inv [of s a] by (auto simp: same_shape_def)
next
  case (2 s)
  then show ?case by (simp add: hs_elems_def lp_elems_def)
qed

section \<open>Resizing\<close>

lemma bind_fold_None: "fold (\<lambda>a r. Option.bind r (f a)) as None = None"
  by (induction as) auto

lemma reinsert_elements_fold:
  "reinsert_elements xs hs =
     fold (\<lambda>a r. Option.bind r (\<lambda>h. address_hash_set_insert_aligned_block_address h a))
       (filter (\<lambda>x. x \<noteq> 0) xs) (Some hs)"
  by (induction xs arbitrary: hs) (auto simp: bind_fold_None split: option.splits)

lemma hs_card: "hs_inv hs \<Longrightarrow> numberOfEntries (stats hs) = card (hs_elems hs)"
  by (simp add: hs_inv_def hs_elems_def hsp.count_card)

text \<open>Printing shows each element once.\<close>

lemma print_elements_complete:
  assumes "hs_inv hs"
  shows "set (map snd (address_hash_set_print_elements hs)) = hs_elems hs"
    "length (address_hash_set_print_elements hs) = numberOfEntries (stats hs)"
proof -
  have all: "take (hs_size hs) (setOfEntries hs) = setOfEntries hs" using assms by (simp add: hs_inv_def)
  have m: "map snd (filter (\<lambda>(i, a). a \<noteq> 0) (enumerate k xs)) = filter (\<lambda>a. a \<noteq> 0) xs" for k and xs :: "addr list"
    by (induction xs arbitrary: k) auto
  show "set (map snd (address_hash_set_print_elements hs)) = hs_elems hs"
    unfolding address_hash_set_print_elements_def all m by (auto simp: hs_elems_def lp_elems_def)
  have "length (address_hash_set_print_elements hs) = length (filter (\<lambda>a. a \<noteq> 0) (setOfEntries hs))"
    unfolding address_hash_set_print_elements_def all m [symmetric, of _ 0] by simp
  then show "length (address_hash_set_print_elements hs) = numberOfEntries (stats hs)"
    using assms by (simp add: hs_inv_def lp_count_def)
qed

lemma threshold_le_size: "hs_threshold_ok hs \<Longrightarrow> maxElementsBeforeResize hs \<le> hs_size hs"
proof -
  assume "hs_threshold_ok hs"
  then have "(of_nat (maxElementsBeforeResize hs) :: rat) \<le> of_nat (hs_size hs) * 1"
    using mult_left_mono [of "resizeThreshold hs" 1 "of_nat (hs_size hs)"]
    by (simp add: hs_threshold_ok_def)
  then show ?thesis by simp
qed

lemma hs_inv_initialise:
  "0 < n \<Longrightarrow> n < 2 ^ 31 \<Longrightarrow> hs_inv (address_hash_set_initialise n th)"
  by (simp add: hs_inv_def address_hash_set_initialise_def)

lemma hs_threshold_initialise:
  "th \<le> 1 \<Longrightarrow> 0 < m \<Longrightarrow> of_nat n * th = of_nat m \<Longrightarrow>
   hs_threshold_ok (address_hash_set_initialise n th)
   \<and> maxElementsBeforeResize (address_hash_set_initialise n th) = m"
  by (auto simp: hs_threshold_ok_def address_hash_set_initialise_def)

lemma resize_ok:
  assumes inv: "hs_inv hs" and ok: "hs_threshold_ok hs" and fit: "2 * hs_size hs < 2 ^ 31"
  shows "\<exists>hs'. address_hash_set_resize hs = Some (Inr hs') \<and> hs_inv hs' \<and> hs_threshold_ok hs'
           \<and> hs_elems hs' = hs_elems hs \<and> hs_size hs' = 2 * hs_size hs
           \<and> maxElementsBeforeResize hs' = 2 * maxElementsBeforeResize hs \<and> resizeThreshold hs' = resizeThreshold hs"
proof -
  let ?n = "hs_size hs * 2"
  let ?th = "resizeThreshold hs"
  let ?r = "address_hash_set_initialise ?n ?th"
  let ?c = "?r\<lparr>stats := (stats ?r)
       \<lparr>numberOfResizes := numberOfResizes (stats ?r) + (numberOfResizes (stats hs) + 1),
        numberOfCollisions := numberOfCollisions (stats ?r) + numberOfCollisions (stats hs),
        numberOfDuplicates := numberOfDuplicates (stats ?r) + numberOfDuplicates (stats hs)\<rparr>\<rparr>"
  let ?as = "filter (\<lambda>x. x \<noteq> 0) (setOfEntries hs)"
  have len: "length (setOfEntries hs) = hs_size hs" "0 < hs_size hs"
    using inv by (auto simp: hs_inv_def)
  have m2: "of_nat ?n * ?th = of_nat (2 * maxElementsBeforeResize hs)"
    using ok by (auto simp: hs_threshold_ok_def)
  then have mr: "maxElementsBeforeResize ?r = 2 * maxElementsBeforeResize hs"
    using hs_threshold_initialise [of ?th "2 * maxElementsBeforeResize hs" ?n] ok
    by (auto simp: hs_threshold_ok_def)
  have c: "hs_inv ?c" "hs_elems ?c = {}" "hs_size ?c = ?n"
    using len fit by (auto simp: hs_inv_def hs_elems_def address_hash_set_initialise_def)
  have els: "set ?as = hs_elems hs" by (auto simp: hs_elems_def lp_elems_def)
  have "card (hs_elems hs) \<le> hs_size hs"
    using hs_card [OF inv] len lp_count_le [of "setOfEntries hs"] inv by (simp add: hs_inv_def)
  with els c obtain hs' where f: "reinsert_elements (setOfEntries hs) ?c = Some hs'" "hs_inv hs'"
      "hs_elems hs' = hs_elems hs" "hs_size hs' = ?n" "resizeThreshold hs' = ?th"
      "maxElementsBeforeResize hs' = 2 * maxElementsBeforeResize hs"
    using hss.add_list_ok [of ?c ?as] mr
    by (auto simp: reinsert_elements_fold address_hash_set_initialise_def)
  have "numberOfEntries (stats hs') \<le> 2 * maxElementsBeforeResize hs"
    using ok hs_card [OF inv] hs_card [OF f(2)] f(3) by (simp add: hs_threshold_ok_def)
  then have "hs_threshold_ok hs'"
    using f m2 ok by (simp add: hs_threshold_ok_def)
  moreover have "address_hash_set_resize hs = Some (Inr hs')"
    using f(1) m2 mr len fit by (simp add: address_hash_set_resize_def Let_def address_hash_set_initialise_def)
  ultimately show ?thesis using f by auto
qed

text \<open>A bound on the elements that keeps the size of the table an \<open>int\<close>: there is no need to double it beyond.\<close>

definition hs_fits :: "address_hash_set \<Rightarrow> nat \<Rightarrow> bool" where
  "hs_fits hs n \<longleftrightarrow> 2 * of_nat n < 2 ^ 31 * resizeThreshold hs"

lemma resize_fits:
  assumes "hs_threshold_ok hs" "hs_fits hs n" "maxElementsBeforeResize hs \<le> n"
  shows "2 * hs_size hs < 2 ^ 31"
proof -
  let ?th = "resizeThreshold hs"
  have m: "0 < maxElementsBeforeResize hs" "of_nat (maxElementsBeforeResize hs) = of_nat (hs_size hs) * ?th"
    using assms(1) by (auto simp: hs_threshold_ok_def)
  have "(0 :: rat) < of_nat (maxElementsBeforeResize hs)" using m(1) by simp
  then have pos: "0 < ?th" unfolding m(2) by (simp add: zero_less_mult_iff)
  have "of_nat (2 * hs_size hs) * ?th = 2 * of_nat (maxElementsBeforeResize hs)" using m(2) by simp
  also have "\<dots> \<le> 2 * of_nat n" using assms(3) by simp
  also have "\<dots> < of_nat (2 ^ 31) * ?th" using assms(2) by (simp add: hs_fits_def)
  finally have "(of_nat (2 * hs_size hs) :: rat) < of_nat (2 ^ 31)" using pos by (simp add: mult_less_cancel_right_pos)
  then show ?thesis unfolding of_nat_less_iff .
qed

lemma add_stub_block_ok:
  assumes inv: "hs_inv hs" and ok: "hs_threshold_ok hs" and "a \<noteq> 0"
    and fits: "hs_fits hs n" "card (insert a (hs_elems hs)) \<le> n"
  shows "\<exists>hs'. add_stub_block hs a = Some (Inr hs') \<and> hs_inv hs' \<and> hs_threshold_ok hs'
           \<and> hs_elems hs' = insert a (hs_elems hs) \<and> resizeThreshold hs' = resizeThreshold hs"
proof -
  have le: "numberOfEntries (stats hs) \<le> n"
    using hs_card [OF inv] fits(2) card_insert_le [of "hs_elems hs" a] by simp
  obtain hs1 where hs1: "(if numberOfEntries (stats hs) = maxElementsBeforeResize hs
        then address_hash_set_resize hs else Some (Inr hs)) = Some (Inr hs1)"
      "hs_inv hs1" "hs_threshold_ok hs1" "hs_elems hs1 = hs_elems hs"
      "numberOfEntries (stats hs1) < maxElementsBeforeResize hs1" "resizeThreshold hs1 = resizeThreshold hs"
  proof (cases "numberOfEntries (stats hs) = maxElementsBeforeResize hs")
    case True
    then have "maxElementsBeforeResize hs \<le> n" using le by simp
    note fit = resize_fits [OF ok fits(1) this]
    obtain hs' where "address_hash_set_resize hs = Some (Inr hs')" "hs_inv hs'" "hs_threshold_ok hs'"
        "hs_elems hs' = hs_elems hs" "maxElementsBeforeResize hs' = 2 * maxElementsBeforeResize hs"
        "resizeThreshold hs' = resizeThreshold hs"
      using resize_ok [OF inv ok fit] by blast
    then show thesis
      using that [of hs'] True ok hs_card [OF inv] hs_card [of hs'] by (simp add: hs_threshold_ok_def)
  next
    case False
    then show thesis using that [of hs] inv ok by (simp add: hs_threshold_ok_def)
  qed
  have "card (insert a (hs_elems hs1)) \<le> Suc (card (hs_elems hs1))"
    by (simp add: card_insert_le_m1 hs_elems_def lp_elems_def card_insert_if)
  then have c: "card (insert a (hs_elems hs1)) \<le> maxElementsBeforeResize hs1"
    using hs1 hs_card [of hs1] by simp
  then obtain hs2 where "address_hash_set_insert_aligned_block_address hs1 a = Some hs2" "hs_inv hs2"
      "hs_elems hs2 = insert a (hs_elems hs1)" "same_shape hs1 hs2"
      "numberOfEntries (stats hs2) = card (insert a (hs_elems hs1))"
    using insert_keeps_inv [OF hs1(2) assms(3)] threshold_le_size [OF hs1(3)] by auto
  with hs1 c show ?thesis
    by (auto simp: add_stub_block_def hs_threshold_ok_def same_shape_def)
qed

section \<open>Covering a memory range\<close>

definition stub_blocks :: "addr \<Rightarrow> addr \<Rightarrow> addr set" where
  "stub_blocks a bound = {b. 64 dvd unat b \<and> unat a \<le> unat b \<and> unat b < unat bound}"

lemma stub_blocks_step:
  assumes "64 dvd unat a" "unat a < unat bound" "unat bound \<le> 2 ^ 64 - 64"
  shows "stub_blocks a bound = insert a (stub_blocks (a + 64) bound)"
    and "unat (a + 64) = unat a + 64"
proof -
  show u: "unat (a + 64) = unat a + 64"
    using assms by (simp add: unat_word_ariths)
  have "unat a + 64 \<le> unat b" if "64 dvd unat b" "unat a \<le> unat b" "unat b \<noteq> unat a" for b :: addr
    using that assms(1) by presburger
  then show "stub_blocks a bound = insert a (stub_blocks (a + 64) bound)"
    using assms u by (auto simp: stub_blocks_def word_unat_eq_iff)
qed

lemma add_stub_loop_ok:
  assumes "hs_inv hs" "hs_threshold_ok hs" "a \<noteq> 0" "64 dvd unat a" "unat bound \<le> 2 ^ 64 - 64"
    and "hs_fits hs n" "card (hs_elems hs \<union> stub_blocks a bound) \<le> n"
  shows "\<exists>hs'. add_stub_loop hs a bound = Some (Inr hs') \<and> hs_inv hs' \<and> hs_threshold_ok hs'
           \<and> hs_elems hs' = hs_elems hs \<union> stub_blocks a bound"
  using assms
proof (induction "unat bound - unat a" arbitrary: hs a rule: less_induct)
  case less
  show ?case
  proof (cases "a < bound")
    case False
    then have "stub_blocks a bound = {}"
      by (auto simp: stub_blocks_def word_less_nat_alt)
    with False less.prems show ?thesis
      by (subst add_stub_loop.simps) auto
  next
    case True
    then have lt: "unat a < unat bound" by (simp add: word_less_nat_alt)
    note st = stub_blocks_step [OF less.prems(4) lt less.prems(5)]
    have fin: "finite (hs_elems hs \<union> stub_blocks a bound)" by (simp add: hs_elems_def lp_elems_def)
    have "insert a (hs_elems hs) \<subseteq> hs_elems hs \<union> stub_blocks a bound" unfolding st(1) by blast
    from card_mono [OF fin this] have "card (insert a (hs_elems hs)) \<le> n" using less.prems(7) by simp
    from add_stub_block_ok [OF less.prems(1-3,6) this]
    obtain hs1 where hs1: "add_stub_block hs a = Some (Inr hs1)" "hs_inv hs1" "hs_threshold_ok hs1"
        "hs_elems hs1 = insert a (hs_elems hs)" "resizeThreshold hs1 = resizeThreshold hs"
      by blast
    have fit: "hs_fits hs1 n" "card (hs_elems hs1 \<union> stub_blocks (a + 64) bound) \<le> n"
      using less.prems(6,7) hs1(4,5) unfolding st(1) by (simp_all add: hs_fits_def)
    have "a + 64 \<noteq> 0" using st(2) by (auto simp: word_unat_eq_iff)
    moreover have "64 dvd unat (a + 64)" using st(2) less.prems(4) by simp
    ultimately obtain hs' where "add_stub_loop hs1 (a + 64) bound = Some (Inr hs')" "hs_inv hs'"
        "hs_threshold_ok hs'" "hs_elems hs' = hs_elems hs1 \<union> stub_blocks (a + 64) bound"
      using less.hyps [of "a + 64" hs1] st(2) lt hs1 less.prems(5) fit by fastforce
    with hs1 st(1) True show ?thesis
      by (subst add_stub_loop.simps) (auto simp: HASH_SET_ADDRESS_COVERAGE_def)
  qed
qed

text \<open>The blocks that overlap a range, the block of its first byte included.\<close>

definition range_blocks :: "addr \<Rightarrow> u64 \<Rightarrow> addr set" where
  "range_blocks address sz =
     {b. 64 dvd unat b \<and> unat address div 64 * 64 \<le> unat b \<and> unat b < unat address + unat sz}"

lemma add_redo_log_stub_ok:
  assumes "hs_inv hs" "hs_threshold_ok hs" "64 \<le> unat address" "unat address + unat sz \<le> 2 ^ 64 - 64"
    and "hs_fits hs (card (hs_elems hs \<union> range_blocks address sz))"
  shows "\<exists>hs'. address_hash_set_add_redo_log_stub hs address sz = Some (Inr hs') \<and> hs_inv hs'
           \<and> hs_threshold_ok hs' \<and> hs_elems hs' = hs_elems hs \<union> range_blocks address sz"
proof -
  let ?a = "address AND push_bit MASK_SHIFT (NOT 0 :: u64)"
  have a: "unat ?a = unat address div 64 * 64"
    unfolding MASK_SHIFT_def and_high_mask unat_clear_low by simp
  have "0 < unat address div 64"
    using assms(3) by (simp add: div_greater_zero_iff)
  then have "?a \<noteq> 0" using a by (auto simp: word_unat_eq_iff)
  moreover have "unat (address + sz) = unat address + unat sz"
    using assms(4) by (simp add: unat_word_ariths)
  moreover from this have "stub_blocks ?a (address + sz) = range_blocks address sz"
    using a by (simp add: stub_blocks_def range_blocks_def)
  ultimately show ?thesis
    using add_stub_loop_ok [OF assms(1,2), of ?a "address + sz"] a assms(4,5)
    by (auto simp: address_hash_set_add_redo_log_stub_def Let_def)
qed

section \<open>Properties\<close>

text \<open>
  Inserting a block address into a table that has a free slot, or already holds it,
  returns; the new set is the old one with the block added, each address is stored once, and
  the entry counter counts the stored addresses.
\<close>

lemma insert_aligned_block_adds:
  assumes "hs_inv hs" "a \<noteq> 0" "card (insert a (hs_elems hs)) \<le> hs_size hs"
  shows "\<exists>hs'. address_hash_set_insert_aligned_block_address hs a = Some hs' \<and> hs_inv hs'
           \<and> hs_elems hs' = insert a (hs_elems hs)
           \<and> numberOfEntries (stats hs') = card (hs_elems hs')
           \<and> hs_size hs' = hs_size hs"
  using insert_keeps_inv [OF assms] by (auto simp: same_shape_def)

lemma insert_aligned_block_adds_witness:
  "\<exists>hs'. address_hash_set_insert_aligned_block_address (address_hash_set_initialise 4 1) 128 = Some hs'
     \<and> hs_elems hs' = {128}"
proof -
  have "hs_inv (address_hash_set_initialise 4 1)" by (simp add: hs_inv_initialise)
  moreover have "hs_elems (address_hash_set_initialise 4 1) = {}" "hs_size (address_hash_set_initialise 4 1) = 4"
    by (simp_all add: address_hash_set_initialise_def hs_elems_def)
  ultimately show ?thesis
    using insert_aligned_block_adds [of "address_hash_set_initialise 4 1" 128] by auto
qed

text \<open>
  On a full table that does not hold the address the probing loop never ends: the
  insertion has no result.
\<close>

lemma insert_into_full_table_diverges:
  assumes "length (setOfEntries hs) = hs_size hs" "0 < hs_size hs"
    and "0 \<notin> set (setOfEntries hs)" "a \<notin> set (setOfEntries hs)"
  shows "address_hash_set_insert_aligned_block_address hs a = None"
proof (rule ccontr)
  let ?P = "\<lambda>hs i a (r :: address_hash_set).
     length (setOfEntries hs) = hs_size hs \<and> i < hs_size hs \<and> 0 \<notin> set (setOfEntries hs)
     \<longrightarrow> a \<in> set (setOfEntries hs)"
  assume "address_hash_set_insert_aligned_block_address hs a \<noteq> None"
  then obtain r where r: "insert_probe_loop hs (unat a mod hs_size hs) a = Some r"
    by (auto simp: address_hash_set_insert_aligned_block_address_def)
  have "?P hs (unat a mod hs_size hs) a r"
  proof (rule insert_probe_loop.raw_induct [where P = ?P, OF _ r])
    fix f hs i a r
    assume IH: "\<And>hs i a r. f hs i a = Some r \<Longrightarrow> ?P hs i a r"
      and eq: "(if fst (addressIsProcessed hs i a) then Some (snd (addressIsProcessed hs i a))
          else f (snd (addressIsProcessed hs i a))
                 ((i + 1) mod hs_size (snd (addressIsProcessed hs i a))) a) = Some r"
    show "?P hs i a r"
    proof
      assume pre: "length (setOfEntries hs) = hs_size hs \<and> i < hs_size hs \<and> 0 \<notin> set (setOfEntries hs)"
      then have "setOfEntries hs ! i \<noteq> 0" by (metis nth_mem)
      note p = addressIsProcessed_taken [OF this, of a]
      show "a \<in> set (setOfEntries hs)"
      proof (cases "setOfEntries hs ! i = a")
        case True
        with pre show ?thesis by (metis nth_mem)
      next
        case False
        with eq p IH [of "snd (addressIsProcessed hs i a)"] pre show ?thesis by auto
      qed
    qed
  qed
  with assms show False by simp
qed

lemma insert_into_full_table_diverges_witness:
  "address_hash_set_insert_aligned_block_address
     ((address_hash_set_initialise 2 1)\<lparr>setOfEntries := [64, 128]\<rparr>) 192 = None"
  using insert_into_full_table_diverges [of "(address_hash_set_initialise 2 1)\<lparr>setOfEntries := [64, 128]\<rparr>" 192]
  by (simp add: address_hash_set_initialise_def)

text \<open>
  A resize with a threshold that divides the table keeps the set of addresses, doubles
  the table and the threshold, and carries on without failing its assertions, while the new size
  is an \<open>int\<close>; from \<open>2^30\<close> slots on it overflows.
\<close>

lemma resize_keeps_elements:
  assumes "hs_inv hs" "hs_threshold_ok hs" "2 * hs_size hs < 2 ^ 31"
  shows "\<exists>hs'. address_hash_set_resize hs = Some (Inr hs') \<and> hs_inv hs' \<and> hs_threshold_ok hs'
           \<and> hs_elems hs' = hs_elems hs \<and> hs_size hs' = 2 * hs_size hs
           \<and> maxElementsBeforeResize hs' = 2 * maxElementsBeforeResize hs"
  using resize_ok [OF assms] by blast

lemma resize_overflows: "2 ^ 30 \<le> hs_size hs \<Longrightarrow> address_hash_set_resize hs = Some (Inl IntOverflow)"
  by (simp add: address_hash_set_resize_def Let_def)

lemma resize_keeps_elements_witness:
  "\<exists>hs'. address_hash_set_resize (address_hash_set_initialise 4 (1 / 2)) = Some (Inr hs')
     \<and> hs_size hs' = 8 \<and> hs_elems hs' = {}"
proof -
  have i: "hs_inv (address_hash_set_initialise 4 (1 / 2))" by (simp add: hs_inv_initialise)
  have t: "hs_threshold_ok (address_hash_set_initialise 4 (1 / 2))"
    using hs_threshold_initialise [of "1 / 2" 2 4] by simp
  show ?thesis
    using resize_keeps_elements [OF i t] by (simp add: address_hash_set_initialise_def hs_elems_def) metis
qed

text \<open>
  C22: Adding the stub for a memory range, resizing on the way as often as needed, returns
  and adds exactly the 64-byte blocks that overlap the range (the block of its first byte
  included even when the range is empty). The conditions: the load limit is the exact product of size and
  threshold, the range does not reach the last block of the address space or the first, and the blocks of the
  set and of the range together are few enough, for the threshold, that no doubling of the
  size overflows an \<open>int\<close>.
\<close>

theorem add_redo_log_stub_covers_range:
  assumes "hs_inv hs" "hs_threshold_ok hs" "64 \<le> unat address" "unat address + unat sz \<le> 2 ^ 64 - 64"
    and "hs_fits hs (card (hs_elems hs \<union> range_blocks address sz))"
  shows "\<exists>hs'. address_hash_set_add_redo_log_stub hs address sz = Some (Inr hs') \<and> hs_inv hs'
           \<and> hs_elems hs' = hs_elems hs \<union> range_blocks address sz"
  using add_redo_log_stub_ok [OF assms] by blast

theorem add_redo_log_stub_covers_range_witness:
  "\<exists>hs'. address_hash_set_add_redo_log_stub (address_hash_set_initialise 2 1) 100 200 = Some (Inr hs')
     \<and> {64, 128, 192, 256} \<subseteq> hs_elems hs'"
proof -
  let ?hs = "address_hash_set_initialise 2 1"
  have i: "hs_inv ?hs" by (simp add: hs_inv_initialise)
  have t: "hs_threshold_ok ?hs" using hs_threshold_initialise [of 1 2 2] by simp
  have "range_blocks 100 200 \<subseteq> {0..<300}" by (auto simp: range_blocks_def word_less_nat_alt word_le_nat_alt)
  then have "unat ` range_blocks 100 200 \<subseteq> {0..<300}" by (auto simp: word_less_nat_alt)
  moreover have "inj_on unat (range_blocks 100 200)" by (auto intro: inj_onI simp: word_unat_eq_iff)
  ultimately have "card (range_blocks 100 200) \<le> 300"
    using card_mono [of "{0..<300 :: nat}" "unat ` range_blocks 100 200"] by (simp add: card_image)
  moreover have "hs_elems ?hs = {}" "resizeThreshold ?hs = 1"
    by (simp_all add: address_hash_set_initialise_def hs_elems_def)
  ultimately have "hs_fits ?hs (card (hs_elems ?hs \<union> range_blocks 100 200))"
    by (simp add: hs_fits_def)
  from add_redo_log_stub_covers_range [OF i t _ _ this] show ?thesis by (auto simp: range_blocks_def)
qed

end
