(* ===== verification/Redo_Collector.thy ===== *)
theory Redo_Collector
  imports Linear_Probing
begin

text \<open>
  The code that \<^verbatim>\<open>instrumentation/redo_entry_collector.c\<close> inserts before every store of the
  application. Each C function that emits instructions is a definition whose value is the
  list of instructions it inserts, in the order they end up in; \<open>exec1\<close> interprets one
  instruction and \<open>run\<close> a number of them. The theorems are about the emitted code as it
  executes: it is the insertion of the 32-byte blocks of the store into the thread's table of
  1024 addresses.

  The registers are the seven scratch registers DynamoRIO reserves, which differ from each
  other. \<open>drutil_insert_get_mem_addr\<close> belongs to DynamoRIO: it is an instruction of the model
  that puts the address of the application's store, a parameter, in its first register and
  leaves an arbitrary value, another parameter, in its second one.
\<close>

section \<open>Instructions\<close>

datatype reg = RDest | RSet | RRange | RRax | RVal | RRsp | RCounter

datatype label =
    insert_stubs_to_cover_given_memory_range
  | try_to_insert_stub_into_given_slot_and_retry_with_higher_index_until_success
  | check_if_stub_is_a_duplicate
  | check_next_index
  | process_any_remaining_stubs
  | restore_registers
  | use_overflow_buffer

datatype opnd = Reg reg | Imm u64 | Memptr reg u64

datatype cond = JE | JNE | JGE | JL

datatype instr =
    Mov_ld reg opnd
  | Mov_st reg u64 opnd           \<comment> \<open>store to \<open>[reg + disp]\<close>\<close>
  | Mov_imm reg u64
  | Xor_r reg opnd
  | And_r reg opnd
  | Add_r reg opnd
  | Sub_r reg opnd
  | Imul_imm reg reg u64
  | Cmp opnd opnd
  | Jcc cond label
  | Jmp label
  | Lab label
  | Get_mem_addr reg reg
  | Call_dump reg                 \<comment> \<open>clean call of \<open>dump_address_to_overflow_buffer\<close>\<close>

record overflow_buffer =
  ob_size :: nat
  ob_buffer :: "addr list"

text \<open>The flags are the operands of the last \<open>cmp\<close>; any other arithmetic destroys them.\<close>

record machine =
  pc :: nat
  regs :: "reg \<Rightarrow> u64"
  flags :: "(u64 \<times> u64) option"
  memory :: mem
  overflowBuffer :: overflow_buffer

section \<open>The emitted code\<close>

definition HASH_SET_SIZE :: u64 where "HASH_SET_SIZE = 1024"
definition REAL_HASH_SET_SIZE :: u64 where "REAL_HASH_SET_SIZE = 8192"

text \<open>Offsets of members of \<open>per_thread_t\<close> under the x86-64 ABI.\<close>

definition offset_number_of_hash_set_entries :: u64 where "offset_number_of_hash_set_entries = 0"
definition offset_hash_set_entries :: u64 where "offset_hash_set_entries = 8"
definition offset_combiner :: u64 where "offset_combiner = 5912"
definition offset_hashSetBypassBuffer :: u64 where "offset_hashSetBypassBuffer = 7752"

definition dump_address_to_overflow_buffer :: "addr \<Rightarrow> overflow_buffer \<Rightarrow> overflow_buffer result" where
  "dump_address_to_overflow_buffer a b =
     (if ob_size b < length (ob_buffer b)
      then Inr (b\<lparr>ob_buffer := (ob_buffer b)[ob_size b := a], ob_size := ob_size b + 1\<rparr>)
      else Inl OutOfBounds)"

definition increment_entry_counter :: "instr list" where
  "increment_entry_counter = [Add_r RCounter (Imm 1), Mov_st RRsp 0 (Reg RCounter)]"

definition load_counter_in_register :: "instr list" where
  "load_counter_in_register =
     [Mov_ld RRsp (Memptr RSet offset_number_of_hash_set_entries), Mov_ld RCounter (Memptr RRsp 0)]"

definition check_combiner_state :: "instr list" where
  "check_combiner_state =
     [Mov_ld RVal (Memptr RSet offset_combiner), Cmp (Reg RVal) (Imm 0), Jcc JE restore_registers]"

text \<open>The comparison with \<open>HASH_SET_SIZE\<close> is compiled only where \<open>DISABLE_OVERFLOW_BUFFER\<close> is
  defined, that is in C++.\<close>

definition check_remaining_space_in_hash_set :: "instr list" where
  "check_remaining_space_in_hash_set = load_counter_in_register"

text \<open>The 8-bit immediate of the \<open>and\<close>, sign-extended to the register.\<close>

definition BLOCK_MASK :: u64 where
  "BLOCK_MASK = scast (0xE0 :: 8 word)"

text \<open>\<open>sz\<close> is the size of the store in bytes, an immediate of the emitted code.\<close>

definition store_prologue :: "u32 \<Rightarrow> instr list" where
  "store_prologue sz =
     [Xor_r RVal (Reg RVal)] @ check_combiner_state @ check_remaining_space_in_hash_set @
     [Mov_ld RSet (Memptr RSet offset_hash_set_entries),
      Get_mem_addr RDest RRange,
      Mov_ld RRange (Reg RDest),
      Add_r RRange (Imm (scast sz)),
      And_r RDest (Imm BLOCK_MASK)]"

definition insert_stubs_block :: "instr list" where
  "insert_stubs_block =
     [Lab insert_stubs_to_cover_given_memory_range,
      Cmp (Reg RDest) (Reg RRange),
      Jcc JGE restore_registers,
      Xor_r RRax (Reg RRax),
      Mov_imm RRax (HASH_SET_SIZE - 1),
      And_r RRax (Reg RDest),
      Imul_imm RRax RRax 8]"

definition try_slot_block :: "instr list" where
  "try_slot_block =
     [Lab try_to_insert_stub_into_given_slot_and_retry_with_higher_index_until_success,
      Add_r RSet (Reg RRax),
      Mov_ld RVal (Memptr RSet 0),
      Cmp (Reg RVal) (Imm 0),
      Jcc JNE check_if_stub_is_a_duplicate,
      Mov_st RSet 0 (Reg RDest)]
     @ increment_entry_counter @
     [Jmp process_any_remaining_stubs]"

definition duplicate_block :: "instr list" where
  "duplicate_block =
     [Lab check_if_stub_is_a_duplicate,
      Cmp (Reg RVal) (Reg RDest),
      Jcc JNE check_next_index,
      Jmp process_any_remaining_stubs]"

definition next_index_block :: "instr list" where
  "next_index_block =
     [Lab check_next_index,
      Sub_r RSet (Reg RRax),
      Add_r RRax (Imm 8),
      Cmp (Reg RRax) (Imm REAL_HASH_SET_SIZE),
      Jcc JL try_to_insert_stub_into_given_slot_and_retry_with_higher_index_until_success,
      Xor_r RRax (Reg RRax),
      Mov_imm RRax 0,
      Jmp try_to_insert_stub_into_given_slot_and_retry_with_higher_index_until_success]"

text \<open>\<open>instrlist_meta_preinsert\<close> before the last emitted instruction, \<open>assemblyArgs->instr\<close>.\<close>

definition preinsert_before_last :: "instr list \<Rightarrow> instr \<Rightarrow> instr list" where
  "preinsert_before_last il i = butlast il @ [i, last il]"

definition remaining_block :: "instr list" where
  "remaining_block =
     (let il = [Lab process_any_remaining_stubs,
                Sub_r RSet (Reg RRax),
                Add_r RDest (Imm 32),
                Cmp (Reg RDest) (Reg RRange),
                Jcc JGE restore_registers];
          il' = preinsert_before_last il (Jmp insert_stubs_to_cover_given_memory_range)
      in preinsert_before_last il' (Jmp restore_registers))"

definition overflow_block :: "instr list" where
  "overflow_block =
     [Lab use_overflow_buffer, Get_mem_addr RDest RRange, Call_dump RDest, Lab restore_registers]"

definition store_address_in_hash_set :: "u32 \<Rightarrow> instr list" where
  "store_address_in_hash_set sz =
     store_prologue sz @ insert_stubs_block @ try_slot_block @ duplicate_block @
     next_index_block @ remaining_block @ overflow_block"

text \<open>The alternative without deduplication (\<open>USE_DEDUPLICATION_BUFFER\<close> not defined).\<close>

definition store_address_in_buffer :: "u32 \<Rightarrow> instr list" where
  "store_address_in_buffer sz =
     [Xor_r RVal (Reg RVal)] @ check_combiner_state @
     [Get_mem_addr RDest RRange] @ load_counter_in_register @
     [Mov_ld RSet (Memptr RSet offset_hashSetBypassBuffer),
      Mov_ld RRange (Reg RCounter),
      Imul_imm RRange RRange 16,
      Add_r RSet (Reg RRange),
      Mov_st RSet 0 (Reg RDest),
      Add_r RSet (Imm 8),
      Mov_st RSet 0 (Imm (scast sz))]
     @ increment_entry_counter @ [Lab restore_registers]"

section \<open>Execution\<close>

fun opnd_value :: "machine \<Rightarrow> opnd \<Rightarrow> u64" where
  "opnd_value s (Reg r) = regs s r"
| "opnd_value s (Imm i) = i"
| "opnd_value s (Memptr r d) = ld64 (memory s) (regs s r + d)"

fun cond_holds :: "cond \<Rightarrow> u64 \<Rightarrow> u64 \<Rightarrow> bool" where
  "cond_holds JE x y = (x = y)"
| "cond_holds JNE x y = (x \<noteq> y)"
| "cond_holds JGE x y = (sint y \<le> sint x)"
| "cond_holds JL x y = (sint x < sint y)"

fun label_pos :: "instr list \<Rightarrow> label \<Rightarrow> nat" where
  "label_pos [] l = 0"
| "label_pos (i # is) l = (if i = Lab l then 0 else Suc (label_pos is l))"

definition set_reg :: "machine \<Rightarrow> reg \<Rightarrow> u64 \<Rightarrow> machine" where
  "set_reg s r v = s\<lparr>pc := pc s + 1, regs := (regs s)(r := v)\<rparr>"

definition set_arith :: "machine \<Rightarrow> reg \<Rightarrow> u64 \<Rightarrow> machine" where
  "set_arith s r v = (set_reg s r v)\<lparr>flags := None\<rparr>"

fun exec1 :: "instr list \<Rightarrow> addr \<Rightarrow> u64 \<Rightarrow> instr \<Rightarrow> machine \<Rightarrow> machine result" where
  "exec1 P sa sv (Mov_ld r x) s = Inr (set_reg s r (opnd_value s x))"
| "exec1 P sa sv (Mov_st r d x) s =
     Inr (s\<lparr>pc := pc s + 1, memory := st64 (memory s) (regs s r + d) (opnd_value s x)\<rparr>)"
| "exec1 P sa sv (Mov_imm r i) s = Inr (set_reg s r i)"
| "exec1 P sa sv (Xor_r r x) s = Inr (set_arith s r (regs s r XOR opnd_value s x))"
| "exec1 P sa sv (And_r r x) s = Inr (set_arith s r (regs s r AND opnd_value s x))"
| "exec1 P sa sv (Add_r r x) s = Inr (set_arith s r (regs s r + opnd_value s x))"
| "exec1 P sa sv (Sub_r r x) s = Inr (set_arith s r (regs s r - opnd_value s x))"
| "exec1 P sa sv (Imul_imm r r' i) s = Inr (set_arith s r (regs s r' * i))"
| "exec1 P sa sv (Cmp x y) s =
     Inr (s\<lparr>pc := pc s + 1, flags := Some (opnd_value s x, opnd_value s y)\<rparr>)"
| "exec1 P sa sv (Jcc c l) s =
     (case flags s of
        None \<Rightarrow> Inl AssertFail
      | Some (x, y) \<Rightarrow> Inr (s\<lparr>pc := (if cond_holds c x y then label_pos P l else pc s + 1)\<rparr>))"
| "exec1 P sa sv (Jmp l) s = Inr (s\<lparr>pc := label_pos P l\<rparr>)"
| "exec1 P sa sv (Lab l) s = Inr (s\<lparr>pc := pc s + 1\<rparr>)"
| "exec1 P sa sv (Get_mem_addr r r') s =
     Inr (s\<lparr>pc := pc s + 1, regs := (regs s)(r' := sv, r := sa)\<rparr>)"
| "exec1 P sa sv (Call_dump r) s =
     (case dump_address_to_overflow_buffer (regs s r) (overflowBuffer s) of
        Inl e \<Rightarrow> Inl e
      | Inr b \<Rightarrow> Inr (s\<lparr>pc := pc s + 1, overflowBuffer := b\<rparr>))"

text \<open>\<open>n\<close> instructions of the program \<open>P\<close>; past its last instruction nothing happens.\<close>

fun run :: "instr list \<Rightarrow> addr \<Rightarrow> u64 \<Rightarrow> nat \<Rightarrow> machine \<Rightarrow> machine result" where
  "run P sa sv 0 s = Inr s"
| "run P sa sv (Suc n) s =
     (if pc s < length P
      then (case exec1 P sa sv (P ! pc s) s of Inl e \<Rightarrow> Inl e | Inr t \<Rightarrow> run P sa sv n t)
      else Inr s)"

section \<open>Reaching a state\<close>

definition reaches :: "instr list \<Rightarrow> addr \<Rightarrow> u64 \<Rightarrow> machine \<Rightarrow> machine \<Rightarrow> bool" where
  "reaches P sa sv s t \<longleftrightarrow> (\<exists>n. run P sa sv n s = Inr t)"

lemma run_add:
  "run P sa sv m s = Inr t \<Longrightarrow> run P sa sv (m + n) s = run P sa sv n t"
proof (induction m arbitrary: s)
  case 0
  then show ?case by simp
next
  case (Suc m)
  show ?case
  proof (cases "pc s < length P")
    case True
    with Suc show ?thesis by (auto split: sum.splits)
  next
    case False
    with Suc.prems have "t = s" by simp
    with False show ?thesis by (cases n) simp_all
  qed
qed

lemma reaches_trans: "reaches P sa sv s t \<Longrightarrow> reaches P sa sv t u \<Longrightarrow> reaches P sa sv s u"
  unfolding reaches_def using run_add by metis

lemma reachesI: "run P sa sv n s = Inr t \<Longrightarrow> reaches P sa sv s t"
  by (auto simp: reaches_def)

lemmas store_code_defs =
  store_address_in_hash_set_def store_prologue_def insert_stubs_block_def try_slot_block_def
  duplicate_block_def next_index_block_def remaining_block_def overflow_block_def
  preinsert_before_last_def check_combiner_state_def check_remaining_space_in_hash_set_def
  load_counter_in_register_def increment_entry_counter_def Let_def
  HASH_SET_SIZE_def REAL_HASH_SET_SIZE_def offset_number_of_hash_set_entries_def
  offset_hash_set_entries_def offset_combiner_def

lemma code_length: "length (store_address_in_hash_set sz) = 50"
  by (simp add: store_code_defs)

lemma fetch:
  "store_address_in_hash_set sz ! 0 = Xor_r RVal (Reg RVal)"
  "store_address_in_hash_set sz ! 1 = Mov_ld RVal (Memptr RSet 5912)"
  "store_address_in_hash_set sz ! 2 = Cmp (Reg RVal) (Imm 0)"
  "store_address_in_hash_set sz ! 3 = Jcc JE restore_registers"
  "store_address_in_hash_set sz ! 4 = Mov_ld RRsp (Memptr RSet 0)"
  "store_address_in_hash_set sz ! 5 = Mov_ld RCounter (Memptr RRsp 0)"
  "store_address_in_hash_set sz ! 6 = Mov_ld RSet (Memptr RSet 8)"
  "store_address_in_hash_set sz ! 7 = Get_mem_addr RDest RRange"
  "store_address_in_hash_set sz ! 8 = Mov_ld RRange (Reg RDest)"
  "store_address_in_hash_set sz ! 9 = Add_r RRange (Imm (scast sz))"
  "store_address_in_hash_set sz ! 10 = And_r RDest (Imm BLOCK_MASK)"
  "store_address_in_hash_set sz ! 11 = Lab insert_stubs_to_cover_given_memory_range"
  "store_address_in_hash_set sz ! 12 = Cmp (Reg RDest) (Reg RRange)"
  "store_address_in_hash_set sz ! 13 = Jcc JGE restore_registers"
  "store_address_in_hash_set sz ! 14 = Xor_r RRax (Reg RRax)"
  "store_address_in_hash_set sz ! 15 = Mov_imm RRax 1023"
  "store_address_in_hash_set sz ! 16 = And_r RRax (Reg RDest)"
  "store_address_in_hash_set sz ! 17 = Imul_imm RRax RRax 8"
  "store_address_in_hash_set sz ! 18 = Lab try_to_insert_stub_into_given_slot_and_retry_with_higher_index_until_success"
  "store_address_in_hash_set sz ! 19 = Add_r RSet (Reg RRax)"
  "store_address_in_hash_set sz ! 20 = Mov_ld RVal (Memptr RSet 0)"
  "store_address_in_hash_set sz ! 21 = Cmp (Reg RVal) (Imm 0)"
  "store_address_in_hash_set sz ! 22 = Jcc JNE check_if_stub_is_a_duplicate"
  "store_address_in_hash_set sz ! 23 = Mov_st RSet 0 (Reg RDest)"
  "store_address_in_hash_set sz ! 24 = Add_r RCounter (Imm 1)"
  "store_address_in_hash_set sz ! 25 = Mov_st RRsp 0 (Reg RCounter)"
  "store_address_in_hash_set sz ! 26 = Jmp process_any_remaining_stubs"
  "store_address_in_hash_set sz ! 27 = Lab check_if_stub_is_a_duplicate"
  "store_address_in_hash_set sz ! 28 = Cmp (Reg RVal) (Reg RDest)"
  "store_address_in_hash_set sz ! 29 = Jcc JNE check_next_index"
  "store_address_in_hash_set sz ! 30 = Jmp process_any_remaining_stubs"
  "store_address_in_hash_set sz ! 31 = Lab check_next_index"
  "store_address_in_hash_set sz ! 32 = Sub_r RSet (Reg RRax)"
  "store_address_in_hash_set sz ! 33 = Add_r RRax (Imm 8)"
  "store_address_in_hash_set sz ! 34 = Cmp (Reg RRax) (Imm 8192)"
  "store_address_in_hash_set sz ! 35 = Jcc JL try_to_insert_stub_into_given_slot_and_retry_with_higher_index_until_success"
  "store_address_in_hash_set sz ! 36 = Xor_r RRax (Reg RRax)"
  "store_address_in_hash_set sz ! 37 = Mov_imm RRax 0"
  "store_address_in_hash_set sz ! 38 = Jmp try_to_insert_stub_into_given_slot_and_retry_with_higher_index_until_success"
  "store_address_in_hash_set sz ! 39 = Lab process_any_remaining_stubs"
  "store_address_in_hash_set sz ! 40 = Sub_r RSet (Reg RRax)"
  "store_address_in_hash_set sz ! 41 = Add_r RDest (Imm 32)"
  "store_address_in_hash_set sz ! 42 = Cmp (Reg RDest) (Reg RRange)"
  "store_address_in_hash_set sz ! 43 = Jmp insert_stubs_to_cover_given_memory_range"
  "store_address_in_hash_set sz ! 44 = Jmp restore_registers"
  "store_address_in_hash_set sz ! 45 = Jcc JGE restore_registers"
  "store_address_in_hash_set sz ! 46 = Lab use_overflow_buffer"
  "store_address_in_hash_set sz ! 47 = Get_mem_addr RDest RRange"
  "store_address_in_hash_set sz ! 48 = Call_dump RDest"
  "store_address_in_hash_set sz ! 49 = Lab restore_registers"
  by (simp_all add: store_code_defs)


lemma code_labels:
  "label_pos (store_address_in_hash_set sz) insert_stubs_to_cover_given_memory_range = 11"
  "label_pos (store_address_in_hash_set sz)
     try_to_insert_stub_into_given_slot_and_retry_with_higher_index_until_success = 18"
  "label_pos (store_address_in_hash_set sz) check_if_stub_is_a_duplicate = 27"
  "label_pos (store_address_in_hash_set sz) check_next_index = 31"
  "label_pos (store_address_in_hash_set sz) process_any_remaining_stubs = 39"
  "label_pos (store_address_in_hash_set sz) restore_registers = 49"
  by (simp_all add: store_code_defs)

lemma run_numeral:
  "run P sa sv (numeral k) s =
     (if pc s < length P
      then (case exec1 P sa sv (P ! pc s) s of Inl e \<Rightarrow> Inl e | Inr t \<Rightarrow> run P sa sv (pred_numeral k) t)
      else Inr s)"
  by (simp add: numeral_eq_Suc)

lemmas run_simps = run_numeral fetch code_length code_labels set_reg_def set_arith_def

section \<open>Blocks of the emitted code\<close>

text \<open>
  \<open>at p\<close>: the code is at instruction \<open>p\<close> with the base of the table, the address of the
  entry counter, the end of the store, the current block and the counter in their registers.
\<close>

record loop_view =
  lv_base :: addr
  lv_counter_addr :: addr
  lv_range :: u64
  lv_dest :: u64
  lv_count :: u64
  lv_mem :: mem
  lv_overflow :: overflow_buffer

definition at :: "nat \<Rightarrow> loop_view \<Rightarrow> machine \<Rightarrow> bool" where
  "at p v s \<longleftrightarrow>
     pc s = p \<and> regs s RSet = lv_base v \<and> regs s RRsp = lv_counter_addr v \<and>
     regs s RRange = lv_range v \<and> regs s RDest = lv_dest v \<and> regs s RCounter = lv_count v \<and>
     memory s = lv_mem v \<and> overflowBuffer s = lv_overflow v"

definition slot_addr :: "addr \<Rightarrow> nat \<Rightarrow> addr" where
  "slot_addr base i = base + 8 * of_nat i"

definition table_at :: "mem \<Rightarrow> addr \<Rightarrow> addr list" where
  "table_at m base = map (\<lambda>i. ld64 m (slot_addr base i)) [0..<1024]"

text \<open>The eight bytes of the entry counter do not overlap the table.\<close>

definition counter_apart :: "addr \<Rightarrow> addr \<Rightarrow> bool" where
  "counter_apart base ca \<longleftrightarrow>
     (\<forall>i<1024. 8 \<le> unat (ca - slot_addr base i) \<and> 8 \<le> unat (slot_addr base i - ca))"

lemma length_table_at [simp]: "length (table_at m base) = 1024"
  by (simp add: table_at_def)

lemma table_at_nth: "i < 1024 \<Longrightarrow> table_at m base ! i = ld64 m (slot_addr base i)"
  by (simp add: table_at_def)

lemma slots_apart:
  assumes "i < 1024" "j < 1024" "i \<noteq> j"
  shows "8 \<le> unat (slot_addr base i - slot_addr base j)"
proof -
  have d: "slot_addr base i - slot_addr base j = 8 * of_nat i - 8 * of_nat j"
    by (simp add: slot_addr_def)
  have u: "unat (8 * of_nat k :: u64) = 8 * k" if "k < 1024" for k
    using that by (simp add: unat_word_ariths unat_of_nat)
  show ?thesis
    using assms u [of i] u [of j] unfolding d
    by (cases "j < i") (auto simp: unat_sub_if_size word_size)
qed

lemma table_at_store:
  "i < 1024 \<Longrightarrow> table_at (st64 m (slot_addr base i) w) base = (table_at m base)[i := w]"
  by (rule nth_equalityI)
    (auto simp: table_at_nth ld64_st64_same ld64_st64_other slots_apart nth_list_update)

lemma table_at_counter:
  "counter_apart base ca \<Longrightarrow> table_at (st64 m ca w) base = table_at m base"
  by (rule nth_equalityI)
    (auto simp: table_at_nth counter_apart_def ld64_st64_other)

lemma sint_small: "n < 2 ^ 63 \<Longrightarrow> sint (of_nat n :: u64) = int n"
  by (simp add: sint_uint signed_take_bit_int_eq_self_iff take_bit_int_eq_self unsigned_of_nat
      signed_take_bit_int_eq_self take_bit_nat_eq_self)

lemma rax_step:
  assumes "i < 1024"
  shows "sint (8 * of_nat i + 8 :: u64) < 8192 \<longleftrightarrow> i + 1 < 1024"
proof -
  have "(8 * of_nat i + 8 :: u64) = of_nat (8 * i + 8)" by simp
  then have "sint (8 * of_nat i + 8 :: u64) = int (8 * i + 8)"
    using assms by (simp only:) (rule sint_small, simp)
  then show ?thesis by auto
qed

lemma occupied_slot:
  assumes "at 18 v s" "regs s RRax = 8 * of_nat i" "i < 1024"
    and "table_at (lv_mem v) (lv_base v) ! i \<noteq> 0" "table_at (lv_mem v) (lv_base v) ! i \<noteq> lv_dest v"
  shows "\<exists>n t. 0 < n \<and> run (store_address_in_hash_set sz) sa sv n s = Inr t \<and> at 18 v t
           \<and> regs t RRax = 8 * of_nat ((i + 1) mod 1024)"
proof (cases "i + 1 < 1024")
  case True
  with assms rax_step [OF assms(3)] show ?thesis
    by (intro exI [of _ 13]) (cases s, auto simp: run_simps at_def table_at_nth slot_addr_def)
next
  case False
  then have "i = 1023" using assms(3) by simp
  with assms rax_step [OF assms(3)] show ?thesis
    by (intro exI [of _ 16]) (cases s, auto simp: run_simps at_def table_at_nth slot_addr_def)
qed

lemma free_slot:
  assumes "at 18 v s" "regs s RRax = 8 * of_nat i" "i < 1024"
    and "table_at (lv_mem v) (lv_base v) ! i = 0"
  shows "\<exists>t. reaches (store_address_in_hash_set sz) sa sv s t
           \<and> at 11 (v\<lparr>lv_dest := lv_dest v + 32, lv_count := lv_count v + 1,
                     lv_mem := st64 (st64 (lv_mem v) (slot_addr (lv_base v) i) (lv_dest v))
                                 (lv_counter_addr v) (lv_count v + 1)\<rparr>) t"
proof -
  have "\<exists>t. run (store_address_in_hash_set sz) sa sv 14 s = Inr t
           \<and> at 11 (v\<lparr>lv_dest := lv_dest v + 32, lv_count := lv_count v + 1,
                     lv_mem := st64 (st64 (lv_mem v) (slot_addr (lv_base v) i) (lv_dest v))
                                 (lv_counter_addr v) (lv_count v + 1)\<rparr>) t"
    using assms by (cases s) (auto simp: run_simps at_def table_at_nth slot_addr_def)
  then show ?thesis by (auto simp: reaches_def)
qed

lemma duplicate_slot:
  assumes "at 18 v s" "regs s RRax = 8 * of_nat i" "i < 1024"
    and "table_at (lv_mem v) (lv_base v) ! i = lv_dest v" "lv_dest v \<noteq> 0"
  shows "\<exists>t. reaches (store_address_in_hash_set sz) sa sv s t
           \<and> at 11 (v\<lparr>lv_dest := lv_dest v + 32\<rparr>) t"
proof -
  have "\<exists>t. run (store_address_in_hash_set sz) sa sv 14 s = Inr t
           \<and> at 11 (v\<lparr>lv_dest := lv_dest v + 32\<rparr>) t"
    using assms by (cases s) (auto simp: run_simps at_def table_at_nth slot_addr_def)
  then show ?thesis by (auto simp: reaches_def)
qed

lemma start_block:
  assumes "at 11 v s" "sint (lv_dest v) < sint (lv_range v)"
  shows "\<exists>t. reaches (store_address_in_hash_set sz) sa sv s t \<and> at 18 v t
           \<and> regs t RRax = 8 * of_nat (unat (lv_dest v) mod 1024)"
proof -
  have "1023 AND lv_dest v = take_bit 10 (lv_dest v)"
    by (simp add: take_bit_eq_mask mask_eq_exp_minus_1 and.commute)
  then have u: "unat (1023 AND lv_dest v) = unat (lv_dest v) mod 1024"
    by (simp add: take_bit_eq_mod unat_mod)
  have "1023 AND lv_dest v = of_nat (unat (1023 AND lv_dest v))" by simp
  then have h: "1023 AND lv_dest v = of_nat (unat (lv_dest v) mod 1024)"
    by (simp only: u)
  have "\<exists>t. run (store_address_in_hash_set sz) sa sv 7 s = Inr t \<and> at 18 v t
           \<and> regs t RRax = 8 * of_nat (unat (lv_dest v) mod 1024)"
    using assms h by (cases s) (auto simp: run_simps at_def)
  then show ?thesis by (auto simp: reaches_def)
qed

lemma leave_loop:
  assumes "at 11 v s" "sint (lv_range v) \<le> sint (lv_dest v)"
  shows "\<exists>t. reaches (store_address_in_hash_set sz) sa sv s t \<and> at 50 v t"
proof -
  have "\<exists>t. run (store_address_in_hash_set sz) sa sv 4 s = Inr t \<and> at 50 v t"
    using assms by (cases s) (auto simp: run_simps at_def)
  then show ?thesis by (auto simp: reaches_def)
qed

section \<open>The loop over the blocks of the store\<close>

definition rc_hash :: "nat \<Rightarrow> addr \<Rightarrow> nat" where
  "rc_hash n a = unat a mod n"

interpretation rcp: linear_probing rc_hash "\<lambda>n. 0 < n"
  by unfold_locales (simp add: rc_hash_def)

text \<open>
  What the code needs of memory while it runs: a well-formed table and the counter, apart
  from it, equal to the register that caches it.
\<close>

definition view_ok :: "loop_view \<Rightarrow> bool" where
  "view_ok v \<longleftrightarrow>
     lp_inv rc_hash (table_at (lv_mem v) (lv_base v)) \<and>
     counter_apart (lv_base v) (lv_counter_addr v) \<and>
     ld64 (lv_mem v) (lv_counter_addr v) = lv_count v"

abbreviation view_elems :: "loop_view \<Rightarrow> addr set" where
  "view_elems v \<equiv> lp_elems (table_at (lv_mem v) (lv_base v))"

text \<open>Nothing changes but the table, the counter and the cursor of the loop.\<close>

definition same_frame :: "loop_view \<Rightarrow> loop_view \<Rightarrow> bool" where
  "same_frame v w \<longleftrightarrow>
     lv_base w = lv_base v \<and> lv_counter_addr w = lv_counter_addr v \<and> lv_range w = lv_range v \<and>
     lv_overflow w = lv_overflow v \<and>
     (\<forall>x. \<not> in_range (lv_base v) 8192 x \<and> \<not> in_range (lv_counter_addr v) 8 x
          \<longrightarrow> lv_mem w x = lv_mem v x)"

lemma same_frame_refl [simp]: "same_frame v v"
  by (simp add: same_frame_def)

lemma same_frame_trans: "same_frame u v \<Longrightarrow> same_frame v w \<Longrightarrow> same_frame u w"
  by (auto simp: same_frame_def)

lemma st64_outside: "\<not> in_range a 8 x \<Longrightarrow> st64 m a w x = m x"
  by (simp add: st64_def write_bytes_outside)

lemma slot_in_table: "i < 1024 \<Longrightarrow> in_range (slot_addr base i) 8 x \<Longrightarrow> in_range base 8192 x"
proof -
  assume i: "i < 1024" and r: "in_range (slot_addr base i) 8 x"
  have u: "unat (8 * of_nat i :: u64) = 8 * i"
    using i by (simp add: unat_word_ariths unat_of_nat)
  have e: "x - base = (x - slot_addr base i) + 8 * of_nat i"
    by (simp add: slot_addr_def)
  have "unat (x - base) = unat (x - slot_addr base i) + 8 * i"
    using r i unfolding e unat_word_ariths(1) u by (simp add: in_range_def)
  with r i show ?thesis by (simp add: in_range_def)
qed

lemma probe:
  assumes "at 18 v s" "regs s RRax = 8 * of_nat i" "i < 1024" "lv_dest v \<noteq> 0"
    and "lp_first (table_at (lv_mem v) (lv_base v)) (lv_dest v) i k"
  shows "\<exists>t j. reaches (store_address_in_hash_set sz) sa sv s t \<and> at 18 v t
           \<and> regs t RRax = 8 * of_nat j \<and> j = lp_slot 1024 i k"
  using assms
proof (induction k arbitrary: s i)
  case 0
  then show ?case
    by (intro exI [of _ s] exI [of _ i]) (auto simp: reaches_def intro!: exI [of _ 0])
next
  case (Suc k)
  have sh: "lp_first (table_at (lv_mem v) (lv_base v)) (lv_dest v) ((i + 1) mod 1024) k"
      "lp_slot 1024 ((i + 1) mod 1024) k = lp_slot 1024 i (Suc k)"
    using lp_first_shift [OF Suc.prems(5)] by simp_all
  have "\<not> lp_stop (table_at (lv_mem v) (lv_base v)) (lv_dest v) i"
    using Suc.prems by (auto simp: lp_first_def dest: spec [of _ 0])
  then obtain n u where "run (store_address_in_hash_set sz) sa sv n s = Inr u" "at 18 v u"
      "regs u RRax = 8 * of_nat ((i + 1) mod 1024)"
    using occupied_slot [OF Suc.prems(1-3), where sz = sz and sa = sa and sv = sv]
    unfolding lp_stop_def by blast
  moreover from this obtain t j where "reaches (store_address_in_hash_set sz) sa sv u t" "at 18 v t"
      "regs t RRax = 8 * of_nat j" "j = lp_slot 1024 ((i + 1) mod 1024) k"
    using Suc.IH [of u "(i + 1) mod 1024"] Suc.prems(4) sh(1) by auto
  ultimately show ?case
    using sh(2) by (metis reachesI reaches_trans)
qed

lemma sint_eq_unat: "unat (x :: u64) < 2 ^ 63 \<Longrightarrow> sint x = int (unat x)"
  using sint_small [of "unat x"] by simp

lemma sint_less_iff:
  "unat (x :: u64) < 2 ^ 63 \<Longrightarrow> unat (y :: u64) < 2 ^ 63 \<Longrightarrow> sint x < sint y \<longleftrightarrow> unat x < unat y"
  by (simp only: sint_eq_unat of_nat_less_iff)

lemma room_to_probe:
  assumes "lp_inv rc_hash tab" "length tab = 1024" "card (insert a (lp_elems tab)) \<le> 1024"
  shows "0 \<in> set tab \<or> a \<in> set tab"
proof (cases "a \<in> lp_elems tab")
  case True
  then show ?thesis by (simp add: lp_elems_def)
next
  case False
  then have "lp_count tab < length tab"
    using assms rcp.count_card [OF assms(1)] by (simp add: lp_elems_def card_insert_if)
  then show ?thesis using lp_free_slot by blast
qed

lemma view_ok_store:
  assumes "view_ok v" "i < 1024"
    and "lp_inv rc_hash ((table_at (lv_mem v) (lv_base v))[i := lv_dest v])"
    and "w = v\<lparr>lv_dest := d, lv_count := lv_count v + 1,
               lv_mem := st64 (st64 (lv_mem v) (slot_addr (lv_base v) i) (lv_dest v))
                           (lv_counter_addr v) (lv_count v + 1)\<rparr>"
  shows "view_ok w \<and> same_frame v w
    \<and> table_at (lv_mem w) (lv_base w) = (table_at (lv_mem v) (lv_base v))[i := lv_dest v]"
proof -
  have t: "table_at (lv_mem w) (lv_base w) = (table_at (lv_mem v) (lv_base v))[i := lv_dest v]"
    using assms by (simp add: view_ok_def table_at_counter table_at_store)
  have "st64 (lv_mem v) (slot_addr (lv_base v) i) (lv_dest v) x = lv_mem v x"
    if "\<not> in_range (lv_base v) 8192 x" for x
    using that slot_in_table [OF assms(2), of "lv_base v" x] by (metis st64_outside)
  then have "same_frame v w"
    using assms(4) by (simp add: same_frame_def st64_outside)
  with t show ?thesis
    using assms by (simp add: view_ok_def ld64_st64_same)
qed

lemma insert_one:
  assumes at: "at 11 v s" and ok: "view_ok v" and d0: "lv_dest v \<noteq> 0"
    and lt: "sint (lv_dest v) < sint (lv_range v)"
    and room: "card (insert (lv_dest v) (view_elems v)) \<le> 1024"
  shows "\<exists>t w. reaches (store_address_in_hash_set sz) sa sv s t \<and> at 11 w t \<and> view_ok w
           \<and> same_frame v w \<and> lv_dest w = lv_dest v + 32
           \<and> view_elems w = insert (lv_dest v) (view_elems v)
           \<and> lv_count w = lv_count v + of_nat (card (view_elems w) - card (view_elems v))"
proof -
  let ?tab = "table_at (lv_mem v) (lv_base v)" and ?d = "lv_dest v"
  let ?h = "rc_hash (length ?tab) ?d" and ?P = "store_address_in_hash_set sz"
  have inv: "lp_inv rc_hash ?tab" using ok by (simp add: view_ok_def)
  have h: "?h < 1024" by (simp add: rc_hash_def)
  obtain s1 where s1: "reaches ?P sa sv s s1" "at 18 v s1" "regs s1 RRax = 8 * of_nat ?h"
    using start_block [OF at lt, where sz = sz and sa = sa and sv = sv] by (auto simp: rc_hash_def)
  obtain k where k: "lp_first ?tab ?d ?h k"
    using lp_first_ex [of ?h ?tab ?d] room_to_probe [OF inv _ room] h by auto
  obtain s2 j where s2: "reaches ?P sa sv s1 s2" "at 18 v s2" "regs s2 RRax = 8 * of_nat j"
      and j: "j = lp_slot (length ?tab) ?h k"
    using probe [OF s1(2,3) h d0 k] by fastforce
  have j': "j < 1024" using lp_first_slot [OF k] j by simp
  have s: "reaches ?P sa sv s s2" using s1(1) s2(1) by (rule reaches_trans)
  have mem: "?tab ! j = ?d \<longleftrightarrow> ?d \<in> lp_elems ?tab"
    using rcp.found_iff_member [OF inv _ d0 k] j by simp
  show ?thesis
  proof (cases "?tab ! j = 0")
    case True
    let ?w = "v\<lparr>lv_dest := ?d + 32, lv_count := lv_count v + 1,
                lv_mem := st64 (st64 (lv_mem v) (slot_addr (lv_base v) j) ?d)
                            (lv_counter_addr v) (lv_count v + 1)\<rparr>"
    obtain t where t: "reaches ?P sa sv s2 t" "at 11 ?w t"
      using free_slot [OF s2(2,3) j' True] by blast
    have "lp_inv rc_hash (?tab[j := ?d])"
      using rcp.insert_inv [OF inv _ d0 k] True j by simp
    from view_ok_store [OF ok j' this, of ?w "?d + 32"]
    have w: "view_ok ?w" "same_frame v ?w" "table_at (lv_mem ?w) (lv_base ?w) = ?tab[j := ?d]"
      by simp_all
    then have el: "view_elems ?w = insert ?d (view_elems v)"
      using lp_elems_update [of j ?tab ?d] j' True d0 by simp
    have "?d \<notin> lp_elems ?tab" using mem True d0 by simp
    then have "card (view_elems ?w) - card (view_elems v) = 1"
      using el by (simp add: lp_elems_def)
    with w el t s show ?thesis
      by (intro exI [of _ t] exI [of _ ?w]) (auto intro: reaches_trans)
  next
    case False
    then have eq: "?tab ! j = ?d"
      using k j by (auto simp: lp_first_def lp_stop_def)
    then have el: "insert ?d (view_elems v) = view_elems v" using mem by auto
    obtain t where t: "reaches ?P sa sv s2 t" "at 11 (v\<lparr>lv_dest := ?d + 32\<rparr>) t"
      using duplicate_slot [OF s2(2,3) j' eq d0] by blast
    with ok el s show ?thesis
      by (intro exI [of _ t] exI [of _ "v\<lparr>lv_dest := ?d + 32\<rparr>"])
        (auto intro: reaches_trans simp: view_ok_def same_frame_def)
  qed
qed

definition view_blocks :: "loop_view \<Rightarrow> addr set" where
  "view_blocks v = {x. 32 dvd unat x \<and> unat (lv_dest v) \<le> unat x \<and> unat x < unat (lv_range v)}"

lemma view_blocks_step:
  assumes "32 dvd unat (lv_dest v)" "unat (lv_dest v) < unat (lv_range v)"
    and "unat (lv_range v) < 2 ^ 63 - 32" "lv_dest w = lv_dest v + 32" "lv_range w = lv_range v"
  shows "view_blocks v = insert (lv_dest v) (view_blocks w)"
    and "unat (lv_dest w) = unat (lv_dest v) + 32"
proof -
  show u: "unat (lv_dest w) = unat (lv_dest v) + 32"
    using assms by (simp add: unat_word_ariths)
  have "unat (lv_dest v) + 32 \<le> unat b"
    if "32 dvd unat b" "unat (lv_dest v) \<le> unat b" "unat b \<noteq> unat (lv_dest v)" for b :: addr
    using that assms(1) by presburger
  then show "view_blocks v = insert (lv_dest v) (view_blocks w)"
    using assms u by (auto simp: view_blocks_def word_unat_eq_iff)
qed

lemma insert_all:
  assumes "at 11 v s" "view_ok v" "32 \<le> unat (lv_dest v)" "32 dvd unat (lv_dest v)"
    and "unat (lv_range v) < 2 ^ 63 - 32" "unat (lv_dest v) < 2 ^ 63"
    and "card (view_elems v \<union> view_blocks v) \<le> 1024"
  shows "\<exists>t w. reaches (store_address_in_hash_set sz) sa sv s t \<and> at 50 w t \<and> view_ok w
           \<and> same_frame v w \<and> view_elems w = view_elems v \<union> view_blocks v
           \<and> lv_count w = lv_count v + of_nat (card (view_elems w) - card (view_elems v))"
  using assms
proof (induction "unat (lv_range v) - unat (lv_dest v)" arbitrary: v s rule: less_induct)
  case less
  note p = less.prems
  have si: "sint (lv_dest v) = int (unat (lv_dest v))" "sint (lv_range v) = int (unat (lv_range v))"
    using p(5,6) sint_eq_unat [of "lv_dest v"] sint_eq_unat [of "lv_range v"] by simp_all
  show ?case
  proof (cases "unat (lv_dest v) < unat (lv_range v)")
    case False
    then have "view_blocks v = {}" by (auto simp: view_blocks_def)
    moreover have "sint (lv_range v) \<le> sint (lv_dest v)"
      unfolding si using False by linarith
    then obtain t where "reaches (store_address_in_hash_set sz) sa sv s t" "at 50 v t"
      using leave_loop [OF p(1), where sz = sz and sa = sa and sv = sv] by blast
    ultimately show ?thesis
      using p(2) by (intro exI [of _ t] exI [of _ v]) simp
  next
    case True
    have fin: "finite (view_elems v \<union> view_blocks v)" by simp
    have "insert (lv_dest v) (view_elems v) \<subseteq> view_elems v \<union> view_blocks v"
      using True p(4) by (auto simp: view_blocks_def)
    then have room: "card (insert (lv_dest v) (view_elems v)) \<le> 1024"
      using card_mono [OF fin] p(7) by (meson le_trans)
    have d0: "lv_dest v \<noteq> 0" using p(3) by auto
    have lt: "sint (lv_dest v) < sint (lv_range v)" unfolding si using True by linarith
    obtain u w where w: "reaches (store_address_in_hash_set sz) sa sv s u" "at 11 w u" "view_ok w"
        "same_frame v w" "lv_dest w = lv_dest v + 32"
        "view_elems w = insert (lv_dest v) (view_elems v)"
        "lv_count w = lv_count v + of_nat (card (view_elems w) - card (view_elems v))"
      using insert_one [OF p(1,2) d0 lt room, where sz = sz and sa = sa and sv = sv] by blast
    have rng: "lv_range w = lv_range v" using w(4) by (simp add: same_frame_def)
    note st = view_blocks_step [OF p(4) True p(5) w(5) rng]
    have all: "view_elems w \<union> view_blocks w = view_elems v \<union> view_blocks v"
      using w(6) st(1) by auto
    have mono: "card (view_elems v) \<le> card (view_elems w)"
      using w(6) by (intro card_mono) (auto simp: lp_elems_def)
    from less.hyps [of w u] obtain t x where x: "reaches (store_address_in_hash_set sz) sa sv u t"
        "at 50 x t" "view_ok x" "same_frame w x" "view_elems x = view_elems w \<union> view_blocks w"
        "lv_count x = lv_count w + of_nat (card (view_elems x) - card (view_elems w))"
      using st(2) rng True w(2,3) p all diff_less_mono2 [of "unat (lv_dest v)" "unat (lv_dest v) + 32"] by auto
    have "card (view_elems w) \<le> card (view_elems x)"
      using x(5) by (intro card_mono) (auto simp: lp_elems_def)
    with mono have "lv_count x = lv_count v + of_nat (card (view_elems x) - card (view_elems v))"
      using w(7) x(6) by (simp flip: of_nat_add add: add.assoc)
    with w x all show ?thesis
      by (intro exI [of _ t] exI [of _ x]) (auto intro: reaches_trans same_frame_trans)
  qed
qed

section \<open>Entering the code\<close>

lemma block_mask: "BLOCK_MASK = push_bit 5 (NOT 0)"
  by (simp add: BLOCK_MASK_def mask_eq_exp_minus_1 not_eq_complement)

lemma unat_block: "unat (a AND BLOCK_MASK) = unat a div 32 * 32"
  unfolding block_mask and_high_mask unat_clear_low by simp

lemma sint_small32: "n < 2 ^ 31 \<Longrightarrow> sint (of_nat n :: u32) = int n"
  by (simp add: sint_uint signed_take_bit_int_eq_self take_bit_int_eq_self
      unsigned_of_nat take_bit_nat_eq_self)

lemma unat_scast_small:
  assumes "unat (sz :: u32) < 2 ^ 31"
  shows "unat (scast sz :: u64) = unat sz"
proof -
  from sint_small32 [of "unat sz"] assms have "sint sz = int (unat sz)" by simp
  then have "(scast sz :: u64) = of_nat (unat sz)" by (simp add: scast_eq)
  moreover have "unat (of_nat (unat sz) :: u64) = unat sz"
    using assms by (simp only: unat_of_nat) simp
  ultimately show ?thesis by (simp only:)
qed

lemma run_one: "run P sa sv 1 s = (if pc s < length P then exec1 P sa sv (P ! pc s) s else Inr s)"
  by (auto split: sum.splits)

lemma skip_when_not_combiner:
  assumes "pc s = 0" "ld64 (memory s) (regs s RSet + offset_combiner) = 0"
  shows "\<exists>t. run (store_address_in_hash_set sz) sa sv 5 s = Inr t \<and> pc t = 50 \<and> memory t = memory s
           \<and> overflowBuffer t = overflowBuffer s"
  using assms by (cases s) (simp add: run_simps run_one offset_combiner_def del: One_nat_def)

definition entry_view :: "u32 \<Rightarrow> addr \<Rightarrow> machine \<Rightarrow> loop_view" where
  "entry_view sz sa s =
     \<lparr>lv_base = ld64 (memory s) (regs s RSet + offset_hash_set_entries),
      lv_counter_addr = ld64 (memory s) (regs s RSet + offset_number_of_hash_set_entries),
      lv_range = sa + scast sz, lv_dest = sa AND BLOCK_MASK,
      lv_count = ld64 (memory s) (ld64 (memory s) (regs s RSet + offset_number_of_hash_set_entries)),
      lv_mem = memory s, lv_overflow = overflowBuffer s\<rparr>"

lemma enter_loop:
  assumes "pc s = 0" "ld64 (memory s) (regs s RSet + offset_combiner) \<noteq> 0"
  shows "\<exists>t. reaches (store_address_in_hash_set sz) sa sv s t \<and> at 11 (entry_view sz sa s) t"
proof -
  have "\<exists>t. run (store_address_in_hash_set sz) sa sv 11 s = Inr t \<and> at 11 (entry_view sz sa s) t"
    using assms
    by (cases s) (simp add: run_simps run_one offset_combiner_def at_def entry_view_def
        offset_hash_set_entries_def offset_number_of_hash_set_entries_def del: One_nat_def)
  then show ?thesis by (auto simp: reaches_def)
qed

text \<open>The 32-byte blocks a store of \<open>n\<close> bytes at \<open>a\<close> touches.\<close>

definition covered_blocks :: "addr \<Rightarrow> nat \<Rightarrow> addr set" where
  "covered_blocks a n = {x. 32 dvd unat x \<and> unat a div 32 * 32 \<le> unat x \<and> unat x < unat a + n}"

lemma entry_view_blocks:
  assumes "unat sz < 2 ^ 31" "unat sa + unat sz < 2 ^ 63 - 32"
  shows "view_blocks (entry_view sz sa s) = covered_blocks sa (unat sz)
    \<and> unat (lv_range (entry_view sz sa s)) = unat sa + unat sz"
proof -
  have "unat (sa + scast sz) = unat sa + unat sz"
    using assms by (simp add: unat_scast_small unat_word_ariths unat_of_nat)
  then show ?thesis
    by (simp add: view_blocks_def covered_blocks_def entry_view_def unat_block)
qed

section \<open>Properties\<close>

text \<open>The code on the thread that executes a batch, from its first instruction to its last.\<close>

lemma emitted_code_ok:
  fixes s :: machine
  defines "base \<equiv> ld64 (memory s) (regs s RSet + offset_hash_set_entries)"
    and "ca \<equiv> ld64 (memory s) (regs s RSet + offset_number_of_hash_set_entries)"
  assumes "pc s = 0" "ld64 (memory s) (regs s RSet + offset_combiner) \<noteq> 0"
    and "lp_inv rc_hash (table_at (memory s) base)" "counter_apart base ca"
    and "32 \<le> unat sa" "unat sz < 2 ^ 31" "unat sa + unat sz < 2 ^ 63 - 32"
    and "card (lp_elems (table_at (memory s) base) \<union> covered_blocks sa (unat sz)) \<le> 1024"
  shows "\<exists>n t. run (store_address_in_hash_set sz) sa sv n s = Inr t
     \<and> pc t = length (store_address_in_hash_set sz)
     \<and> lp_inv rc_hash (table_at (memory t) base)
     \<and> lp_elems (table_at (memory t) base) =
          lp_elems (table_at (memory s) base) \<union> covered_blocks sa (unat sz)
     \<and> ld64 (memory t) ca = ld64 (memory s) ca +
          of_nat (card (lp_elems (table_at (memory t) base)) - card (lp_elems (table_at (memory s) base)))
     \<and> (\<forall>x. \<not> in_range base 8192 x \<and> \<not> in_range ca 8 x \<longrightarrow> memory t x = memory s x)
     \<and> overflowBuffer t = overflowBuffer s"
proof -
  let ?v = "entry_view sz sa s" and ?P = "store_address_in_hash_set sz"
  obtain s1 where s1: "reaches ?P sa sv s s1" "at 11 ?v s1"
    using enter_loop [OF assms(3,4)] by blast
  have v: "lv_base ?v = base" "lv_counter_addr ?v = ca" "lv_mem ?v = memory s" "lv_count ?v = ld64 (memory s) ca"
      "unat (lv_dest ?v) = unat sa div 32 * 32"
    by (simp_all add: entry_view_def base_def ca_def unat_block)
  note bl = entry_view_blocks [OF assms(8,9), of s]
  have ok: "view_ok ?v" using assms(5,6) v by (simp add: view_ok_def)
  have d: "32 \<le> unat (lv_dest ?v)" "32 dvd unat (lv_dest ?v)" "unat (lv_dest ?v) < 2 ^ 63"
    unfolding v(5) using assms(7,9) div_greater_zero_iff [of "unat sa" 32]
      div_times_less_eq_dividend [of "unat sa" 32] by auto
  obtain t w where t: "reaches ?P sa sv s1 t" "at 50 w t" "view_ok w" "same_frame ?v w"
      "view_elems w = view_elems ?v \<union> view_blocks ?v"
      "lv_count w = lv_count ?v + of_nat (card (view_elems w) - card (view_elems ?v))"
    using insert_all [OF s1(2) ok d(1,2) _ d(3), where sz = sz and sa = sa and sv = sv] bl v assms(9,10)
    by auto
  obtain n where n: "run ?P sa sv n s = Inr t"
    using reaches_trans [OF s1(1) t(1)] by (auto simp: reaches_def)
  have w: "lv_base w = base" "lv_counter_addr w = ca" "memory t = lv_mem w" "pc t = 50"
    using t(2,4) v by (simp_all add: same_frame_def at_def)
  have ob: "overflowBuffer t = overflowBuffer s"
    using t(2,4) by (simp add: same_frame_def at_def entry_view_def)
  show ?thesis
    using n t v w ob bl by (intro exI [of _ n] exI [of _ t])
      (auto simp: view_ok_def same_frame_def code_length)
qed

text \<open>
  C9: On the thread that executes a batch (its \<open>combiner\<close> word is not zero) the code emitted
  before a store runs to its end without a fault; afterwards the thread's table is well
  formed and holds exactly the blocks it held plus the 32-byte blocks the store touches, the
  entry counter has grown by the number of new blocks, and no other byte of memory has
  changed. The table must have room for the new blocks, and the addresses lie in the lower
  half of the address space (the emitted comparisons are signed).
\<close>

theorem emitted_code_logs_blocks:
  fixes s :: machine
  defines "base \<equiv> ld64 (memory s) (regs s RSet + offset_hash_set_entries)"
    and "ca \<equiv> ld64 (memory s) (regs s RSet + offset_number_of_hash_set_entries)"
  assumes "pc s = 0" "ld64 (memory s) (regs s RSet + offset_combiner) \<noteq> 0"
    and "lp_inv rc_hash (table_at (memory s) base)" "counter_apart base ca"
    and "32 \<le> unat sa" "unat sz < 2 ^ 31" "unat sa + unat sz < 2 ^ 63 - 32"
    and "card (lp_elems (table_at (memory s) base) \<union> covered_blocks sa (unat sz)) \<le> 1024"
  shows "\<exists>n t. run (store_address_in_hash_set sz) sa sv n s = Inr t
     \<and> pc t = length (store_address_in_hash_set sz)
     \<and> lp_inv rc_hash (table_at (memory t) base)
     \<and> lp_elems (table_at (memory t) base) =
          lp_elems (table_at (memory s) base) \<union> covered_blocks sa (unat sz)
     \<and> ld64 (memory t) ca = ld64 (memory s) ca +
          of_nat (card (lp_elems (table_at (memory t) base)) - card (lp_elems (table_at (memory s) base)))
     \<and> (\<forall>x. \<not> in_range base 8192 x \<and> \<not> in_range ca 8 x \<longrightarrow> memory t x = memory s x)"
  using emitted_code_ok [OF assms(3-6) [unfolded base_def ca_def] assms(7-9), of sv] assms(10) unfolding base_def ca_def by blast

text \<open>
  On a thread whose \<open>combiner\<close> word is zero the emitted code only skips to its end: memory
  and the overflow buffer are as before.
\<close>

lemma emitted_code_skips_other_threads:
  assumes "pc s = 0" "ld64 (memory s) (regs s RSet + offset_combiner) = 0"
  shows "\<exists>n t. run (store_address_in_hash_set sz) sa sv n s = Inr t
     \<and> pc t = length (store_address_in_hash_set sz) \<and> memory t = memory s
     \<and> overflowBuffer t = overflowBuffer s"
  using skip_when_not_combiner [OF assms, of sz sa sv] by (auto simp: code_length intro!: exI [of _ 5])

lemma full_table_loops:
  assumes "at 18 v s" "regs s RRax = 8 * of_nat i" "i < 1024"
    and "0 \<notin> set (table_at (lv_mem v) (lv_base v))" "lv_dest v \<notin> set (table_at (lv_mem v) (lv_base v))"
  shows "\<exists>n t i. N \<le> n \<and> run (store_address_in_hash_set sz) sa sv n s = Inr t \<and> at 18 v t
           \<and> regs t RRax = 8 * of_nat i \<and> i < 1024"
proof (induction N)
  case 0
  with assms show ?case by (metis le0 run.simps(1))
next
  case (Suc N)
  then obtain n t j where n: "N \<le> n" "run (store_address_in_hash_set sz) sa sv n s = Inr t" "at 18 v t"
      "regs t RRax = 8 * of_nat j" "j < 1024" by blast
  have "table_at (lv_mem v) (lv_base v) ! j \<in> set (table_at (lv_mem v) (lv_base v))"
    using n(5) by simp
  with assms obtain k u where k: "0 < k" "run (store_address_in_hash_set sz) sa sv k t = Inr u" "at 18 v u"
      "regs u RRax = 8 * of_nat ((j + 1) mod 1024)"
    using occupied_slot [OF n(3-5), where sz = sz and sa = sa and sv = sv] by metis
  have "run (store_address_in_hash_set sz) sa sv (n + k) s = Inr u"
    using run_add [OF n(2), of k] k(2) by simp
  with k n(1) show ?case
    by (intro exI [of _ "n + k"] exI [of _ u] exI [of _ "(j + 1) mod 1024"]) auto
qed

lemma run_end: "run P sa sv n s = Inr t \<Longrightarrow> length P \<le> pc t \<Longrightarrow> n \<le> k \<Longrightarrow> run P sa sv k s = Inr t"
proof -
  assume r: "run P sa sv n s = Inr t" and e: "length P \<le> pc t" and k: "n \<le> k"
  have "run P sa sv (k - n) t = Inr t" using e by (cases "k - n") simp_all
  then show ?thesis using run_add [OF r, of "k - n"] k by simp
qed

lemma run_prefix: "run P sa sv n s = Inr t \<Longrightarrow> k \<le> n \<Longrightarrow> \<exists>u. run P sa sv k s = Inr u"
proof (induction k arbitrary: n s)
  case 0
  then show ?case by simp
next
  case (Suc k)
  then show ?case by (cases n) (auto split: sum.splits if_splits)
qed

text \<open>
  C40: The emitted code has no check for a full table (the one in the source is compiled for
  C++ only). When the 1024 slots are taken and the first block of the store is not among
  them, the code never faults and never ends.
\<close>

theorem emitted_code_loops_on_full_table:
  fixes s :: machine
  defines "base \<equiv> ld64 (memory s) (regs s RSet + offset_hash_set_entries)"
  assumes "pc s = 0" "ld64 (memory s) (regs s RSet + offset_combiner) \<noteq> 0"
    and "0 \<notin> set (table_at (memory s) base)"
    and "sa AND BLOCK_MASK \<notin> set (table_at (memory s) base)"
    and "unat sz < 2 ^ 31" "0 < unat sz" "unat sa + unat sz < 2 ^ 63 - 32"
  shows "\<exists>t. run (store_address_in_hash_set sz) sa sv n s = Inr t
     \<and> pc t < length (store_address_in_hash_set sz)"
proof -
  let ?v = "entry_view sz sa s" and ?P = "store_address_in_hash_set sz"
  obtain s1 where s1: "reaches ?P sa sv s s1" "at 11 ?v s1"
    using enter_loop [OF assms(2,3)] by blast
  have v: "lv_base ?v = base" "lv_mem ?v = memory s" "lv_dest ?v = sa AND BLOCK_MASK"
      "unat (lv_dest ?v) \<le> unat sa"
    using div_times_less_eq_dividend [of "unat sa" 32]
    by (simp_all add: entry_view_def base_def unat_block)
  have rng: "unat (lv_range ?v) = unat sa + unat sz"
    using entry_view_blocks [OF assms(6,8)] by simp
  have "sint (lv_dest ?v) < sint (lv_range ?v)"
    using v(4) rng assms(7,8) sint_less_iff [of "lv_dest ?v" "lv_range ?v"] by simp
  then obtain s2 where s2: "reaches ?P sa sv s1 s2" "at 18 ?v s2"
      "regs s2 RRax = 8 * of_nat (unat (lv_dest ?v) mod 1024)"
    using start_block [OF s1(2), where sz = sz and sa = sa and sv = sv] by blast
  obtain m where m: "run ?P sa sv m s = Inr s2"
    using reaches_trans [OF s1(1) s2(1)] by (auto simp: reaches_def)
  obtain k t where k: "n \<le> k" "run ?P sa sv k s2 = Inr t" "at 18 ?v t"
    using full_table_loops [OF s2(2,3), where N = n and sz = sz and sa = sa and sv = sv] assms(4,5) v by auto
  have far: "run ?P sa sv (m + k) s = Inr t" using run_add [OF m, of k] k(2) by simp
  then obtain u where u: "run ?P sa sv n s = Inr u" using run_prefix k(1) by (metis trans_le_add2)
  have "pc u < length ?P"
  proof (rule ccontr)
    assume "\<not> pc u < length ?P"
    then have "run ?P sa sv (m + k) s = Inr u" using run_end [OF u] k(1) by simp
    with far k(3) \<open>\<not> pc u < length ?P\<close> show False by (simp add: at_def code_length)
  qed
  with u show ?thesis by blast
qed

section \<open>Witnesses\<close>

definition example_machine :: "mem \<Rightarrow> machine" where
  "example_machine m =
     \<lparr>pc = 0, regs = (\<lambda>_. 0)(RSet := 0x10000), flags = None, memory = m,
      overflowBuffer = \<lparr>ob_size = 0, ob_buffer = replicate 4096 0\<rparr>\<rparr>"

definition example_memory :: mem where
  "example_memory = st64 (st64 (st64 (\<lambda>_. 0) 0x10000 0x20000) 0x10008 0x1000) 0x11718 1"

lemma counter_apart_above:
  "unat base + 8192 \<le> unat ca \<Longrightarrow> unat ca + 8 \<le> 2 ^ 64 \<Longrightarrow> counter_apart base ca"
  unfolding counter_apart_def
proof (intro allI impI)
  fix i :: nat
  assume a: "unat base + 8192 \<le> unat ca" "unat ca + 8 \<le> 2 ^ 64" and i: "i < 1024"
  have "unat (slot_addr base i) = unat base + 8 * i"
    using a i unat_lt64 [of ca] by (simp add: slot_addr_def unat_word_ariths unat_of_nat)
  then show "8 \<le> unat (ca - slot_addr base i) \<and> 8 \<le> unat (slot_addr base i - ca)"
    using a i unat_lt64 [of ca] by (auto simp: unat_sub_if_size word_size)
qed

lemma ld64_constant: "ld64 (\<lambda>_. 0) a = 0" "ld64 (\<lambda>_. 1) a = 0x0101010101010101"
  by (simp_all add: ld64_def read_bytes_def upt_8 of_le_bytes_def)

lemma table_at_constant:
  "table_at (\<lambda>_. 0) base = replicate 1024 0" "table_at (\<lambda>_. 1) base = replicate 1024 0x0101010101010101"
  by (auto intro!: nth_equalityI simp: table_at_nth ld64_constant)

lemma example_memory_words:
  "ld64 example_memory 0x10000 = 0x20000" "ld64 example_memory 0x10008 = 0x1000"
  "ld64 example_memory 0x11718 = 1" "table_at example_memory 0x1000 = replicate 1024 0"
  by (simp_all add: example_memory_def mem_simps table_at_counter counter_apart_above table_at_constant)

lemma example_blocks: "covered_blocks 0x40010 24 = {0x40000, 0x40020}"
proof (rule set_eqI)
  fix x :: addr
  have n: "32 dvd n \<and> 262144 \<le> n \<and> n < 262184 \<longleftrightarrow> n = 262144 \<or> n = 262176" for n :: nat
    by (auto elim!: dvdE)
  have c: "unat (0x40010 :: u64) div 32 * 32 = 262144" "unat (0x40010 :: u64) + 24 = 262184"
      "unat (0x40000 :: u64) = 262144" "unat (0x40020 :: u64) = 262176" by simp_all
  show "x \<in> covered_blocks 0x40010 24 \<longleftrightarrow> x \<in> {0x40000, 0x40020}"
    unfolding covered_blocks_def mem_Collect_eq c(1,2) n insert_iff empty_iff word_unat_eq_iff c(3,4) by blast
qed

theorem emitted_code_logs_blocks_witness:
  "\<exists>n t. run (store_address_in_hash_set 24) 0x40010 7 n (example_machine example_memory) = Inr t
     \<and> lp_elems (table_at (memory t) 0x1000) = {0x40000, 0x40020}
     \<and> (\<forall>x. \<not> in_range 0x1000 8192 x \<and> \<not> in_range 0x20000 8 x \<longrightarrow> memory t x = example_memory x)"
proof -
  let ?s = "example_machine example_memory"
  have r: "memory ?s = example_memory" "regs ?s RSet = 0x10000" "pc ?s = 0"
    by (simp_all add: example_machine_def)
  have "card ({} \<union> covered_blocks 0x40010 24) \<le> 1024" by (simp add: example_blocks)
  then show ?thesis
    using emitted_code_logs_blocks [of ?s "0x40010" 24 7] example_blocks counter_apart_above [of "0x1000" "0x20000"]
    by (simp add: r example_memory_words offset_hash_set_entries_def offset_number_of_hash_set_entries_def
        offset_combiner_def) blast
qed

lemma emitted_code_skips_other_threads_witness:
  "\<exists>n t. run (store_address_in_hash_set 8) 0x40010 7 n (example_machine (\<lambda>_. 0)) = Inr t
     \<and> pc t = 50 \<and> memory t = (\<lambda>_. 0)"
  using emitted_code_skips_other_threads [of "example_machine (\<lambda>_. 0)" 8 "0x40010" 7]
  by (simp add: example_machine_def ld64_constant code_length) blast

theorem emitted_code_loops_on_full_table_witness:
  "\<forall>n. \<exists>t. run (store_address_in_hash_set 8) 64 7 n (example_machine (\<lambda>_. 1)) = Inr t \<and> pc t < 50"
proof
  fix n
  have "(64 :: u64) AND BLOCK_MASK = 64"
    by (simp add: BLOCK_MASK_def)
  then show "\<exists>t. run (store_address_in_hash_set 8) 64 7 n (example_machine (\<lambda>_. 1)) = Inr t \<and> pc t < 50"
    using emitted_code_loops_on_full_table [of "example_machine (\<lambda>_. 1)" 64 8 7 n]
    by (simp add: example_machine_def ld64_constant table_at_constant code_length)
qed
end
