(* ===== verification/Virtual_Memory.thy ===== *)
theory Virtual_Memory
  imports Mangosteen_Prelude
begin

text \<open>
  The memory of a process as the region table and the back end use it: addresses are backed
  by bytes of memory files (\<open>MAP_SHARED\<close> mappings of \<^verbatim>\<open>mem_file_<n>\<close>) or by anonymous memory.
  A store to a file-backed address changes the file. Lengths of mappings are in bytes; the
  kernel's rounding to pages is left out, so an access past the end of a mapping faults here
  even where the last page would still allow it. Whether the kernel accepts a request is not
  determined by the program: it is the parameter \<open>kernel\<close>.

  The locale \<open>byte_store\<close> is the contract of the memory under the back end: what a load
  returns after a store.
\<close>

section \<open>Memory of a process\<close>

datatype backing = File_byte nat nat | Anon_byte

record proc_mem =
  vmap :: "addr \<Rightarrow> backing option"
  anon :: mem
  files :: "nat \<Rightarrow> byte list option"

record kernel =
  mmap_ok :: "addr \<Rightarrow> u64 \<Rightarrow> bool"
  ftruncate_ok :: "u64 \<Rightarrow> bool"

definition load_byte :: "proc_mem \<Rightarrow> addr \<Rightarrow> byte option" where
  "load_byte p x =
     (case vmap p x of
        None \<Rightarrow> None
      | Some Anon_byte \<Rightarrow> Some (anon p x)
      | Some (File_byte f i) \<Rightarrow>
          (case files p f of
             None \<Rightarrow> None
           | Some bs \<Rightarrow> if i < length bs then Some (bs ! i) else None))"

definition store_byte :: "addr \<Rightarrow> byte \<Rightarrow> proc_mem \<Rightarrow> proc_mem result" where
  "store_byte x b p =
     (case vmap p x of
        None \<Rightarrow> Inl SegFault
      | Some Anon_byte \<Rightarrow> Inr (p\<lparr>anon := (anon p)(x := b)\<rparr>)
      | Some (File_byte f i) \<Rightarrow>
          (case files p f of
             None \<Rightarrow> Inl SegFault
           | Some bs \<Rightarrow> if i < length bs then Inr (p\<lparr>files := (files p)(f \<mapsto> bs[i := b])\<rparr>)
                        else Inl SegFault))"

text \<open>\<open>memcpy\<close> into this memory, byte by byte.\<close>

fun memcpy_to :: "addr \<Rightarrow> byte list \<Rightarrow> proc_mem \<Rightarrow> proc_mem result" where
  "memcpy_to a [] p = Inr p"
| "memcpy_to a (b # bs) p =
     (case store_byte a b p of Inl e \<Rightarrow> Inl e | Inr p' \<Rightarrow> memcpy_to (a + 1) bs p')"

text \<open>\<open>mmap\<close> with \<open>MAP_FIXED\<close>, of a file and of anonymous memory.\<close>

definition mmap_file :: "addr \<Rightarrow> u64 \<Rightarrow> nat \<Rightarrow> proc_mem \<Rightarrow> proc_mem" where
  "mmap_file a sz f p =
     p\<lparr>vmap := (\<lambda>x. if in_range a (unat sz) x then Some (File_byte f (unat (x - a))) else vmap p x)\<rparr>"

definition mmap_anonymous :: "addr \<Rightarrow> u64 \<Rightarrow> proc_mem \<Rightarrow> proc_mem" where
  "mmap_anonymous a sz p =
     p\<lparr>vmap := (\<lambda>x. if in_range a (unat sz) x then Some Anon_byte else vmap p x),
       anon := (\<lambda>x. if in_range a (unat sz) x then 0 else anon p x)\<rparr>"

section \<open>Readable addresses and aliasing\<close>

definition mapped :: "proc_mem \<Rightarrow> addr \<Rightarrow> bool" where
  "mapped p x \<longleftrightarrow> load_byte p x \<noteq> None"

text \<open>No two addresses are backed by the same byte of a file.\<close>

definition no_alias :: "proc_mem \<Rightarrow> bool" where
  "no_alias p \<longleftrightarrow> (\<forall>x y f i. vmap p x = Some (File_byte f i) \<longrightarrow> vmap p y = Some (File_byte f i) \<longrightarrow> x = y)"

text \<open>The content of memory as a total function; the value at unmapped addresses is 0.\<close>

definition contents :: "proc_mem \<Rightarrow> mem" where
  "contents p x = (case load_byte p x of None \<Rightarrow> 0 | Some b \<Rightarrow> b)"

section \<open>The contract of a byte store\<close>

locale byte_store =
  fixes load :: "'s \<Rightarrow> addr \<Rightarrow> byte option"
    and store :: "addr \<Rightarrow> byte \<Rightarrow> 's \<Rightarrow> 's result"
    and ok :: "'s \<Rightarrow> bool"
  assumes store_ok: "ok s \<Longrightarrow> load s a \<noteq> None \<Longrightarrow> \<exists>s'. store a b s = Inr s' \<and> ok s'
             \<and> load s' = (load s)(a \<mapsto> b)"
    and store_fault: "load s a = None \<Longrightarrow> store a b s = Inl SegFault"
begin

fun copy :: "addr \<Rightarrow> byte list \<Rightarrow> 's \<Rightarrow> 's result" where
  "copy a [] s = Inr s"
| "copy a (b # bs) s = (case store a b s of Inl e \<Rightarrow> Inl e | Inr s' \<Rightarrow> copy (a + 1) bs s')"

lemma copy_ok:
  "ok s \<Longrightarrow> length bs \<le> 2 ^ 64 \<Longrightarrow> \<forall>i<length bs. load s (a + of_nat i) \<noteq> None \<Longrightarrow>
   \<exists>s'. copy a bs s = Inr s' \<and> ok s' \<and>
     load s' = (\<lambda>x. if unat (x - a) < length bs then Some (bs ! unat (x - a)) else load s x)"
proof (induction bs arbitrary: a s)
  case Nil
  then show ?case by simp
next
  case (Cons b bs)
  have "load s a \<noteq> None" using Cons.prems(3) by force
  then obtain s1 where s1: "store a b s = Inr s1" "ok s1" "load s1 = (load s)(a \<mapsto> b)"
    using store_ok Cons.prems(1) by blast
  have nx: "load s1 (a + 1 + of_nat i) \<noteq> None" if "i < length bs" for i
    using that Cons.prems(3) [rule_format, of "Suc i"] s1(3) by (simp add: add.assoc)
  then obtain s2 where s2: "copy (a + 1) bs s1 = Inr s2" "ok s2"
      "load s2 = (\<lambda>x. if unat (x - (a + 1)) < length bs then Some (bs ! unat (x - (a + 1))) else load s1 x)"
    using Cons.IH [OF s1(2), of "a + 1"] Cons.prems(2) by auto
  have "load s2 x = (if unat (x - a) < length (b # bs) then Some ((b # bs) ! unat (x - a)) else load s x)" for x
  proof (cases "x = a")
    case True
    have "unat (-1 :: u64) = 2 ^ 64 - 1" by (simp add: unsigned_minus_1_eq_mask mask_eq_exp_minus_1)
    then have "\<not> unat (x - (a + 1)) < length bs" using True Cons.prems(2) by simp
    with True s1 s2 show ?thesis by simp
  next
    case False
    then have "unat (x - a) \<noteq> 0" by (simp add: unat_eq_zero)
    then have "unat (x - a) = Suc (unat (x - (a + 1)))"
      using unat_minus_one [of "x - a"] False by (simp add: diff_diff_eq)
    with False s1 s2 show ?thesis by simp
  qed
  with s1 s2 show ?case by auto
qed

lemma copy_fault:
  "ok s \<Longrightarrow> i < length bs \<Longrightarrow> load s (a + of_nat i) = None \<Longrightarrow> copy a bs s = Inl SegFault"
proof (induction bs arbitrary: a s i)
  case Nil
  then show ?case by simp
next
  case (Cons b bs)
  show ?case
  proof (cases "load s a")
    case None
    then show ?thesis by (simp add: store_fault)
  next
    case (Some c)
    then obtain s1 where s1: "store a b s = Inr s1" "ok s1" "load s1 = (load s)(a \<mapsto> b)"
      using store_ok [OF Cons.prems(1), of a b] by auto
    from Some Cons.prems(3) have ne: "a + of_nat i \<noteq> a" by auto
    then have "i \<noteq> 0" by (auto intro: ccontr)
    then obtain j where "i = Suc j" by (cases i) auto
    then have "copy (a + 1) bs s1 = Inl SegFault"
      using Cons.IH [OF s1(2), of j "a + 1"] Cons.prems s1(3) ne
      by (simp add: add.assoc)
    with s1 show ?thesis by simp
  qed
qed

end

lemma load_store_byte:
  assumes "no_alias p" "load_byte p a \<noteq> None"
  shows "\<exists>p'. store_byte a b p = Inr p' \<and> no_alias p' \<and> load_byte p' = (load_byte p)(a \<mapsto> b)"
proof (cases "vmap p a")
  case None
  then show ?thesis using assms(2) by (simp add: load_byte_def)
next
  case (Some bk)
  show ?thesis
  proof (cases bk)
    case Anon_byte
    with Some show ?thesis using assms(1)
      by (auto simp: store_byte_def load_byte_def no_alias_def fun_eq_iff split: option.splits backing.splits)
  next
    case (File_byte f i)
    then obtain bs where bs: "files p f = Some bs" "i < length bs"
      using Some assms(2) by (auto simp: load_byte_def split: option.splits if_splits)
    have "load_byte (p\<lparr>files := (files p)(f \<mapsto> bs[i := b])\<rparr>) x = ((load_byte p)(a \<mapsto> b)) x" for x
      using assms(1) Some File_byte bs
      by (cases "vmap p x") (auto simp: load_byte_def no_alias_def nth_list_update split: backing.splits)
    with Some File_byte bs assms(1) show ?thesis
      by (auto simp: store_byte_def no_alias_def fun_eq_iff)
  qed
qed

interpretation pm: byte_store load_byte store_byte no_alias
  by unfold_locales
    (auto intro: load_store_byte, auto simp: load_byte_def store_byte_def split: option.splits backing.splits)

lemma memcpy_to_copy: "memcpy_to a bs p = pm.copy a bs p"
  by (induction bs arbitrary: a p) (auto split: sum.splits)

lemma memcpy_to_ok:
  assumes "no_alias p" "length bs \<le> 2 ^ 64" "\<forall>x. in_range a (length bs) x \<longrightarrow> mapped p x"
  shows "\<exists>p'. memcpy_to a bs p = Inr p' \<and> no_alias p' \<and> mapped p' = mapped p
     \<and> contents p' = write_bytes (contents p) a bs"
proof -
  have "load_byte p (a + of_nat i) \<noteq> None" if "i < length bs" for i
  proof -
    have "in_range a (length bs) (a + of_nat i)"
      using that assms(2) by (simp add: in_range_def unat_of_nat)
    then show ?thesis using assms(3) by (simp add: mapped_def)
  qed
  then obtain p' where p': "memcpy_to a bs p = Inr p'" "no_alias p'"
      "load_byte p' = (\<lambda>x. if unat (x - a) < length bs then Some (bs ! unat (x - a)) else load_byte p x)"
    using pm.copy_ok [OF assms(1,2), of a] unfolding memcpy_to_copy by blast
  moreover have "mapped p' = mapped p"
    using assms(3) p'(3) by (auto simp: mapped_def in_range_def fun_eq_iff)
  moreover have "contents p' = write_bytes (contents p) a bs"
    using p'(3) by (auto simp: contents_def write_bytes_def fun_eq_iff)
  ultimately show ?thesis by blast
qed

lemma memcpy_to_fault:
  "no_alias p \<Longrightarrow> i < length bs \<Longrightarrow> \<not> mapped p (a + of_nat i) \<Longrightarrow> memcpy_to a bs p = Inl SegFault"
  using pm.copy_fault by (simp add: memcpy_to_copy mapped_def)

section \<open>Mapping a file\<close>

lemma no_alias_mmap_file:
  assumes "no_alias p" "\<forall>x g i. vmap p x = Some (File_byte g i) \<longrightarrow> g \<noteq> f"
  shows "no_alias (mmap_file a sz f p)"
  unfolding no_alias_def
proof (intro allI impI)
  fix x y g i
  assume x: "vmap (mmap_file a sz f p) x = Some (File_byte g i)"
    and y: "vmap (mmap_file a sz f p) y = Some (File_byte g i)"
  show "x = y"
  proof (cases "g = f")
    case True
    with x y assms(2) have "unat (x - a) = unat (y - a)"
      by (auto simp: mmap_file_def split: if_splits)
    then have "x - a = y - a" by (simp only: word_unat_eq_iff)
    then show ?thesis by simp
  next
    case False
    with x y assms(1) show ?thesis
      unfolding no_alias_def by (auto simp: mmap_file_def split: if_splits)
  qed
qed

lemma no_alias_mmap_anonymous: "no_alias p \<Longrightarrow> no_alias (mmap_anonymous a sz p)"
  by (auto simp: no_alias_def mmap_anonymous_def split: if_splits)

lemma load_mmap_file:
  assumes "files p f = Some bs" "length bs = unat sz"
  shows "load_byte (mmap_file a sz f p) x =
    (if in_range a (unat sz) x then Some (bs ! unat (x - a)) else load_byte p x)"
  using assms by (auto simp: load_byte_def mmap_file_def in_range_def split: option.splits backing.splits)

lemma load_mmap_anonymous:
  "load_byte (mmap_anonymous a sz p) x =
    (if in_range a (unat sz) x then Some 0 else load_byte p x)"
  by (cases p) (simp add: load_byte_def mmap_anonymous_def split: option.splits backing.splits)

end
