(* ===== verification/Region_Table.thy ===== *)
theory Region_Table
  imports Virtual_Memory Ring_Buffer
begin

text \<open>
  The table of persistent memory regions of \<^verbatim>\<open>region_table/region_table.c\<close>: entry \<open>i\<close> says that
  the file \<^verbatim>\<open>mem_file_<i>\<close> holds the memory at an address range. The table lives in a shared
  file; \<open>rt_process\<close> is what one process holds of it: the table, the process's counter of the
  memory files it has created (the static \<open>sequenceNumber\<close>) and its memory. Files are
  identified by their number; \<open>get_file_name_for_sequence_number\<close> is injective, so different
  numbers are different files.
\<close>

section \<open>Data\<close>

definition INITIAL_TABLE_SIZE :: u64 where "INITIAL_TABLE_SIZE = 65536"
definition MAX_FILE_NAME_SIZE :: nat where "MAX_FILE_NAME_SIZE = 500"

record region_table_entry =
  address :: addr
  file_index :: u64
  mmap_size :: u64
  entry_commit_index :: u64

record region_table =
  table_commit_index :: u64
  currentTableSize :: u64
  number_of_entries :: u64
  uncommited_number_of_entries :: u64
  number_of_new_entries :: u64
  newEntries :: "region_table_entry list"
  needsSync :: bool
  regionTable :: "u64 \<Rightarrow> region_table_entry"

definition zero_region :: region_table_entry where
  "zero_region = \<lparr>address = 0, file_index = 0, mmap_size = 0, entry_commit_index = 0\<rparr>"

definition zero_region_table :: region_table where
  "zero_region_table =
     \<lparr>table_commit_index = 0, currentTableSize = 0, number_of_entries = 0,
      uncommited_number_of_entries = 0, number_of_new_entries = 0,
      newEntries = replicate 16 zero_region, needsSync = False, regionTable = (\<lambda>_. zero_region)\<rparr>"

record rt_process =
  rt :: region_table
  sequenceNumber :: nat
  pmem :: proc_mem

section \<open>File names\<close>

definition MEMORY_DIRECTORY_FILE_PATH :: string where
  "MEMORY_DIRECTORY_FILE_PATH = ''/home/vagrant/mangosteen_pmem_data/test_outputs/maps/''"

text \<open>The conversion \<open>%lu\<close> of \<open>sprintf\<close>.\<close>

definition digit_char :: "nat \<Rightarrow> char" where
  "digit_char d = char_of (48 + d)"

fun decimal :: "nat \<Rightarrow> string" where
  "decimal n = (if n < 10 then [digit_char n] else decimal (n div 10) @ [digit_char (n mod 10)])"

declare decimal.simps [simp del]

definition get_file_name_for_sequence_number :: "u64 \<Rightarrow> string" where
  "get_file_name_for_sequence_number n =
     MEMORY_DIRECTORY_FILE_PATH @ ''mem_file_'' @ decimal (unat n)"

section \<open>Operations\<close>

text \<open>
  \<open>file\<close> is the table found in the file system, \<open>mmap_succeeded\<close> whether \<open>ftruncate\<close> and \<open>mmap\<close>
  succeeded. A table that exists keeps its count of uncommitted entries.
\<close>

definition region_table_create_or_open ::
    "region_table option \<Rightarrow> bool \<Rightarrow> ring_buffer \<Rightarrow> region_table result" where
  "region_table_create_or_open file mmap_succeeded rb =
     (if \<not> mmap_succeeded then Inl AssertFail
      else
        (let tab = (case file of
                      None \<Rightarrow> zero_region_table\<lparr>currentTableSize := INITIAL_TABLE_SIZE,
                                number_of_entries := 0, table_commit_index := 0\<rparr>
                    | Some t \<Rightarrow> t\<lparr>number_of_entries := ucast (numberOfRegions (commit_metadata rb))\<rparr>)
         in Inr (tab\<lparr>number_of_new_entries := 0, needsSync := False\<rparr>)))"

text \<open>Returns the number of the created file in the place of its descriptor.\<close>

definition create_pmem_file :: "kernel \<Rightarrow> u64 \<Rightarrow> rt_process \<Rightarrow> (nat \<times> rt_process) result" where
  "create_pmem_file k sz s =
     (if \<not> ftruncate_ok k sz then Inl ExitFailure
      else Inr (sequenceNumber s,
                s\<lparr>pmem := (pmem s)\<lparr>files := (files (pmem s))(sequenceNumber s \<mapsto> replicate (unat sz) 0)\<rparr>,
                  sequenceNumber := sequenceNumber s + 1\<rparr>))"

definition region_table_commit :: "region_table \<Rightarrow> region_table" where
  "region_table_commit t = t\<lparr>number_of_entries := uncommited_number_of_entries t\<rparr>"

definition region_table_add_region_record :: "addr \<Rightarrow> u64 \<Rightarrow> region_table \<Rightarrow> region_table result" where
  "region_table_add_region_record a sz t =
     (if \<not> uncommited_number_of_entries t < currentTableSize t then Inl AssertFail
      else
        (let n = uncommited_number_of_entries t
         in Inr (t\<lparr>regionTable := (regionTable t)
                     (n := \<lparr>address = a, file_index = n, mmap_size = sz,
                            entry_commit_index = table_commit_index t + 1\<rparr>),
                   uncommited_number_of_entries := n + 1\<rparr>)))"

definition region_table_create_memory_region ::
    "kernel \<Rightarrow> addr \<Rightarrow> u64 \<Rightarrow> rt_process \<Rightarrow> rt_process result" where
  "region_table_create_memory_region k a sz s =
     (case region_table_add_region_record a sz (rt s) of
        Inl e \<Rightarrow> Inl e
      | Inr t \<Rightarrow>
          (case create_pmem_file k sz (s\<lparr>rt := t\<rparr>) of
             Inl e \<Rightarrow> Inl e
           | Inr (fd, s') \<Rightarrow>
               if mmap_ok k a sz then Inr (s'\<lparr>pmem := mmap_file a sz fd (pmem s')\<rparr>)
               else Inl AssertFail))"

section \<open>Layout of the mapped table\<close>

text \<open>Offset of \<open>regionTable[i]\<close> under the x86-64 ABI, and the length that is mapped.\<close>

definition offset_regionTable :: "nat \<Rightarrow> nat" where
  "offset_regionTable i = 1104 + 64 * i"

definition region_table_mapping_length :: nat where
  "region_table_mapping_length = unat INITIAL_TABLE_SIZE * 64"

section \<open>File names are distinct\<close>

lemma digit_char_inj: "d < 10 \<Longrightarrow> e < 10 \<Longrightarrow> digit_char d = digit_char e \<Longrightarrow> d = e"
  unfolding digit_char_def using of_char_of [of "48 + d"] of_char_of [of "48 + e"] by simp

lemma decimal_inj: "decimal m = decimal n \<Longrightarrow> m = n"
proof (induction m arbitrary: n rule: less_induct)
  case (less m)
  have ne: "decimal k \<noteq> []" for k by (subst decimal.simps) simp
  show ?case
  proof (cases "m < 10"; cases "n < 10")
    assume "m < 10" "n < 10"
    with less.prems show ?thesis by (simp add: decimal.simps [of m] decimal.simps [of n] digit_char_inj)
  next
    assume "m < 10" "\<not> n < 10"
    with less.prems ne [of "n div 10"] show ?thesis
      by (simp add: decimal.simps [of m] decimal.simps [of n] Cons_eq_append_conv)
  next
    assume "\<not> m < 10" "n < 10"
    with less.prems ne [of "m div 10"] show ?thesis
      by (simp add: decimal.simps [of m] decimal.simps [of n] append_eq_Cons_conv)
  next
    assume a: "\<not> m < 10" "\<not> n < 10"
    with less.prems have "decimal (m div 10) = decimal (n div 10)" "m mod 10 = n mod 10"
      using digit_char_inj [of "m mod 10" "n mod 10"]
      by (simp_all add: decimal.simps [of m] decimal.simps [of n])
    moreover have "m div 10 < m" using a(1) by simp
    ultimately have "m div 10 = n div 10" "m mod 10 = n mod 10" using less.IH by auto
    then show ?thesis by (metis div_mult_mod_eq)
  qed
qed

lemma decimal_length: "n < 10 ^ Suc k \<Longrightarrow> length (decimal n) \<le> Suc k"
proof (induction k arbitrary: n)
  case 0
  then show ?case by (simp add: decimal.simps)
next
  case (Suc k)
  have "n div 10 < 10 ^ Suc k" using Suc.prems by (simp add: less_mult_imp_div_less mult.commute)
  then show ?case using Suc.IH [of "n div 10"] by (subst decimal.simps) auto
qed

section \<open>The invariant of a process that created all its regions\<close>

text \<open>The part of memory that region \<open>i\<close> of the table describes.\<close>

definition in_region :: "region_table \<Rightarrow> u64 \<Rightarrow> addr \<Rightarrow> bool" where
  "in_region t i x \<longleftrightarrow> in_range (address (regionTable t i)) (unat (mmap_size (regionTable t i))) x"

definition regions_disjoint :: "region_table \<Rightarrow> nat \<Rightarrow> bool" where
  "regions_disjoint t n \<longleftrightarrow>
     (\<forall>i j x. unat i < n \<longrightarrow> unat j < n \<longrightarrow> in_region t i x \<longrightarrow> in_region t j x \<longrightarrow> i = j)"

text \<open>File \<open>i\<close> has the length of region \<open>i\<close>.\<close>

definition files_match :: "region_table \<Rightarrow> (nat \<Rightarrow> byte list option) \<Rightarrow> nat \<Rightarrow> bool" where
  "files_match t fs n \<longleftrightarrow>
     (\<forall>i. unat i < n \<longrightarrow> (\<exists>bs. fs (unat i) = Some bs \<and> length bs = unat (mmap_size (regionTable t i))))"

definition region_inv :: "rt_process \<Rightarrow> bool" where
  "region_inv s \<longleftrightarrow>
     unat (uncommited_number_of_entries (rt s)) = sequenceNumber s \<and>
     number_of_entries (rt s) \<le> uncommited_number_of_entries (rt s) \<and>
     currentTableSize (rt s) = INITIAL_TABLE_SIZE \<and>
     sequenceNumber s \<le> 65536 \<and>
     (\<forall>i. unat i < sequenceNumber s \<longrightarrow> file_index (regionTable (rt s) i) = i) \<and>
     files_match (rt s) (files (pmem s)) (sequenceNumber s) \<and>
     (\<forall>i x. unat i < sequenceNumber s \<longrightarrow> in_region (rt s) i x \<longrightarrow>
        vmap (pmem s) x = Some (File_byte (unat i) (unat (x - address (regionTable (rt s) i))))) \<and>
     (\<forall>x f j. vmap (pmem s) x = Some (File_byte f j) \<longrightarrow> f < sequenceNumber s) \<and>
     no_alias (pmem s)"

lemma add_record_result:
  "region_table_add_region_record a sz t = Inr t' \<longleftrightarrow>
     uncommited_number_of_entries t < currentTableSize t \<and>
     t' = t\<lparr>regionTable := (regionTable t)(uncommited_number_of_entries t :=
               \<lparr>address = a, file_index = uncommited_number_of_entries t, mmap_size = sz,
                entry_commit_index = table_commit_index t + 1\<rparr>),
            uncommited_number_of_entries := uncommited_number_of_entries t + 1\<rparr>"
  by (auto simp: region_table_add_region_record_def Let_def)

lemma create_region_result:
  "region_table_create_memory_region k a sz s = Inr s' \<longleftrightarrow>
     (\<exists>t. region_table_add_region_record a sz (rt s) = Inr t \<and> ftruncate_ok k sz \<and> mmap_ok k a sz \<and>
          s' = s\<lparr>rt := t, sequenceNumber := sequenceNumber s + 1,
                 pmem := mmap_file a sz (sequenceNumber s)
                   ((pmem s)\<lparr>files := (files (pmem s))(sequenceNumber s \<mapsto> replicate (unat sz) 0)\<rparr>)\<rparr>)"
  by (cases s) (auto simp: region_table_create_memory_region_def create_pmem_file_def
      split: sum.splits if_splits)

lemma create_region_outcomes:
  "region_table_create_memory_region k a sz s =
     (if \<not> uncommited_number_of_entries (rt s) < currentTableSize (rt s) then Inl AssertFail
      else if \<not> ftruncate_ok k sz then Inl ExitFailure
      else if \<not> mmap_ok k a sz then Inl AssertFail
      else region_table_create_memory_region k a sz s)"
  by (auto simp: region_table_create_memory_region_def region_table_add_region_record_def
      create_pmem_file_def Let_def)

lemma load_after_create:
  assumes "\<forall>x f j. vmap (pmem s) x = Some (File_byte f j) \<longrightarrow> f < sequenceNumber s"
  shows "load_byte (mmap_file a sz (sequenceNumber s)
           ((pmem s)\<lparr>files := (files (pmem s))(sequenceNumber s \<mapsto> replicate (unat sz) 0)\<rparr>)) x =
         (if in_range a (unat sz) x then Some 0 else load_byte (pmem s) x)"
proof -
  let ?p = "(pmem s)\<lparr>files := (files (pmem s))(sequenceNumber s \<mapsto> replicate (unat sz) 0)\<rparr>"
  have "load_byte ?p x = load_byte (pmem s) x"
    using assms by (auto simp: load_byte_def split: option.splits backing.splits)
  then show ?thesis
    using load_mmap_file [of ?p "sequenceNumber s" "replicate (unat sz) 0" sz a x]
    by (auto simp: in_range_def)
qed

lemma create_region_keeps_inv:
  assumes inv: "region_inv s" and res: "region_table_create_memory_region k a sz s = Inr s'"
    and dis: "\<forall>i x. unat i < sequenceNumber s \<longrightarrow> in_region (rt s) i x \<longrightarrow> \<not> in_range a (unat sz) x"
  shows "region_inv s'"
proof -
  let ?n = "sequenceNumber s" and ?u = "uncommited_number_of_entries (rt s)"
  have u: "unat ?u = ?n" "?u < INITIAL_TABLE_SIZE"
    using inv res by (auto simp: region_inv_def create_region_result add_record_result)
  then have n: "?n < 65536" by (simp add: word_less_nat_alt INITIAL_TABLE_SIZE_def)
  then have u1: "unat (?u + 1) = ?n + 1" using u(1) by (simp add: unat_word_ariths)
  have lt: "unat i < ?n + 1 \<longleftrightarrow> unat i < ?n \<or> i = ?u" for i
    using u(1) by (auto simp: word_unat_eq_iff)
  have ne: "unat i < ?n \<Longrightarrow> i \<noteq> ?u" for i using u(1) by auto
  have fresh: "\<forall>x g j. vmap (pmem s) x = Some (File_byte g j) \<longrightarrow> g < ?n"
    using inv by (simp add: region_inv_def)
  have al: "no_alias (mmap_file a sz ?n
      ((pmem s)\<lparr>files := (files (pmem s))(?n \<mapsto> replicate (unat sz) 0)\<rparr>))"
    using inv fresh by (intro no_alias_mmap_file) (simp_all add: region_inv_def no_alias_def, blast)
  have le: "number_of_entries (rt s) \<le> ?u + 1"
    using inv u1 u(1) by (simp add: region_inv_def word_le_nat_alt)
  from res obtain t where t: "region_table_add_region_record a sz (rt s) = Inr t"
      "s' = s\<lparr>rt := t, sequenceNumber := ?n + 1,
              pmem := mmap_file a sz ?n
                ((pmem s)\<lparr>files := (files (pmem s))(?n \<mapsto> replicate (unat sz) 0)\<rparr>)\<rparr>"
    unfolding create_region_result by blast
  have fm: "files_match t ((files (pmem s))(?n \<mapsto> replicate (unat sz) 0)) (?n + 1)"
    using inv t(1) unfolding files_match_def lt
    by (auto simp: region_inv_def files_match_def add_record_result u(1) ne)
  have rt': "rt s' = t" "sequenceNumber s' = ?n + 1" "uncommited_number_of_entries t = ?u + 1"
      "number_of_entries t = number_of_entries (rt s)" "currentTableSize t = currentTableSize (rt s)"
      "regionTable t = (regionTable (rt s))(?u := \<lparr>address = a, file_index = ?u, mmap_size = sz,
                entry_commit_index = table_commit_index (rt s) + 1\<rparr>)"
      "files (pmem s') = (files (pmem s))(?n \<mapsto> replicate (unat sz) 0)"
      "vmap (pmem s') = (\<lambda>x. if in_range a (unat sz) x then Some (File_byte ?n (unat (x - a))) else vmap (pmem s) x)"
    using t by (simp_all add: add_record_result mmap_file_def cong: if_cong)
  have "\<forall>i x. unat i < ?n + 1 \<longrightarrow> in_region t i x \<longrightarrow>
      vmap (pmem s') x = Some (File_byte (unat i) (unat (x - address (regionTable t i))))"
    using inv dis ne unfolding lt rt'
    by (auto simp: region_inv_def in_region_def rt' u(1))
  moreover have "\<forall>i. unat i < ?n + 1 \<longrightarrow> file_index (regionTable t i) = i"
    using inv ne unfolding lt rt' by (auto simp: region_inv_def)
  moreover have "\<forall>x f j. vmap (pmem s') x = Some (File_byte f j) \<longrightarrow> f < ?n + 1"
    using fresh unfolding rt' by (auto simp: less_Suc_eq split: if_splits)
  ultimately show ?thesis
    using inv n u1 le fm al t(2) unfolding region_inv_def rt' by simp
qed

section \<open>Properties\<close>

text \<open>
  C26: Creating a region that overlaps no recorded one keeps the invariant of the table (entry
  \<open>i\<close> describes file \<open>i\<close>, which has the recorded length and is mapped at the recorded address,
  and no two addresses share a byte of a file). The region reads as zeros, every other address
  reads as before, the record is entry number \<open>uncommited_number_of_entries\<close>, and it becomes
  visible in \<open>number_of_entries\<close> only with \<open>region_table_commit\<close>.
\<close>

theorem create_memory_region_maps_zeros:
  assumes "region_inv s" "region_table_create_memory_region k a sz s = Inr s'"
    and "\<forall>i x. unat i < sequenceNumber s \<longrightarrow> in_region (rt s) i x \<longrightarrow> \<not> in_range a (unat sz) x"
  shows "region_inv s'
    \<and> load_byte (pmem s') = (\<lambda>x. if in_range a (unat sz) x then Some 0 else load_byte (pmem s) x)
    \<and> address (regionTable (rt s') (uncommited_number_of_entries (rt s))) = a
    \<and> mmap_size (regionTable (rt s') (uncommited_number_of_entries (rt s))) = sz
    \<and> number_of_entries (rt s') = number_of_entries (rt s)
    \<and> number_of_entries (region_table_commit (rt s')) = uncommited_number_of_entries (rt s) + 1"
proof -
  have "\<forall>x f j. vmap (pmem s) x = Some (File_byte f j) \<longrightarrow> f < sequenceNumber s"
    using assms(1) by (simp add: region_inv_def)
  from load_after_create [OF this] show ?thesis
    using assms(2) create_region_keeps_inv [OF assms]
    by (auto simp: create_region_result add_record_result region_table_commit_def)
qed

definition accepting_kernel :: kernel where
  "accepting_kernel = \<lparr>mmap_ok = (\<lambda>_ _. True), ftruncate_ok = (\<lambda>_. True)\<rparr>"

definition empty_process :: rt_process where
  "empty_process =
     \<lparr>rt = zero_region_table\<lparr>currentTableSize := INITIAL_TABLE_SIZE\<rparr>, sequenceNumber = 0,
      pmem = \<lparr>vmap = (\<lambda>_. None), anon = (\<lambda>_. 0), files = (\<lambda>_. None)\<rparr>\<rparr>"

lemma empty_process_inv: "region_inv empty_process"
  by (simp add: region_inv_def empty_process_def zero_region_table_def files_match_def no_alias_def)

theorem create_memory_region_maps_zeros_witness:
  "\<exists>s'. region_table_create_memory_region accepting_kernel 4096 64 empty_process = Inr s'
     \<and> load_byte (pmem s') 4100 = Some 0 \<and> load_byte (pmem s') 5000 = None"
proof -
  obtain s' where s': "region_table_create_memory_region accepting_kernel 4096 64 empty_process = Inr s'"
    unfolding create_region_result add_record_result
    by (auto simp: accepting_kernel_def empty_process_def zero_region_table_def
        INITIAL_TABLE_SIZE_def word_less_nat_alt)
  moreover have "load_byte (pmem empty_process) 5000 = None"
    by (simp add: empty_process_def load_byte_def)
  ultimately show ?thesis
    using create_memory_region_maps_zeros [OF empty_process_inv s']
    by (auto simp: empty_process_def in_range_def)
qed

text \<open>
  Creating a region fails in exactly these ways: a full table and a refused mapping fail
  an assertion, a refused \<open>ftruncate\<close> exits, and nothing else goes wrong.
\<close>

lemma create_memory_region_outcomes:
  "(case region_table_create_memory_region k a sz s of
      Inr s' \<Rightarrow> uncommited_number_of_entries (rt s) < currentTableSize (rt s) \<and> ftruncate_ok k sz \<and> mmap_ok k a sz
    | Inl e \<Rightarrow>
        (e = AssertFail \<and> (currentTableSize (rt s) \<le> uncommited_number_of_entries (rt s)
                           \<or> ftruncate_ok k sz \<and> \<not> mmap_ok k a sz))
        \<or> (e = ExitFailure \<and> uncommited_number_of_entries (rt s) < currentTableSize (rt s) \<and> \<not> ftruncate_ok k sz))"
  by (auto simp: region_table_create_memory_region_def region_table_add_region_record_def
      create_pmem_file_def Let_def)

text \<open>
  C31: Different sequence numbers give different memory files, and every name fits the buffer of
  \<open>MAX_FILE_NAME_SIZE\<close> characters with its terminating zero.
\<close>

theorem file_names_distinct_and_bounded:
  "(get_file_name_for_sequence_number m = get_file_name_for_sequence_number n \<longleftrightarrow> m = n)
   \<and> length (get_file_name_for_sequence_number n) < MAX_FILE_NAME_SIZE"
proof -
  have "unat n < 10 ^ Suc 19" using unat_lt64 [of n] by simp
  then have "length (decimal (unat n)) \<le> 20" using decimal_length [of "unat n" 19] by simp
  then show ?thesis
    by (auto simp: get_file_name_for_sequence_number_def MEMORY_DIRECTORY_FILE_PATH_def
        MAX_FILE_NAME_SIZE_def word_unat_eq_iff dest: decimal_inj)
qed

text \<open>
  A process that recovered starts its \<open>sequenceNumber\<close> at 0 again while the table keeps its
  entries. The first region it creates then empties \<open>mem_file_0\<close>, the file of the first
  recorded region, records itself as entry \<open>n\<close> with file index \<open>n\<close>, and creates no file \<open>n\<close>.
\<close>

lemma recovered_process_truncates_first_file:
  assumes "sequenceNumber s = 0" "uncommited_number_of_entries (rt s) = n" "0 < n"
    and "region_table_create_memory_region k a sz s = Inr s'"
  shows "files (pmem s') 0 = Some (replicate (unat sz) 0)
    \<and> file_index (regionTable (rt s') n) = n \<and> files (pmem s') (unat n) = files (pmem s) (unat n)"
proof -
  have "unat n \<noteq> 0" using assms(3) by (simp add: word_less_nat_alt)
  then show ?thesis
    using assms by (auto simp: create_region_result add_record_result mmap_file_def)
qed

definition recovered_example :: rt_process where
  "recovered_example = empty_process
     \<lparr>rt := (rt empty_process)\<lparr>number_of_entries := 1, uncommited_number_of_entries := 1\<rparr>,
      pmem := (pmem empty_process)\<lparr>files := [0 \<mapsto> [1, 2, 3]]\<rparr>\<rparr>"

lemma recovered_process_truncates_first_file_witness:
  "\<exists>s'. region_table_create_memory_region accepting_kernel 8192 2 recovered_example = Inr s'
     \<and> files (pmem s') 0 = Some (replicate 2 0)"
proof -
  obtain s' where "region_table_create_memory_region accepting_kernel 8192 2 recovered_example = Inr s'"
    unfolding create_region_result add_record_result
    by (auto simp: accepting_kernel_def recovered_example_def empty_process_def zero_region_table_def
        INITIAL_TABLE_SIZE_def word_less_nat_alt)
  moreover from recovered_process_truncates_first_file [OF _ _ _ this, of 1]
  have "files (pmem s') 0 = Some (replicate 2 0)"
    by (simp add: recovered_example_def empty_process_def)
  ultimately show ?thesis by blast
qed

text \<open>
  The table assertion admits 65536 entries, but the mapping ends before them: entry 65517 is
  the last one inside the mapped 65536 * 64 bytes.
\<close>

lemma region_table_mapping_too_short:
  "(offset_regionTable i + 64 \<le> region_table_mapping_length) = (i \<le> 65517)"
  by (auto simp: offset_regionTable_def region_table_mapping_length_def INITIAL_TABLE_SIZE_def)

end
