(* ===== verification/Back_End.thy ===== *)
theory Back_End
  imports Region_Table
begin

text \<open>
  The back-end process of \<^verbatim>\<open>back-end/back_end.c\<close>: it dequeues the log and applies it to the
  persistent memory files. \<open>process_entry\<close> is the whole dispatcher; the infinite loop
  \<open>run_consumer\<close> runs over a list of observations, one element per iteration, each with the
  values its busy-wait loads return; the replay loop of recovery has no other process to
  observe and is a partial function. \<open>apply_log\<close> is the specification: what a log does to
  memory.
\<close>

section \<open>State and operations\<close>

record backend =
  be_rb :: ring_buffer
  be_g :: rb_globals
  be_proc :: rt_process

definition commit_batch :: "rb_globals \<Rightarrow> ring_buffer \<Rightarrow> ring_buffer" where
  "commit_batch g rb = ring_buffer_commit_dequeued_entries rb g"

definition commit_rb_batch :: "backend \<Rightarrow> backend" where
  "commit_rb_batch s =
     (let scratch_commit =
            \<lparr>numberOfRegions = ucast (uncommited_number_of_entries (rt (be_proc s))),
             ringBufferHead = ucast (global_local_head (be_g s))\<rparr>;
          rb1 = (be_rb s)\<lparr>commit_metadata := scratch_commit\<rparr>
      in s\<lparr>be_rb := commit_batch (be_g s) rb1,
           be_proc := (be_proc s)\<lparr>rt := region_table_commit (rt (be_proc s))\<rparr>\<rparr>)"

text \<open>The counters \<open>mmapped\<close> and \<open>unmapped\<close> are passed in and out.\<close>

definition addrees_is_mmaped :: "addr \<Rightarrow> region_table \<Rightarrow> nat \<times> nat \<Rightarrow> bool \<times> nat \<times> nat" where
  "addrees_is_mmaped a t = (\<lambda>(mmapped, unmapped).
     (if list_ex (\<lambda>i. address (regionTable t (of_nat i)) \<le> a
                   \<and> a \<le> address (regionTable t (of_nat i)) + mmap_size (regionTable t (of_nat i)))
            [0..<unat (number_of_entries t)]
      then (True, mmapped + 1, unmapped) else (False, mmapped, unmapped + 1)))"

definition set_pmem :: "proc_mem \<Rightarrow> backend \<Rightarrow> backend" where
  "set_pmem p s = s\<lparr>be_proc := (be_proc s)\<lparr>pmem := p\<rparr>\<rparr>"

text \<open>What \<open>process_entry\<close> does with the entry it has dequeued.\<close>

definition handle_entry :: "kernel \<Rightarrow> ring_buffer_entry \<Rightarrow> backend \<Rightarrow> backend result" where
  "handle_entry k e s =
     (if entry_type e = MMAP_ENTRY then
        (let me = map_entry_of e
         in case region_table_create_memory_region k (map_entry_addr me) (map_entry_size me) (be_proc s) of
              Inl err \<Rightarrow> Inl err
            | Inr p \<Rightarrow> Inr (s\<lparr>be_proc := p\<rparr>))
      else if entry_type e = TRANSIENT_MMAP_ENTRY then
        (let me = map_entry_of e
         in if mmap_ok k (map_entry_addr me) (map_entry_size me)
            then Inr (set_pmem (mmap_anonymous (map_entry_addr me) (map_entry_size me) (pmem (be_proc s))) s)
            else Inl AssertFail)
      else if entry_type e = REDO_ENTRY then
        (case memcpy_to (entry_addr e) (take PAYLOAD_SIZE (payload e)) (pmem (be_proc s)) of
           Inl err \<Rightarrow> Inl err
         | Inr p \<Rightarrow> Inr (set_pmem p s))
      else if entry_type e = COMMIT_ENTRY then Inr (commit_rb_batch s)
      else Inl ExitFailure)"

definition process_entry :: "kernel \<Rightarrow> backend \<Rightarrow> u64 list \<Rightarrow> (backend \<times> u64 list) result" where
  "process_entry k s loads =
     (case ring_buffer_dequeue (be_rb s) (be_g s) loads of
        Inl err \<Rightarrow> Inl err
      | Inr (e, g, loads') \<Rightarrow>
          (case handle_entry k e (s\<lparr>be_g := g\<rparr>) of
             Inl err \<Rightarrow> Inl err
           | Inr s' \<Rightarrow> Inr (s', loads')))"

text \<open>
  The wait of \<open>run_consumer\<close> before each entry: \<open>tmp\<close> is the head it holds, and each
  observation is a load of the tail and, when they are equal, a load of the head.
\<close>

fun consumer_wait :: "u64 \<Rightarrow> (u64 \<times> u64) list \<Rightarrow> unit result" where
  "consumer_wait tmp [] = Inl Spinning"
| "consumer_wait tmp ((t, h) # obs) = (if t = tmp then consumer_wait h obs else Inr ())"

fun run_consumer ::
    "kernel \<Rightarrow> (u64 \<times> (u64 \<times> u64) list \<times> u64 list) list \<Rightarrow> backend \<Rightarrow> backend result" where
  "run_consumer k [] s = Inr s"
| "run_consumer k ((tmp, waits, loads) # obs) s =
     (case consumer_wait tmp waits of
        Inl err \<Rightarrow> Inl err
      | Inr _ \<Rightarrow>
          (case process_entry k s loads of
             Inl err \<Rightarrow> Inl err
           | Inr (s', _) \<Rightarrow> run_consumer k obs s'))"

text \<open>
  Mapping the recorded regions again. A file that cannot be opened gives the descriptor -1,
  and \<open>mmap\<close> then fails.
\<close>

fun remap_regions :: "kernel \<Rightarrow> region_table \<Rightarrow> nat list \<Rightarrow> proc_mem \<Rightarrow> proc_mem result" where
  "remap_regions k t [] p = Inr p"
| "remap_regions k t (i # is) p =
     (let r = regionTable t (of_nat i)
      in if files p i \<noteq> None \<and> mmap_ok k (address r) (mmap_size r)
         then remap_regions k t is (mmap_file (address r) (mmap_size r) i p)
         else Inl AssertFail)"

definition remap_backend :: "kernel \<Rightarrow> backend \<Rightarrow> backend result" where
  "remap_backend k s =
     (case remap_regions k (rt (be_proc s)) [0..<unat (number_of_entries (rt (be_proc s)))]
             (pmem (be_proc s)) of
        Inl err \<Rightarrow> Inl err
      | Inr p \<Rightarrow> Inr (set_pmem p s))"

text \<open>The loop \<open>while (remote_head != remote_tail) process_entry(...)\<close>.\<close>

partial_function (option) replay_log :: "kernel \<Rightarrow> backend \<Rightarrow> backend result option" where
  "replay_log k s =
     (if remote_head (be_rb s) = remote_tail (be_rb s) then Some (Inr s)
      else (case process_entry k s [last_persisted_tail (be_rb s)] of
              Inl err \<Rightarrow> Some (Inl err)
            | Inr (s', _) \<Rightarrow> replay_log k s'))"

text \<open>The recovery branch of \<open>start_back_end\<close> up to the wake-up of the front end.\<close>

definition start_back_end_recovery :: "kernel \<Rightarrow> backend \<Rightarrow> backend result option" where
  "start_back_end_recovery k s =
     (case remap_backend k s of
        Inl err \<Rightarrow> Some (Inl err)
      | Inr s1 \<Rightarrow>
          replay_log k (s1\<lparr>be_proc := (be_proc s1)\<lparr>rt := (rt (be_proc s1))
            \<lparr>number_of_entries := ucast (numberOfRegions (commit_metadata (be_rb s1)))\<rparr>\<rparr>\<rparr>))"

section \<open>The specification of a log\<close>

definition apply_entry :: "ring_buffer_entry \<Rightarrow> mem \<Rightarrow> mem" where
  "apply_entry e m =
     (if entry_type e = REDO_ENTRY then write_bytes m (entry_addr e) (payload e) else m)"

definition apply_log :: "ring_buffer_entry list \<Rightarrow> mem \<Rightarrow> mem" where
  "apply_log es m = fold apply_entry es m"

text \<open>The bytes a log writes.\<close>

definition log_writes :: "ring_buffer_entry list \<Rightarrow> addr \<Rightarrow> bool" where
  "log_writes es x \<longleftrightarrow> (\<exists>e\<in>set es. entry_type e = REDO_ENTRY \<and> in_range (entry_addr e) (length (payload e)) x)"

definition redo_log :: "ring_buffer_entry list \<Rightarrow> bool" where
  "redo_log es \<longleftrightarrow>
     (\<forall>e\<in>set es. (entry_type e = REDO_ENTRY \<and> length (payload e) = PAYLOAD_SIZE)
                  \<or> entry_type e = COMMIT_ENTRY)"

lemma apply_log_append [simp]: "apply_log (es @ es') m = apply_log es' (apply_log es m)"
  by (simp add: apply_log_def)

lemma apply_log_Nil [simp]: "apply_log [] m = m"
  by (simp add: apply_log_def)

lemma apply_log_Cons [simp]: "apply_log (e # es) m = apply_log es (apply_entry e m)"
  by (simp add: apply_log_def)

text \<open>The last writer of a byte decides its value, whatever was there before.\<close>

lemma apply_entry_determined:
  "m x = m' x \<Longrightarrow> apply_entry e m x = apply_entry e m' x"
  by (simp add: apply_entry_def write_bytes_def)

lemma apply_log_determined:
  "m x = m' x \<or> log_writes es x \<Longrightarrow> apply_log es m x = apply_log es m' x"
proof (induction es arbitrary: m m')
  case Nil
  then show ?case by (simp add: log_writes_def)
next
  case (Cons e es)
  show ?case
  proof (cases "log_writes es x")
    case True
    then show ?thesis using Cons.IH by simp
  next
    case False
    with Cons.prems have "apply_entry e m x = apply_entry e m' x"
      by (auto simp: log_writes_def apply_entry_def write_bytes_def in_range_def)
    then show ?thesis using Cons.IH by simp
  qed
qed

lemma apply_log_outside: "\<not> log_writes es x \<Longrightarrow> apply_log es m x = m x"
proof (induction es arbitrary: m)
  case Nil
  then show ?case by simp
next
  case (Cons e es)
  then have "apply_entry e m x = m x" "\<not> log_writes es x"
    by (auto simp: log_writes_def apply_entry_def write_bytes_outside)
  with Cons.IH show ?case by simp
qed

lemma log_writes_take: "log_writes (take j es) x \<Longrightarrow> log_writes es x"
  by (auto simp: log_writes_def dest: in_set_takeD)

lemma replay_after_prefix: "apply_log es (apply_log (take j es) m) = apply_log es m"
proof
  fix x
  show "apply_log es (apply_log (take j es) m) x = apply_log es m x"
    using apply_log_determined [of "apply_log (take j es) m" x m es]
      apply_log_outside [of "take j es" x m] log_writes_take [of j es x] by auto
qed

section \<open>One entry refines the specification\<close>

abbreviation be_contents :: "backend \<Rightarrow> mem" where
  "be_contents s \<equiv> contents (pmem (be_proc s))"

abbreviation be_mapped :: "backend \<Rightarrow> addr \<Rightarrow> bool" where
  "be_mapped s \<equiv> mapped (pmem (be_proc s))"

definition advance :: "backend \<Rightarrow> backend" where
  "advance s = s\<lparr>be_g := (be_g s)\<lparr>global_local_head := next_index (global_local_head (be_g s))\<rparr>\<rparr>"

lemma process_entry_nonempty:
  assumes "global_local_head (be_g s) \<noteq> global_local_tail (be_g s)"
  shows "process_entry k s loads =
    (case handle_entry k (buffer (be_rb s) (global_local_head (be_g s))) (advance s) of
       Inl err \<Rightarrow> Inl err | Inr s' \<Rightarrow> Inr (s', loads))"
proof -
  have "ring_buffer_dequeue (be_rb s) (be_g s) loads =
      Inr (buffer (be_rb s) (global_local_head (be_g s)), be_g (advance s), loads)"
    using assms by (cases loads) (auto simp: ring_buffer_dequeue_def advance_def Let_def)
  moreover have "s\<lparr>be_g := be_g (advance s)\<rparr> = advance s" by (simp add: advance_def)
  ultimately show ?thesis by (simp add: process_entry_def)
qed

lemma handle_redo:
  assumes "entry_type e = REDO_ENTRY" "length (payload e) = PAYLOAD_SIZE" "no_alias (pmem (be_proc s))"
    and "\<forall>x. in_range (entry_addr e) 32 x \<longrightarrow> be_mapped s x"
  shows "\<exists>p. handle_entry k e s = Inr (set_pmem p s) \<and> no_alias p \<and> mapped p = be_mapped s
    \<and> contents p = apply_entry e (be_contents s)"
proof -
  obtain p where "memcpy_to (entry_addr e) (payload e) (pmem (be_proc s)) = Inr p" "no_alias p"
      "mapped p = be_mapped s" "contents p = write_bytes (be_contents s) (entry_addr e) (payload e)"
    using memcpy_to_ok [OF assms(3), of "payload e" "entry_addr e"] assms(2,4)
    by (auto simp: PAYLOAD_SIZE_def)
  then show ?thesis
    using assms(1,2) by (intro exI [of _ p]) (simp add: handle_entry_def entry_type_defs apply_entry_def)
qed

lemma handle_commit: "entry_type e = COMMIT_ENTRY \<Longrightarrow> handle_entry k e s = Inr (commit_rb_batch s)"
  by (simp add: handle_entry_def entry_type_defs)

lemma commit_rb_batch_fields:
  "be_g (commit_rb_batch s) = be_g s"
  "pmem (be_proc (commit_rb_batch s)) = pmem (be_proc s)"
  "buffer (be_rb (commit_rb_batch s)) = buffer (be_rb s)"
  "remote_tail (be_rb (commit_rb_batch s)) = remote_tail (be_rb s)"
  "remote_head (be_rb (commit_rb_batch s)) = global_local_head (be_g s)"
  "ringBufferHead (commit_metadata (be_rb (commit_rb_batch s))) = ucast (global_local_head (be_g s))"
  by (simp_all add: commit_rb_batch_def commit_batch_def ring_buffer_commit_dequeued_entries_def Let_def)

lemma advance_fields [simp]:
  "be_rb (advance s) = be_rb s" "be_proc (advance s) = be_proc s"
  "global_local_head (be_g (advance s)) = next_index (global_local_head (be_g s))"
  "global_local_tail (be_g (advance s)) = global_local_tail (be_g s)"
  by (simp_all add: advance_def)

lemma set_pmem_fields [simp]:
  "be_rb (set_pmem p s) = be_rb s" "be_g (set_pmem p s) = be_g s" "pmem (be_proc (set_pmem p s)) = p"
  by (simp_all add: set_pmem_def)

section \<open>The replay loop\<close>

text \<open>A back end that is about to replay \<open>es\<close>: they are what its queue holds, and it can reach
  every byte they write.\<close>

definition replaying :: "ring_buffer_entry list \<Rightarrow> backend \<Rightarrow> bool" where
  "replaying es s \<longleftrightarrow>
     valid_index (global_local_head (be_g s)) \<and> valid_index (remote_tail (be_rb s)) \<and>
     global_local_tail (be_g s) = remote_tail (be_rb s) \<and>
     rb_entries (buffer (be_rb s)) (global_local_head (be_g s)) (remote_tail (be_rb s)) = es \<and>
     (remote_head (be_rb s) = remote_tail (be_rb s) \<longleftrightarrow> es = []) \<and>
     redo_log es \<and> (es \<noteq> [] \<longrightarrow> entry_type (last es) = COMMIT_ENTRY) \<and>
     no_alias (pmem (be_proc s)) \<and> (\<forall>x. log_writes es x \<longrightarrow> be_mapped s x)"

lemma replaying_Cons:
  assumes "replaying (e # es) s"
  shows "global_local_head (be_g s) \<noteq> global_local_tail (be_g s)
    \<and> buffer (be_rb s) (global_local_head (be_g s)) = e
    \<and> rb_entries (buffer (be_rb s)) (next_index (global_local_head (be_g s))) (remote_tail (be_rb s)) = es
    \<and> valid_index (next_index (global_local_head (be_g s)))"
proof -
  let ?h = "global_local_head (be_g s)" and ?t = "remote_tail (be_rb s)"
  have v: "valid_index ?h" "valid_index ?t" "rb_entries (buffer (be_rb s)) ?h ?t = e # es"
      "global_local_tail (be_g s) = ?t"
    using assms by (simp_all add: replaying_def)
  then have "?h \<noteq> ?t" by auto
  with v rb_entries_get [of ?h ?t "buffer (be_rb s)"] show ?thesis by auto
qed

lemma replay_step:
  assumes "replaying (e # es) s"
  shows "\<exists>s'. process_entry k s loads = Inr (s', loads) \<and> replaying es s'
    \<and> be_contents s' = apply_entry e (be_contents s) \<and> be_mapped s' = be_mapped s
    \<and> (es = [] \<longrightarrow> ringBufferHead (commit_metadata (be_rb s')) = ucast (remote_tail (be_rb s)))
    \<and> remote_tail (be_rb s') = remote_tail (be_rb s)"
proof -
  note hd = replaying_Cons [OF assms]
  note p = process_entry_nonempty [of s k loads, OF conjunct1 [OF hd]]
  have lw: "log_writes es x \<Longrightarrow> log_writes (e # es) x" for x by (auto simp: log_writes_def)
  have e: "(entry_type e = REDO_ENTRY \<and> length (payload e) = PAYLOAD_SIZE) \<or> entry_type e = COMMIT_ENTRY"
    using assms by (simp add: replaying_def redo_log_def)
  then show ?thesis
  proof
    assume r: "entry_type e = REDO_ENTRY \<and> length (payload e) = PAYLOAD_SIZE"
    then have "es \<noteq> []" using assms by (auto simp: replaying_def entry_type_defs)
    moreover have "\<forall>x. in_range (entry_addr e) 32 x \<longrightarrow> be_mapped (advance s) x"
      using assms r by (auto simp: replaying_def log_writes_def PAYLOAD_SIZE_def)
    then obtain q where "handle_entry k e (advance s) = Inr (set_pmem q (advance s))" "no_alias q"
        "mapped q = be_mapped s" "contents q = apply_entry e (be_contents s)"
      using handle_redo [of e "advance s" k] r assms by (auto simp: replaying_def)
    ultimately show ?thesis
      using assms p hd lw by (intro exI [of _ "set_pmem q (advance s)"]) (auto simp: replaying_def redo_log_def)
  next
    assume c: "entry_type e = COMMIT_ENTRY"
    have nil: "es = [] \<longleftrightarrow> next_index (global_local_head (be_g s)) = remote_tail (be_rb s)"
      using hd assms rb_entries_Nil_iff [of "next_index (global_local_head (be_g s))" "remote_tail (be_rb s)"]
      by (auto simp: replaying_def)
    have "apply_entry e (be_contents s) = be_contents s" using c by (simp add: apply_entry_def entry_type_defs)
    then show ?thesis
      using assms p hd lw c nil
      by (intro exI [of _ "commit_rb_batch (advance s)"])
        (auto simp: replaying_def redo_log_def handle_commit commit_rb_batch_fields)
  qed
qed

lemma replay_ok:
  "replaying es s \<Longrightarrow>
   \<exists>s'. replay_log k s = Some (Inr s') \<and> replaying [] s' \<and> be_contents s' = apply_log es (be_contents s)
     \<and> be_mapped s' = be_mapped s
     \<and> (es \<noteq> [] \<longrightarrow> ringBufferHead (commit_metadata (be_rb s')) = ucast (remote_tail (be_rb s)))"
proof (induction es arbitrary: s)
  case Nil
  then show ?case
    by (subst replay_log.simps) (auto simp: replaying_def)
next
  case (Cons e es)
  obtain s1 where s1: "process_entry k s [last_persisted_tail (be_rb s)] = Inr (s1, [last_persisted_tail (be_rb s)])"
      "replaying es s1" "be_contents s1 = apply_entry e (be_contents s)" "be_mapped s1 = be_mapped s"
      "es = [] \<longrightarrow> ringBufferHead (commit_metadata (be_rb s1)) = ucast (remote_tail (be_rb s))"
      "remote_tail (be_rb s1) = remote_tail (be_rb s)"
    using replay_step [OF Cons.prems] by blast
  obtain s' where s': "replay_log k s1 = Some (Inr s')" "replaying [] s'"
      "be_contents s' = apply_log es (be_contents s1)" "be_mapped s' = be_mapped s1"
      "es \<noteq> [] \<longrightarrow> ringBufferHead (commit_metadata (be_rb s')) = ucast (remote_tail (be_rb s1))"
    using Cons.IH [OF s1(2)] by blast
  have "remote_head (be_rb s) \<noteq> remote_tail (be_rb s)" using Cons.prems by (simp add: replaying_def)
  then have "replay_log k s = Some (Inr s')"
    using s1(1) s'(1) by (subst replay_log.simps) simp
  moreover have "es = [] \<Longrightarrow> s' = s1"
    using s'(1) s1(2) by (subst (asm) replay_log.simps) (auto simp: replaying_def)
  ultimately show ?case using s1 s' by auto
qed

text \<open>
  What the consumer leaves of the indices: it never moves a tail, and \<open>last_persisted_head\<close> stays equal to
  \<open>remote_head\<close>.
\<close>

definition ring_indices :: "backend \<Rightarrow> u64 \<times> u64 \<times> bool" where
  "ring_indices s =
     (remote_tail (be_rb s), last_persisted_tail (be_rb s), last_persisted_head (be_rb s) = remote_head (be_rb s))"

lemma process_entry_indices:
  assumes "process_entry k s loads = Inr (s', loads')" "last_persisted_head (be_rb s) = remote_head (be_rb s)"
  shows "ring_indices s' = ring_indices s"
proof -
  obtain e g where h: "handle_entry k e (s\<lparr>be_g := g\<rparr>) = Inr s'"
    using assms(1) by (auto simp: process_entry_def split: sum.splits prod.splits)
  then show ?thesis
    using assms(2)
    by (auto simp: handle_entry_def ring_indices_def set_pmem_def commit_rb_batch_def commit_batch_def
        ring_buffer_commit_dequeued_entries_def Let_def split: if_splits sum.splits)
qed

lemma replay_indices:
  assumes "replay_log k s = Some r" "last_persisted_head (be_rb s) = remote_head (be_rb s)" "r = Inr s'"
  shows "ring_indices s' = ring_indices s"
proof -
  let ?P = "\<lambda>k s r. last_persisted_head (be_rb s) = remote_head (be_rb s) \<longrightarrow> (\<forall>s'. r = Inr s' \<longrightarrow> ring_indices s' = ring_indices s)"
  have "?P k s r"
  proof (rule replay_log.raw_induct [where P = ?P, OF _ assms(1)], intro impI allI)
    fix rec k s r s'
    assume IH: "\<And>k s r. rec k s = Some r \<Longrightarrow> ?P k s r"
      and step: "(if remote_head (be_rb s) = remote_tail (be_rb s) then Some (Inr s)
        else case process_entry k s [last_persisted_tail (be_rb s)] of
               Inl err \<Rightarrow> Some (Inl err) | Inr (s', _) \<Rightarrow> rec k s') = Some r"
      and eq: "last_persisted_head (be_rb s) = remote_head (be_rb s)" and r: "r = Inr s'"
    show "ring_indices s' = ring_indices s"
    proof (cases "remote_head (be_rb s) = remote_tail (be_rb s)")
      case False
      then obtain s1 l where s1: "process_entry k s [last_persisted_tail (be_rb s)] = Inr (s1, l)" "rec k s1 = Some r"
        using step r by (auto split: sum.splits prod.splits)
      have i: "ring_indices s1 = ring_indices s" using process_entry_indices [OF s1(1) eq] .
      then have "last_persisted_head (be_rb s1) = remote_head (be_rb s1)" using eq by (simp add: ring_indices_def)
      then show ?thesis using IH [OF s1(2)] r i by simp
    qed (use step r in simp)
  qed
  then show ?thesis using assms(2,3) by blast
qed

section \<open>What recovery needs besides memory contents\<close>

text \<open>Stores change bytes, never the mappings or the lengths of the files.\<close>

definition same_layout :: "proc_mem \<Rightarrow> proc_mem \<Rightarrow> bool" where
  "same_layout p q \<longleftrightarrow>
     vmap q = vmap p \<and> (\<forall>f. map_option length (files q f) = map_option length (files p f))"

lemma store_byte_layout: "store_byte a b p = Inr q \<Longrightarrow> same_layout p q"
  by (auto simp: store_byte_def same_layout_def split: option.splits backing.splits if_splits)

lemma memcpy_to_layout: "memcpy_to a bs p = Inr q \<Longrightarrow> same_layout p q"
proof (induction bs arbitrary: a p)
  case Nil
  then show ?case by (simp add: same_layout_def)
next
  case (Cons b bs)
  then obtain r where "store_byte a b p = Inr r" "memcpy_to (a + 1) bs r = Inr q"
    by (auto split: sum.splits)
  with Cons.IH [of "a + 1" r] store_byte_layout [of a b p r] show ?case
    by (simp add: same_layout_def)
qed

lemma region_inv_layout:
  assumes "region_inv s" "same_layout (pmem s) q"
  shows "region_inv (s\<lparr>pmem := q\<rparr>)"
proof -
  have "\<exists>bs. files q f = Some bs \<and> length bs = n" if "files (pmem s) f = Some bs" "length bs = n" for f bs n
  proof -
    have "map_option length (files q f) = Some n" using that assms(2) by (simp add: same_layout_def)
    then show ?thesis by (cases "files q f") auto
  qed
  then have "files_match (rt s) (files q) (sequenceNumber s)"
    using assms(1) unfolding region_inv_def files_match_def by blast
  with assms show ?thesis by (simp add: region_inv_def same_layout_def no_alias_def)
qed

lemma region_inv_commit:
  "region_inv s \<Longrightarrow> region_inv (s\<lparr>rt := region_table_commit (rt s)\<rparr>)"
  by (simp add: region_inv_def region_table_commit_def files_match_def in_region_def)

text \<open>
  The regions are recorded: the table, the files and the mappings fit together, and every record of the table
  is committed. A process that has recovered counts its memory files from 0 again, so the invariant is read
  with the number of the records in the place of its counter. In a first run this holds from
  \<open>synchronize_address_space\<close> on, which commits the table only. The back end is settled when the commit
  record of the log names the regions too: from the first commit entry it has consumed on.
\<close>

definition numbered :: "rt_process \<Rightarrow> rt_process" where
  "numbered p = p\<lparr>sequenceNumber := unat (uncommited_number_of_entries (rt p))\<rparr>"

definition regions_recorded :: "backend \<Rightarrow> bool" where
  "regions_recorded s \<longleftrightarrow>
     region_inv (numbered (be_proc s)) \<and>
     number_of_entries (rt (be_proc s)) = uncommited_number_of_entries (rt (be_proc s))"

definition settled :: "backend \<Rightarrow> bool" where
  "settled s \<longleftrightarrow>
     regions_recorded s \<and> ucast (numberOfRegions (commit_metadata (be_rb s))) = number_of_entries (rt (be_proc s))"

definition has_commit :: "ring_buffer_entry list \<Rightarrow> bool" where
  "has_commit es \<longleftrightarrow> (\<exists>e\<in>set es. entry_type e = COMMIT_ENTRY)"

lemma numbered_fields [simp]:
  "rt (numbered p) = rt p" "pmem (numbered p) = pmem p"
  "sequenceNumber (numbered p) = unat (uncommited_number_of_entries (rt p))"
  by (simp_all add: numbered_def)

lemma numbered_pmem: "numbered (p\<lparr>pmem := q\<rparr>) = (numbered p)\<lparr>pmem := q\<rparr>"
  by (simp add: numbered_def)

lemma region_inv_numbered: "region_inv p \<Longrightarrow> region_inv (numbered p)"
proof -
  assume inv: "region_inv p"
  then have "numbered p = p" by (simp add: numbered_def region_inv_def)
  with inv show ?thesis by simp
qed

lemma settled_recorded: "settled s \<Longrightarrow> regions_recorded s"
  by (simp add: settled_def)

lemma has_commit_simps [simp]:
  "\<not> has_commit []" "has_commit (e # es) \<longleftrightarrow> entry_type e = COMMIT_ENTRY \<or> has_commit es"
  by (auto simp: has_commit_def)

lemma recorded_set_pmem:
  assumes "regions_recorded s" "same_layout (pmem (be_proc s)) q"
  shows "regions_recorded (set_pmem q s)"
  using assms region_inv_layout [of "numbered (be_proc s)" q] by (simp add: regions_recorded_def set_pmem_def numbered_pmem)

lemma ucast_small: "unat (n :: u64) < 2 ^ 32 \<Longrightarrow> ucast (ucast n :: u32) = n"
  by (simp add: word_unat_eq_iff unsigned_ucast_eq unsigned_take_bit_eq take_bit_nat_eq_self)

lemma commit_settles:
  assumes "regions_recorded s"
  shows "settled (commit_rb_batch s) \<and> rt (be_proc (commit_rb_batch s)) = rt (be_proc s)"
proof -
  have n: "unat (uncommited_number_of_entries (rt (be_proc s))) < 2 ^ 32"
      "number_of_entries (rt (be_proc s)) = uncommited_number_of_entries (rt (be_proc s))"
    using assms by (simp_all add: regions_recorded_def region_inv_def)
  have p: "be_proc (commit_rb_batch s) = be_proc s"
    using n(2) by (simp add: commit_rb_batch_def region_table_commit_def Let_def)
  have "ucast (numberOfRegions (commit_metadata (be_rb (commit_rb_batch s)))) = uncommited_number_of_entries (rt (be_proc s))"
    using ucast_small [OF n(1)]
    by (simp add: commit_rb_batch_def commit_batch_def ring_buffer_commit_dequeued_entries_def Let_def)
  then show ?thesis using assms n(2) unfolding settled_def regions_recorded_def p by simp
qed

text \<open>A redo entry leaves the table and the commit record alone; a commit entry settles the back end.\<close>

lemma recorded_step:
  assumes "regions_recorded s" "global_local_head (be_g s) \<noteq> global_local_tail (be_g s)"
    and "e = buffer (be_rb s) (global_local_head (be_g s))" "entry_type e \<in> {REDO_ENTRY, COMMIT_ENTRY}"
    and "process_entry k s loads = Inr (s', loads')"
  shows "regions_recorded s' \<and> rt (be_proc s') = rt (be_proc s)
    \<and> (settled s \<or> entry_type e = COMMIT_ENTRY \<longrightarrow> settled s')
    \<and> (entry_type e \<noteq> COMMIT_ENTRY \<longrightarrow> commit_metadata (be_rb s') = commit_metadata (be_rb s))"
proof -
  have h: "handle_entry k e (advance s) = Inr s'"
    using assms(3,5) process_entry_nonempty [OF assms(2), of k loads] by (auto split: sum.splits)
  have adv: "regions_recorded (advance s)" using assms(1) by (simp add: regions_recorded_def)
  show ?thesis
  proof (cases "entry_type e = COMMIT_ENTRY")
    case True
    then have s': "s' = commit_rb_batch (advance s)" using h handle_commit [of e k "advance s"] by simp
    show ?thesis using True commit_settles [OF adv] settled_recorded unfolding s' by simp
  next
    case False
    then obtain q where q: "memcpy_to (entry_addr e) (take PAYLOAD_SIZE (payload e)) (pmem (be_proc s)) = Inr q"
        "s' = set_pmem q (advance s)"
      using h assms(4) by (auto simp: handle_entry_def entry_type_defs split: sum.splits)
    have "regions_recorded s'" "rt (be_proc s') = rt (be_proc s)"
      using recorded_set_pmem [OF adv, of q] memcpy_to_layout [OF q(1)] q(2) by (simp_all add: set_pmem_def)
    then show ?thesis using False q(2) by (simp add: settled_def)
  qed
qed

section \<open>The consumer loop before a crash\<close>

text \<open>The entries that are not yet released: recovery starts at \<open>remote_head\<close>.\<close>

definition unreleased :: "backend \<Rightarrow> ring_buffer_entry list" where
  "unreleased s = rb_entries (buffer (be_rb s)) (remote_head (be_rb s)) (remote_tail (be_rb s))"

lemma unreleased_step:
  assumes "replaying (e # es) s" "process_entry k s loads = Inr (s', loads')"
  shows "unreleased s' = (if entry_type e = COMMIT_ENTRY then es else unreleased s)
    \<and> (remote_head (be_rb s') = remote_head (be_rb s) \<or> valid_index (remote_head (be_rb s')))"
proof -
  note hd = replaying_Cons [OF assms(1)]
  have h: "handle_entry k e (advance s) = Inr s'"
    using assms(2) process_entry_nonempty [of s k loads, OF conjunct1 [OF hd]] hd by (auto split: sum.splits)
  have ty: "entry_type e = REDO_ENTRY \<or> entry_type e = COMMIT_ENTRY"
    using assms(1) by (auto simp: replaying_def redo_log_def)
  show ?thesis
  proof (cases "entry_type e = COMMIT_ENTRY")
    case True
    then show ?thesis
      using h hd by (auto simp: handle_commit unreleased_def commit_rb_batch_fields)
  next
    case False
    then obtain q where "s' = set_pmem q (advance s)"
      using h ty by (auto simp: handle_entry_def entry_type_defs split: sum.splits)
    with False show ?thesis by (simp add: unreleased_def)
  qed
qed

lemma consumer_run:
  assumes "replaying es s" "regions_recorded s" "unreleased s = us @ es" "valid_index (remote_head (be_rb s))"
    and "length obs \<le> length es" "run_consumer k obs s = Inr s'"
  shows "replaying (drop (length obs) es) s' \<and> regions_recorded s' \<and> rt (be_proc s') = rt (be_proc s)
    \<and> (settled s \<or> has_commit (take (length obs) es) \<longrightarrow> settled s')
    \<and> (\<not> has_commit (take (length obs) es) \<longrightarrow> commit_metadata (be_rb s') = commit_metadata (be_rb s))
    \<and> be_contents s' = apply_log (take (length obs) es) (be_contents s)
    \<and> valid_index (remote_head (be_rb s'))
    \<and> (\<exists>c \<le> length us + length obs. unreleased s' = drop c (us @ es))"
  using assms
proof (induction obs arbitrary: es s us)
  case Nil
  then show ?case by (auto intro: exI [of _ 0])
next
  case (Cons o1 obs)
  then obtain e es' where es: "es = e # es'" by (cases es) auto
  obtain tmp waits loads where o1: "o1 = (tmp, waits, loads)" by (cases o1)
  obtain s1 l1 where s1: "process_entry k s loads = Inr (s1, l1)" "run_consumer k obs s1 = Inr s'"
    using Cons.prems(6) o1 by (auto split: sum.splits)
  have st: "replaying es' s1" "be_contents s1 = apply_entry e (be_contents s)"
    using replay_step [of e es' s k loads] Cons.prems(1) es s1(1) by auto
  have hd: "global_local_head (be_g s) \<noteq> global_local_tail (be_g s)" "e = buffer (be_rb s) (global_local_head (be_g s))"
      "entry_type e \<in> {REDO_ENTRY, COMMIT_ENTRY}"
    using replaying_Cons [of e es' s] Cons.prems(1) es by (auto simp: replaying_def redo_log_def)
  note se = recorded_step [OF Cons.prems(2) hd s1(1)]
  note un = unreleased_step [OF Cons.prems(1) [unfolded es] s1(1)]
  have v: "valid_index (remote_head (be_rb s1))" using un Cons.prems(4) by auto
  have len: "length obs \<le> length es'" using Cons.prems(5) es by simp
  show ?case
  proof (cases "entry_type e = COMMIT_ENTRY")
    case True
    then have "unreleased s1 = [] @ es'" using un by simp
    note ih = Cons.IH [OF st(1) conjunct1 [OF se] this v len s1(2)]
    then obtain c where "c \<le> length obs" "unreleased s' = drop c es'" by auto
    then have "\<exists>c \<le> length us + length (o1 # obs). unreleased s' = drop c (us @ es)"
      using es by (auto intro: exI [of _ "length us + Suc c"])
    then show ?thesis using ih es st se True by auto
  next
    case False
    then have "unreleased s1 = (us @ [e]) @ es'" using un Cons.prems(3) es by simp
    from Cons.IH [OF st(1) conjunct1 [OF se] this v len s1(2)] show ?thesis
      using es st se False by auto
  qed
qed

text \<open>The consumer can get through a log of this kind.\<close>

lemma consumer_completes:
  "replaying es s \<Longrightarrow> \<exists>obs s'. length obs = length es \<and> run_consumer k obs s = Inr s'"
proof (induction es arbitrary: s)
  case Nil
  then show ?case by (intro exI [of _ "[]"]) simp
next
  case (Cons e es)
  obtain s1 where s1: "process_entry k s [] = Inr (s1, [])" "replaying es s1"
    using replay_step [OF Cons.prems] by blast
  obtain obs s' where "length obs = length es" "run_consumer k obs s1 = Inr s'" using Cons.IH [OF s1(2)] by blast
  then show ?case using s1(1) by (intro exI [of _ "(0, [(1, 0)], []) # obs"]) simp
qed

text \<open>The replay leaves a settled back end settled.\<close>

lemma replay_settled:
  "replaying es s \<Longrightarrow> settled s \<Longrightarrow> replay_log k s = Some (Inr s') \<Longrightarrow>
   settled s' \<and> rt (be_proc s') = rt (be_proc s)"
proof (induction es arbitrary: s)
  case Nil
  then show ?case by (subst (asm) replay_log.simps) (auto simp: replaying_def)
next
  case (Cons e es)
  let ?l = "[last_persisted_tail (be_rb s)]"
  obtain s1 where s1: "process_entry k s ?l = Inr (s1, ?l)" "replaying es s1"
    using replay_step [OF Cons.prems(1)] by blast
  have hd: "global_local_head (be_g s) \<noteq> global_local_tail (be_g s)" "e = buffer (be_rb s) (global_local_head (be_g s))"
      "entry_type e \<in> {REDO_ENTRY, COMMIT_ENTRY}" "remote_head (be_rb s) \<noteq> remote_tail (be_rb s)"
    using replaying_Cons [OF Cons.prems(1)] Cons.prems(1) by (auto simp: replaying_def redo_log_def)
  have "replay_log k s1 = Some (Inr s')"
    using Cons.prems(3) s1(1) hd(4) by (subst (asm) replay_log.simps) simp
  moreover note recorded_step [OF settled_recorded [OF Cons.prems(2)] hd(1-3) s1(1)]
  ultimately show ?case using Cons.IH [OF s1(2)] Cons.prems(2) by simp
qed

section \<open>Mapping the regions again\<close>

lemma remap_regions_ok:
  assumes "\<forall>i\<in>set is. files p i \<noteq> None
      \<and> mmap_ok k (address (regionTable t (of_nat i))) (mmap_size (regionTable t (of_nat i)))"
  shows "\<exists>q. remap_regions k t is p = Inr q \<and> files q = files p \<and> anon q = anon p
    \<and> (\<forall>x. (\<forall>i\<in>set is. \<not> in_region t (of_nat i) x) \<longrightarrow> vmap q x = vmap p x)
    \<and> (\<forall>x i. i \<in> set is \<longrightarrow> in_region t (of_nat i) x \<longrightarrow>
         (\<forall>j\<in>set is. in_region t (of_nat j) x \<longrightarrow> j = i) \<longrightarrow>
         vmap q x = Some (File_byte i (unat (x - address (regionTable t (of_nat i))))))"
  using assms
proof (induction "is" arbitrary: p)
  case Nil
  then show ?case by simp
next
  case (Cons i "is")
  let ?r = "regionTable t (of_nat i)"
  let ?p = "mmap_file (address ?r) (mmap_size ?r) i p"
  have f: "files ?p = files p" "anon ?p = anon p" by (simp_all add: mmap_file_def)
  have pre: "\<forall>i\<in>set is. files ?p i \<noteq> None
      \<and> mmap_ok k (address (regionTable t (of_nat i))) (mmap_size (regionTable t (of_nat i)))"
    using Cons.prems f by simp
  obtain q where q: "remap_regions k t is ?p = Inr q" "files q = files p" "anon q = anon p"
      "\<forall>x. (\<forall>i\<in>set is. \<not> in_region t (of_nat i) x) \<longrightarrow> vmap q x = vmap ?p x"
      "\<forall>x i. i \<in> set is \<longrightarrow> in_region t (of_nat i) x \<longrightarrow>
         (\<forall>j\<in>set is. in_region t (of_nat j) x \<longrightarrow> j = i) \<longrightarrow>
         vmap q x = Some (File_byte i (unat (x - address (regionTable t (of_nat i)))))"
    using Cons.IH [OF pre] unfolding f by blast
  have vp: "vmap ?p x = (if in_region t (of_nat i) x then Some (File_byte i (unat (x - address ?r))) else vmap p x)" for x
    by (simp add: mmap_file_def in_region_def)
  have "vmap q x = Some (File_byte j (unat (x - address (regionTable t (of_nat j)))))"
    if "j \<in> set (i # is)" "in_region t (of_nat j) x" "\<forall>l\<in>set (i # is). in_region t (of_nat l) x \<longrightarrow> l = j" for x j
  proof (cases "j \<in> set is")
    case True
    from that(3) have "\<forall>l\<in>set is. in_region t (of_nat l) x \<longrightarrow> l = j" by simp
    with True that(2) show ?thesis using q(5) by blast
  next
    case False
    then have j: "j = i" using that(1) by simp
    have "\<forall>l\<in>set is. \<not> in_region t (of_nat l) x"
      using False that(3) unfolding list.set(2) by blast
    then have "vmap q x = vmap ?p x" using q(4) by blast
    with vp [of x] that(2) j show ?thesis by simp
  qed
  moreover have "\<forall>x. (\<forall>l\<in>set (i # is). \<not> in_region t (of_nat l) x) \<longrightarrow> vmap q x = vmap p x"
    using q(4) vp by simp
  moreover have "remap_regions k t (i # is) p = Inr q"
    using q(1) Cons.prems by (simp add: Let_def)
  ultimately show ?case using q(2,3) by blast
qed

text \<open>The memory of a new process over the files another one has left.\<close>

definition fresh_mem :: "(nat \<Rightarrow> byte list option) \<Rightarrow> proc_mem" where
  "fresh_mem fs = \<lparr>vmap = (\<lambda>_. None), anon = (\<lambda>_. 0), files = fs\<rparr>"

abbreviation in_table :: "region_table \<Rightarrow> addr \<Rightarrow> bool" where
  "in_table t x \<equiv> \<exists>i. unat i < unat (number_of_entries t) \<and> in_region t i x"

text \<open>The addresses are mapped as in the process that left the files.\<close>

lemma remap_vmap:
  assumes inv: "region_inv s" and n: "number_of_entries (rt s) = uncommited_number_of_entries (rt s)"
    and ok: "\<forall>i. unat i < unat (number_of_entries (rt s)) \<longrightarrow>
      mmap_ok k (address (regionTable (rt s) i)) (mmap_size (regionTable (rt s) i))"
  shows "\<exists>q. remap_regions k (rt s) [0..<unat (number_of_entries (rt s))] (fresh_mem (files (pmem s))) = Inr q
    \<and> files q = files (pmem s) \<and> (\<forall>x. in_table (rt s) x \<longrightarrow> vmap q x = vmap (pmem s) x)
    \<and> (\<forall>x. \<not> in_table (rt s) x \<longrightarrow> vmap q x = None)"
proof -
  let ?t = "rt s" and ?n = "unat (number_of_entries (rt s))"
  have sq: "?n = sequenceNumber s" "?n \<le> 65536" using inv n by (simp_all add: region_inv_def)
  have un: "unat (of_nat i :: u64) = i" if "i < ?n" for i
    using that sq(2) by (simp add: unat_of_nat)
  have vs: "vmap (pmem s) x = Some (File_byte (unat i) (unat (x - address (regionTable ?t i))))"
    if "unat i < ?n" "in_region ?t i x" for i x
    using inv that sq(1) by (simp add: region_inv_def)
  have fl: "\<exists>bs. files (pmem s) (unat i) = Some bs \<and> length bs = unat (mmap_size (regionTable ?t i))"
    if "unat i < ?n" for i
    using inv that sq(1) by (simp add: region_inv_def files_match_def)
  have fresh: "files (fresh_mem fs) = fs" "vmap (fresh_mem fs) x = None" for fs x
    by (simp_all add: fresh_mem_def)
  have pre: "\<forall>i\<in>set [0..<?n]. files (fresh_mem (files (pmem s))) i \<noteq> None
      \<and> mmap_ok k (address (regionTable ?t (of_nat i))) (mmap_size (regionTable ?t (of_nat i)))"
  proof
    fix i
    assume "i \<in> set [0..<?n]"
    then show "files (fresh_mem (files (pmem s))) i \<noteq> None
        \<and> mmap_ok k (address (regionTable ?t (of_nat i))) (mmap_size (regionTable ?t (of_nat i)))"
      using fl [of "of_nat i"] ok un [of i] by (auto simp: fresh_mem_def)
  qed
  obtain q where q: "remap_regions k ?t [0..<?n] (fresh_mem (files (pmem s))) = Inr q"
      "files q = files (pmem s)"
      "\<forall>x. (\<forall>i\<in>set [0..<?n]. \<not> in_region ?t (of_nat i) x) \<longrightarrow> vmap q x = None"
      "\<forall>x i. i \<in> set [0..<?n] \<longrightarrow> in_region ?t (of_nat i) x \<longrightarrow>
         (\<forall>j\<in>set [0..<?n]. in_region ?t (of_nat j) x \<longrightarrow> j = i) \<longrightarrow>
         vmap q x = Some (File_byte i (unat (x - address (regionTable ?t (of_nat i)))))"
    using remap_regions_ok [OF pre] unfolding fresh by blast
  have vq: "vmap q x = vmap (pmem s) x" if x: "in_table ?t x" for x
  proof -
    from x obtain i where i: "unat i < ?n" "in_region ?t i x" by blast
    have "\<forall>j\<in>set [0..<?n]. in_region ?t (of_nat j) x \<longrightarrow> j = unat i"
    proof (intro ballI impI)
      fix j
      assume "j \<in> set [0..<?n]" "in_region ?t (of_nat j) x"
      then show "j = unat i" using vs [of "of_nat j" x] vs [OF i] un [of j] by simp
    qed
    moreover have "unat i \<in> set [0..<?n]" "in_region ?t (of_nat (unat i)) x" using i by simp_all
    ultimately have "vmap q x = Some (File_byte (unat i) (unat (x - address (regionTable ?t (of_nat (unat i))))))"
      using q(4) by blast
    then show ?thesis using vs [OF i] by simp
  qed
  have vn: "vmap q x = None" if "\<not> in_table ?t x" for x
  proof -
    have "\<forall>i\<in>set [0..<?n]. \<not> in_region ?t (of_nat i) x"
    proof
      fix i
      assume "i \<in> set [0..<?n]"
      then have "unat (of_nat i :: u64) < ?n" using un [of i] by simp
      with that show "\<not> in_region ?t (of_nat i) x" by blast
    qed
    then show ?thesis using q(3) by blast
  qed
  show ?thesis using q(1,2) vq vn by blast
qed

lemma remap_fresh:
  assumes inv: "region_inv s" and n: "number_of_entries (rt s) = uncommited_number_of_entries (rt s)"
    and ok: "\<forall>i. unat i < unat (number_of_entries (rt s)) \<longrightarrow>
      mmap_ok k (address (regionTable (rt s) i)) (mmap_size (regionTable (rt s) i))"
  shows "\<exists>q. remap_regions k (rt s) [0..<unat (number_of_entries (rt s))] (fresh_mem (files (pmem s))) = Inr q
    \<and> no_alias q \<and> (\<forall>x. mapped q x = in_table (rt s) x)
    \<and> (\<forall>x. in_table (rt s) x \<longrightarrow> load_byte q x = load_byte (pmem s) x)
    \<and> files q = files (pmem s) \<and> (\<forall>x. in_table (rt s) x \<longrightarrow> vmap q x = vmap (pmem s) x)
    \<and> (\<forall>x. \<not> in_table (rt s) x \<longrightarrow> vmap q x = None)"
proof -
  let ?t = "rt s" and ?n = "unat (number_of_entries (rt s))"
  have sq: "?n = sequenceNumber s" using inv n by (simp add: region_inv_def)
  obtain q where q: "remap_regions k ?t [0..<?n] (fresh_mem (files (pmem s))) = Inr q" "files q = files (pmem s)"
      and vq: "\<And>x. in_table ?t x \<Longrightarrow> vmap q x = vmap (pmem s) x" and vn: "\<And>x. \<not> in_table ?t x \<Longrightarrow> vmap q x = None"
    using remap_vmap [OF assms] by blast
  have ld: "load_byte q x = load_byte (pmem s) x \<and> load_byte q x \<noteq> None" if x: "in_table ?t x" for x
  proof -
    from x obtain i where i: "unat i < ?n" "in_region ?t i x" by blast
    have "vmap (pmem s) x = Some (File_byte (unat i) (unat (x - address (regionTable ?t i))))"
        "\<exists>bs. files (pmem s) (unat i) = Some bs \<and> length bs = unat (mmap_size (regionTable ?t i))"
      using inv i sq by (simp_all add: region_inv_def files_match_def)
    then show ?thesis using vq [OF x] i(2) q(2) by (auto simp: load_byte_def in_region_def in_range_def)
  qed
  have "no_alias q"
    unfolding no_alias_def
  proof (intro allI impI)
    fix x y f i
    assume x: "vmap q x = Some (File_byte f i)" and y: "vmap q y = Some (File_byte f i)"
    then have "in_table ?t x" "in_table ?t y" using vn [of x] vn [of y] by fastforce+
    with x y vq have "vmap (pmem s) x = Some (File_byte f i)" "vmap (pmem s) y = Some (File_byte f i)" by auto
    moreover have "no_alias (pmem s)" using inv by (simp add: region_inv_def)
    ultimately show "x = y" unfolding no_alias_def by blast
  qed
  moreover have "mapped q x = in_table ?t x" for x
  proof (cases "in_table ?t x")
    case True
    then show ?thesis using ld [OF True] unfolding mapped_def by blast
  next
    case False
    then have "load_byte q x = None" using vn [OF False] by (simp add: load_byte_def)
    with False show ?thesis by (simp add: mapped_def)
  qed
  ultimately show ?thesis using q(1,2) ld vq vn by blast
qed

text \<open>The new mapping satisfies the invariant again.\<close>

lemma region_inv_pmem:
  assumes "region_inv s"
  shows "region_inv (s\<lparr>pmem := q\<rparr>) \<longleftrightarrow>
    files_match (rt s) (files q) (sequenceNumber s) \<and>
    (\<forall>i x. unat i < sequenceNumber s \<longrightarrow> in_region (rt s) i x \<longrightarrow>
       vmap q x = Some (File_byte (unat i) (unat (x - address (regionTable (rt s) i))))) \<and>
    (\<forall>x f j. vmap q x = Some (File_byte f j) \<longrightarrow> f < sequenceNumber s) \<and> no_alias q"
  using assms by (auto simp: region_inv_def)

lemma region_inv_table:
  assumes "region_inv p" "regionTable (rt p') = regionTable (rt p)" "number_of_entries (rt p') = number_of_entries (rt p)"
    and "uncommited_number_of_entries (rt p') = uncommited_number_of_entries (rt p)"
      "currentTableSize (rt p') = currentTableSize (rt p)" "sequenceNumber p' = sequenceNumber p" "pmem p' = pmem p"
  shows "region_inv p'"
proof -
  have "in_region (rt p') = in_region (rt p)" "files_match (rt p') = files_match (rt p)"
    using assms(2) by (simp_all add: fun_eq_iff in_region_def files_match_def)
  then show ?thesis using assms unfolding region_inv_def by simp
qed

lemma remapped_inv:
  assumes inv: "region_inv s" and n: "number_of_entries (rt s) = uncommited_number_of_entries (rt s)"
    and q: "files q = files (pmem s)" "no_alias q" "\<forall>x. in_table (rt s) x \<longrightarrow> vmap q x = vmap (pmem s) x"
      "\<forall>x. \<not> in_table (rt s) x \<longrightarrow> vmap q x = None"
  shows "region_inv (s\<lparr>pmem := q\<rparr>)"
proof -
  note ri = inv [unfolded region_inv_def]
  have sq: "unat (number_of_entries (rt s)) = sequenceNumber s" using inv n by (simp add: region_inv_def)
  have "\<forall>i x. unat i < sequenceNumber s \<longrightarrow> in_region (rt s) i x \<longrightarrow>
      vmap q x = Some (File_byte (unat i) (unat (x - address (regionTable (rt s) i))))"
  proof (intro allI impI)
    fix i x assume i: "unat i < sequenceNumber s" "in_region (rt s) i x"
    then have "vmap q x = vmap (pmem s) x" using q(3) sq by metis
    with ri i show "vmap q x = Some (File_byte (unat i) (unat (x - address (regionTable (rt s) i))))" by simp
  qed
  moreover have "\<forall>x f j. vmap q x = Some (File_byte f j) \<longrightarrow> f < sequenceNumber s"
  proof (intro allI impI)
    fix x f j assume v: "vmap q x = Some (File_byte f j)"
    then have "in_table (rt s) x" using spec [OF q(4), of x] by fastforce
    then have "vmap (pmem s) x = Some (File_byte f j)" using v q(3) by simp
    with ri show "f < sequenceNumber s" by blast
  qed
  moreover have "files_match (rt s) (files q) (sequenceNumber s)" using ri q(1) by simp
  ultimately show ?thesis using region_inv_pmem [OF inv] q(2) by blast
qed

text \<open>The same for a back end whose regions are recorded, whatever its file counter is.\<close>

lemma recorded_remap:
  assumes "regions_recorded s" "\<forall>i. unat i < unat (number_of_entries (rt (be_proc s))) \<longrightarrow>
      mmap_ok k (address (regionTable (rt (be_proc s)) i)) (mmap_size (regionTable (rt (be_proc s)) i))"
  shows "\<exists>q. remap_regions k (rt (be_proc s)) [0..<unat (number_of_entries (rt (be_proc s)))]
      (fresh_mem (files (pmem (be_proc s)))) = Inr q \<and> no_alias q \<and> (\<forall>x. mapped q x = in_table (rt (be_proc s)) x)
    \<and> (\<forall>x. in_table (rt (be_proc s)) x \<longrightarrow> load_byte q x = Some (be_contents s x))
    \<and> region_inv ((numbered (be_proc s))\<lparr>pmem := q\<rparr>)"
proof -
  let ?p = "numbered (be_proc s)"
  have inv: "region_inv ?p" "number_of_entries (rt ?p) = uncommited_number_of_entries (rt ?p)"
    using assms(1) by (simp_all add: regions_recorded_def)
  have ok: "\<forall>i. unat i < unat (number_of_entries (rt ?p)) \<longrightarrow>
      mmap_ok k (address (regionTable (rt ?p) i)) (mmap_size (regionTable (rt ?p) i))"
    using assms(2) by simp
  from remap_fresh [OF inv ok] obtain q where q:
      "remap_regions k (rt ?p) [0..<unat (number_of_entries (rt ?p))] (fresh_mem (files (pmem ?p))) = Inr q"
      "no_alias q" "\<forall>x. mapped q x = in_table (rt ?p) x" "\<forall>x. in_table (rt ?p) x \<longrightarrow> load_byte q x = load_byte (pmem ?p) x"
      "files q = files (pmem ?p)" "\<forall>x. in_table (rt ?p) x \<longrightarrow> vmap q x = vmap (pmem ?p) x"
      "\<forall>x. \<not> in_table (rt ?p) x \<longrightarrow> vmap q x = None"
    by blast
  have "load_byte q x = Some (be_contents s x)" if "in_table (rt ?p) x" for x
  proof -
    have "mapped q x" "load_byte q x = load_byte (pmem ?p) x" using that q(3,4) by blast+
    then show ?thesis by (auto simp: mapped_def contents_def)
  qed
  then show ?thesis using q(1-3) remapped_inv [OF inv q(5,2,6,7)] by (intro exI [of _ q]) simp
qed

lemma replay_after_crash:
  assumes "c \<le> j"
  shows "apply_log (drop c es) (apply_log (take j es) m) = apply_log es m"
proof -
  have "take j es = take c es @ take (j - c) (drop c es)"
    using assms take_add [of c "j - c" es] by simp
  then have "apply_log (drop c es) (apply_log (take j es) m) = apply_log (drop c es) (apply_log (take c es) m)"
    by (simp add: replay_after_prefix)
  then show ?thesis by (metis append_take_drop_id apply_log_append)
qed

lemma redo_log_drop:
  "redo_log es \<Longrightarrow> redo_log (drop c es)" "log_writes (drop c es) x \<Longrightarrow> log_writes es x"
  by (auto simp: redo_log_def log_writes_def dest: in_set_dropD)

section \<open>Properties\<close>

text \<open>
  Recovery of a settled back end: whatever it left in the log is replayed on the files, through
  a fresh mapping of the regions.
\<close>

lemma recovery_replays_unreleased:
  assumes set: "settled s" and un: "unreleased s = es" and red: "redo_log es" "es \<noteq> [] \<longrightarrow> entry_type (last es) = COMMIT_ENTRY"
    and wr: "\<forall>x. log_writes es x \<longrightarrow> in_table (rt (be_proc s)) x"
    and v: "valid_index (remote_head (be_rb s))" "valid_index (remote_tail (be_rb s))"
    and reopen: "ring_buffer_create_and_initialise (Some (be_rb s)) (Some a) g0 = Inr (rb, g)"
      "region_table_create_or_open (Some (rt (be_proc s))) True rb = Inr tab"
    and ok: "\<forall>i. unat i < unat (number_of_entries (rt (be_proc s))) \<longrightarrow>
          mmap_ok k (address (regionTable (rt (be_proc s)) i)) (mmap_size (regionTable (rt (be_proc s)) i))"
  shows "\<exists>b. start_back_end_recovery k
         \<lparr>be_rb = rb, be_g = g,
          be_proc = \<lparr>rt = tab, sequenceNumber = 0, pmem = fresh_mem (files (pmem (be_proc s)))\<rparr>\<rparr> = Some (Inr b)
     \<and> remote_head (be_rb b) = remote_tail (be_rb b) \<and> settled b
     \<and> (\<forall>x. in_table (rt (be_proc s)) x \<longrightarrow>
          load_byte (pmem (be_proc b)) x = Some (apply_log es (be_contents s) x))"
proof -
  let ?t = "rt (be_proc s)"
  have rb: "buffer rb = buffer (be_rb s)" "remote_head rb = remote_head (be_rb s)"
      "remote_tail rb = remote_tail (be_rb s)" "commit_metadata rb = commit_metadata (be_rb s)"
      "global_local_head g = remote_head (be_rb s)" "global_local_tail g = remote_tail (be_rb s)"
    using reopen(1) by (auto simp: ring_buffer_create_and_initialise_def split: if_splits)
  have n: "ucast (numberOfRegions (commit_metadata (be_rb s))) = number_of_entries ?t" using set by (simp add: settled_def)
  have tab: "regionTable tab = regionTable ?t" "number_of_entries tab = number_of_entries ?t"
      "uncommited_number_of_entries tab = uncommited_number_of_entries ?t" "currentTableSize tab = currentTableSize ?t"
    using reopen(2) n rb(4) by (auto simp: region_table_create_or_open_def)
  have rr: "remap_regions k tab is p = remap_regions k ?t is p" for "is" p
    by (induction "is" arbitrary: p) (simp_all add: tab Let_def)
  obtain q where q: "remap_regions k ?t [0..<unat (number_of_entries ?t)] (fresh_mem (files (pmem (be_proc s)))) = Inr q"
      "no_alias q" "\<forall>x. mapped q x = in_table ?t x" "\<forall>x. in_table ?t x \<longrightarrow> load_byte q x = Some (be_contents s x)"
      "region_inv ((numbered (be_proc s))\<lparr>pmem := q\<rparr>)"
    using recorded_remap [OF settled_recorded [OF set] ok] by blast
  define b1 where "b1 = \<lparr>be_rb = rb, be_g = g, be_proc = \<lparr>rt = tab\<lparr>number_of_entries :=
      ucast (numberOfRegions (commit_metadata rb))\<rparr>, sequenceNumber = 0, pmem = q\<rparr>\<rparr>"
  have st: "start_back_end_recovery k
         \<lparr>be_rb = rb, be_g = g,
          be_proc = \<lparr>rt = tab, sequenceNumber = 0, pmem = fresh_mem (files (pmem (be_proc s)))\<rparr>\<rparr> = replay_log k b1"
    using q(1) by (simp add: start_back_end_recovery_def remap_backend_def set_pmem_def b1_def rr tab)
  have es: "rb_entries (buffer rb) (remote_head rb) (remote_tail rb) = es" using un rb by (simp add: unreleased_def)
  then have "remote_head rb = remote_tail rb \<longleftrightarrow> es = []"
    using rb_entries_Nil_iff [of "remote_head rb" "remote_tail rb" "buffer rb"] v rb by simp
  then have "replaying es b1"
    unfolding replaying_def using v red wr es q(2,3) rb by (simp add: b1_def)
  note rp = this
  from replay_ok [OF this] obtain b where b: "replay_log k b1 = Some (Inr b)" "replaying [] b"
      "be_contents b = apply_log es (contents q)" "be_mapped b = mapped q"
    by (auto simp: b1_def)
  have "settled b1"
    unfolding settled_def regions_recorded_def
  proof (intro conjI)
    show "region_inv (numbered (be_proc b1))"
      by (rule region_inv_table [OF q(5)]) (simp_all add: b1_def tab n rb)
  qed (use set in \<open>simp_all add: b1_def tab n rb settled_def regions_recorded_def\<close>)
  then have sb: "settled b" using replay_settled [OF rp _ b(1)] by blast
  have "load_byte (pmem (be_proc b)) x = Some (apply_log es (be_contents s) x)" if x: "in_table ?t x" for x
  proof -
    have "contents q x = be_contents s x" using q(4) x by (simp add: contents_def)
    then have "be_contents b x = apply_log es (be_contents s) x"
      unfolding b(3) by (intro apply_log_determined) simp
    moreover have "be_mapped b x" using b(4) q(3) x by simp
    ultimately show ?thesis by (auto simp: contents_def mapped_def split: option.splits)
  qed
  with st sb b(1,2) show ?thesis by (auto simp: replaying_def)
qed

text \<open>
  C1: Recovery from a crash loses nothing and applies nothing twice. A back end with its regions recorded has
  its committed log \<open>es\<close> ahead of it (redo and commit entries only, a commit last: the replay of a mapping entry
  would create its file again), processes any number of entries and dies, at a moment when the commit record of
  the log names the regions: it did so before, or one of the processed entries was a commit. A new process
  opens the log and the table, maps the recorded files and replays the log from \<open>remote_head\<close>. The replay
  ends, the whole log is released, and every byte of every recorded region holds what the complete log makes
  of the memory before the crash, no matter how many entries had been applied. The recovered back end is
  settled, so the next crash is covered from its start. (Before the first commit entry of a first run the
  condition fails, and the code starts as a new process.)
\<close>

theorem crash_recovery_completes_log:
  assumes "replaying es s0" "regions_recorded s0" "global_local_head (be_g s0) = remote_head (be_rb s0)"
    and "\<forall>x. log_writes es x \<longrightarrow> in_table (rt (be_proc s0)) x"
    and "length obs \<le> length es" "run_consumer k obs s0 = Inr s1"
    and "settled s0 \<or> has_commit (take (length obs) es)"
    and "ring_buffer_create_and_initialise (Some (be_rb s1)) (Some a) g0 = Inr (rb, g)"
    and "region_table_create_or_open (Some (rt (be_proc s1))) True rb = Inr tab"
    and "\<forall>i. unat i < unat (number_of_entries (rt (be_proc s0))) \<longrightarrow>
          mmap_ok k (address (regionTable (rt (be_proc s0)) i)) (mmap_size (regionTable (rt (be_proc s0)) i))"
  shows "\<exists>b. start_back_end_recovery k
         \<lparr>be_rb = rb, be_g = g,
          be_proc = \<lparr>rt = tab, sequenceNumber = 0, pmem = fresh_mem (files (pmem (be_proc s1)))\<rparr>\<rparr> = Some (Inr b)
     \<and> remote_head (be_rb b) = remote_tail (be_rb b) \<and> settled b
     \<and> (\<forall>x. in_table (rt (be_proc s0)) x \<longrightarrow>
          load_byte (pmem (be_proc b)) x = Some (apply_log es (be_contents s0) x))"
proof -
  have un: "unreleased s0 = [] @ es" "valid_index (remote_head (be_rb s0))"
    using assms(1,3) by (simp_all add: unreleased_def replaying_def)
  from consumer_run [OF assms(1,2) un assms(5,6)] assms(7) obtain c where c: "c \<le> length obs"
      "unreleased s1 = drop c es" "settled s1" "rt (be_proc s1) = rt (be_proc s0)" "valid_index (remote_head (be_rb s1))"
      "be_contents s1 = apply_log (take (length obs) es) (be_contents s0)" "replaying (drop (length obs) es) s1"
    by auto
  have es: "redo_log (drop c es)" "drop c es \<noteq> [] \<longrightarrow> entry_type (last (drop c es)) = COMMIT_ENTRY"
      "\<forall>x. log_writes (drop c es) x \<longrightarrow> in_table (rt (be_proc s1)) x"
    using assms(1,4) c(4) redo_log_drop(1) [of es c] redo_log_drop(2) [of c es]
    by (auto simp: replaying_def last_drop)
  have "valid_index (remote_tail (be_rb s1))" using c(7) by (simp add: replaying_def)
  from recovery_replays_unreleased [OF c(3,2) es c(5) this assms(8,9), of k] show ?thesis
    using assms(10) unfolding c(4,6) by (simp add: replay_after_crash c(1))
qed

text \<open>
  Replaying a committed log of redo and commit entries terminates, applies the whole log to
  memory, changes no mapping, and releases all of it: head and tail are equal and the persisted
  commit record names the position after the last entry.
\<close>

lemma replay_applies_committed_log:
  assumes "replaying es s" "es \<noteq> []"
  shows "\<exists>s'. replay_log k s = Some (Inr s') \<and> be_contents s' = apply_log es (be_contents s)
     \<and> be_mapped s' = be_mapped s \<and> remote_head (be_rb s') = remote_tail (be_rb s')
     \<and> ringBufferHead (commit_metadata (be_rb s')) = ucast (remote_tail (be_rb s))"
  using replay_ok [OF assms(1), of k] assms(2) by (auto simp: replaying_def)

text \<open>
  Replication. When the log holds, for a list of block addresses, the bytes the front end's
  memory has there, followed by a commit, and the back end's memory differs from the front end's
  only inside those blocks, then after the batch both memories are equal.
\<close>

lemma batch_makes_memories_equal:
  assumes "replaying (map (redo_entry_for mf) blocks @ [c]) s" "entry_type c = COMMIT_ENTRY"
    and "\<forall>x. be_contents s x \<noteq> mf x \<longrightarrow> (\<exists>b\<in>set blocks. in_range b 32 x)"
  shows "\<exists>s'. replay_log k s = Some (Inr s') \<and> be_contents s' = mf"
proof -
  let ?es = "map (redo_entry_for mf) blocks"
  have "write_bytes mf a (read_bytes mf a n) = mf" for a n by (rule ext) (simp add: memcpy_apply)
  then have eq: "apply_log ?es mf = mf"
    by (induction blocks) (simp_all add: redo_entry_for_def apply_entry_def)
  have "apply_log ?es (be_contents s) x = mf x" for x
  proof -
    have "be_contents s x = mf x \<or> log_writes ?es x"
      using assms(3) by (auto simp: log_writes_def redo_entry_for_def PAYLOAD_SIZE_def)
    then show ?thesis using apply_log_determined eq by metis
  qed
  then have "apply_log (?es @ [c]) (be_contents s) = mf"
    using assms(2) by (simp add: apply_entry_def entry_type_defs fun_eq_iff)
  then show ?thesis using replay_ok [OF assms(1), of k] by metis
qed

text \<open>
  The commit record is enough to reopen the log: after a commit, a process that opens the
  buffer starts exactly at the entry after the commit, in spite of the 32-bit head field, and
  counts exactly the regions the table has.
\<close>

lemma commit_then_open_roundtrip:
  assumes "valid_index (global_local_head (be_g s))"
    and "unat (uncommited_number_of_entries (rt (be_proc s))) < 2 ^ 32"
  shows "\<exists>rb g. ring_buffer_open (Some (be_rb (commit_rb_batch s))) (producer_addr (be_rb s)) g0 = Inr (rb, g)
     \<and> global_local_head g = global_local_head (be_g s) \<and> remote_head rb = global_local_head (be_g s)
     \<and> rb_entries (buffer rb) (global_local_head g) (global_local_tail g)
         = rb_entries (buffer (be_rb s)) (global_local_head (be_g s)) (remote_tail (be_rb s))
     \<and> ucast (numberOfRegions (commit_metadata rb)) = number_of_entries (rt (be_proc (commit_rb_batch s)))"
  using assms ucast_small [of "global_local_head (be_g s)"] ucast_small [OF assms(2)]
  by (simp add: ring_buffer_open_def map_ring_buffer_file_to_correct_address_def commit_rb_batch_def
      commit_batch_def ring_buffer_commit_dequeued_entries_def region_table_commit_def valid_index_def)

text \<open>
  The failures of the dispatcher. On a non-empty queue an entry of unknown type makes the
  back end exit, and a redo entry with a byte outside the mapped memory makes it fault.
\<close>

lemma process_entry_failures:
  assumes "global_local_head (be_g s) \<noteq> global_local_tail (be_g s)"
    and "e = buffer (be_rb s) (global_local_head (be_g s))"
  shows "(3 < entry_type e \<longrightarrow> process_entry k s loads = Inl ExitFailure)
    \<and> (entry_type e = REDO_ENTRY \<longrightarrow> no_alias (pmem (be_proc s)) \<longrightarrow> length (payload e) = 32 \<longrightarrow> i < 32 \<longrightarrow>
         \<not> be_mapped s (entry_addr e + of_nat i) \<longrightarrow> process_entry k s loads = Inl SegFault)"
  using process_entry_nonempty [OF assms(1), of k loads] assms(2)
    memcpy_to_fault [of "pmem (be_proc s)" i "payload e" "entry_addr e"]
  by (auto simp: handle_entry_def entry_type_defs PAYLOAD_SIZE_def word_less_nat_alt)

section \<open>Witnesses\<close>

definition example_entry :: ring_buffer_entry where
  "example_entry = redo_entry_for (\<lambda>_. 7) 4096"

definition example_commit :: ring_buffer_entry where
  "example_commit = zero_entry\<lparr>entry_type := COMMIT_ENTRY\<rparr>"

definition example_proc :: rt_process where
  "example_proc =
     \<lparr>rt = zero_region_table\<lparr>currentTableSize := INITIAL_TABLE_SIZE, number_of_entries := 1,
             uncommited_number_of_entries := 1,
             regionTable := (\<lambda>_. zero_region)(0 := \<lparr>address = 4096, file_index = 0, mmap_size = 64,
                                                   entry_commit_index = 1\<rparr>)\<rparr>,
      sequenceNumber = 1,
      pmem = mmap_file 4096 64 0 \<lparr>vmap = (\<lambda>_. None), anon = (\<lambda>_. 0), files = [0 \<mapsto> replicate 64 0]\<rparr>\<rparr>"

definition example_backend :: backend where
  "example_backend =
     \<lparr>be_rb = zero_ring_buffer\<lparr>buffer := (\<lambda>i. if i = 0 then example_entry else example_commit),
                remote_tail := 2, last_persisted_tail := 2,
                commit_metadata := \<lparr>numberOfRegions = 1, ringBufferHead = 0\<rparr>\<rparr>,
      be_g = \<lparr>global_local_head = 0, global_local_tail = 2, number_of_mmaped_memory_regions = 1\<rparr>,
      be_proc = example_proc\<rparr>"

lemma example_region: "in_region (rt example_proc) i x \<longleftrightarrow> i = 0 \<and> in_range 4096 64 x"
  by (simp add: example_proc_def in_region_def zero_region_def in_range_def)

lemma example_load: "load_byte (pmem example_proc) x = (if in_range 4096 64 x then Some 0 else None)"
  by (simp add: example_proc_def load_byte_def mmap_file_def in_range_def)

lemma example_proc_inv: "region_inv example_proc"
proof -
  have "unat i < 1 \<longleftrightarrow> i = 0" for i :: u64 by (simp add: unat_eq_zero)
  moreover have "no_alias (pmem example_proc)"
    unfolding example_proc_def rt_process.simps by (rule no_alias_mmap_file) (simp_all add: no_alias_def)
  ultimately show ?thesis
    unfolding region_inv_def using example_region
    by (auto simp: example_proc_def zero_region_table_def files_match_def mmap_file_def in_range_def
        split: if_splits)
qed

lemma example_settled: "settled example_backend"
proof -
  have "regions_recorded example_backend"
    using region_inv_numbered [OF example_proc_inv] by (simp add: regions_recorded_def example_backend_def) (simp add: example_proc_def)
  then show ?thesis
    by (simp add: settled_def) (simp add: example_backend_def example_proc_def)
qed

lemma example_queue: "rb_entries (buffer (be_rb example_backend)) 0 2 = [example_entry, example_commit]"
  by (simp add: rb_entries_def rb_dist_def rb_slot_def example_backend_def upt_rec)

lemma example_writes: "log_writes [example_entry, example_commit] x \<longleftrightarrow> in_range 4096 32 x"
  by (simp add: log_writes_def example_entry_def example_commit_def redo_entry_for_def entry_type_defs
      PAYLOAD_SIZE_def)

lemma example_replaying: "replaying [example_entry, example_commit] example_backend"
proof -
  have "no_alias (pmem example_proc)" using example_proc_inv by (simp add: region_inv_def)
  moreover have "mapped (pmem example_proc) x" if "in_range 4096 32 x" for x
    using that by (simp add: mapped_def example_load in_range_def)
  ultimately show ?thesis
    unfolding replaying_def using example_queue example_writes
    by (simp add: example_backend_def valid_index_def zero_ring_buffer_def redo_log_def example_entry_def
        example_commit_def redo_entry_for_def PAYLOAD_SIZE_def)
qed

theorem crash_recovery_completes_log_witness:
  "\<exists>s1 rb g tab b. run_consumer accepting_kernel [(0, [(2, 0)], [])] example_backend = Inr s1
     \<and> start_back_end_recovery accepting_kernel
         \<lparr>be_rb = rb, be_g = g,
          be_proc = \<lparr>rt = tab, sequenceNumber = 0, pmem = fresh_mem (files (pmem (be_proc s1)))\<rparr>\<rparr> = Some (Inr b)
     \<and> load_byte (pmem (be_proc b)) 4100 = Some 7"
proof -
  obtain s1 where "process_entry accepting_kernel example_backend [] = Inr (s1, [])"
    using replay_step [OF example_replaying] by blast
  then have s1: "run_consumer accepting_kernel [(0, [(2, 0)], [])] example_backend = Inr s1" by simp
  obtain rb g where rb: "ring_buffer_create_and_initialise (Some (be_rb s1)) (Some 64) (be_g example_backend)
      = Inr (rb, g)" by (simp add: ring_buffer_create_and_initialise_def)
  obtain tab where tab: "region_table_create_or_open (Some (rt (be_proc s1))) True rb = Inr tab"
    by (simp add: region_table_create_or_open_def)
  have "in_table (rt example_proc) x \<longleftrightarrow> in_range 4096 64 x" for x
    unfolding example_region by (simp add: example_proc_def)
  moreover have "apply_log [example_entry, example_commit] m 4100 = 7" for m
    by (simp add: apply_entry_def example_entry_def example_commit_def redo_entry_for_def entry_type_defs
        memcpy_apply PAYLOAD_SIZE_def in_range_def)
  ultimately show ?thesis
    using crash_recovery_completes_log [OF example_replaying settled_recorded [OF example_settled] _ _ _ s1 _ rb tab]
      example_settled s1 example_writes
    by (fastforce simp: example_backend_def zero_ring_buffer_def accepting_kernel_def in_range_def)
qed

lemma replay_applies_committed_log_witness:
  "\<exists>s'. replay_log accepting_kernel example_backend = Some (Inr s')
     \<and> remote_head (be_rb s') = remote_tail (be_rb s')"
  using replay_applies_committed_log [OF example_replaying] by blast

lemma batch_makes_memories_equal_witness:
  "\<exists>s'. replay_log accepting_kernel example_backend = Some (Inr s')
     \<and> be_contents s' = (\<lambda>x. if in_range 4096 32 x then 7 else 0)"
proof -
  let ?mf = "\<lambda>x. if in_range 4096 32 x then 7 else 0 :: byte"
  have "read_bytes ?mf 4096 32 = read_bytes (\<lambda>_. 7) 4096 32"
    by (simp add: read_bytes_def in_range_def unat_of_nat)
  then have "redo_entry_for ?mf 4096 = example_entry"
    by (simp add: redo_entry_for_def example_entry_def PAYLOAD_SIZE_def)
  moreover have "be_contents example_backend x = 0" for x
    using example_load by (simp add: example_backend_def contents_def)
  ultimately show ?thesis
    using batch_makes_memories_equal [of ?mf "[4096]" example_commit example_backend accepting_kernel]
      example_replaying by (simp add: example_commit_def)
qed

lemma commit_then_open_roundtrip_witness:
  "\<exists>rb g. ring_buffer_open (Some (be_rb (commit_rb_batch example_backend))) 0 (be_g example_backend) = Inr (rb, g)
     \<and> rb_entries (buffer rb) (global_local_head g) (global_local_tail g) = [example_entry, example_commit]"
  using commit_then_open_roundtrip [of example_backend "be_g example_backend"] example_queue
  by (auto simp: example_backend_def valid_index_def zero_ring_buffer_def example_proc_def)

lemma process_entry_failures_witness:
  "process_entry accepting_kernel
     (example_backend\<lparr>be_rb := (be_rb example_backend)\<lparr>buffer := (\<lambda>_. zero_entry\<lparr>entry_type := 9\<rparr>)\<rparr>\<rparr>) []
   = Inl ExitFailure"
  using process_entry_failures
    [of "example_backend\<lparr>be_rb := (be_rb example_backend)\<lparr>buffer := (\<lambda>_. zero_entry\<lparr>entry_type := 9\<rparr>)\<rparr>\<rparr>"]
  by (simp add: example_backend_def word_less_nat_alt)
end
