(* ===== verification/Instrumentation.thy ===== *)
theory Instrumentation
  imports Redo_Collector Region_Table
begin

text \<open>
  The front end's instrumentation callbacks: \<^verbatim>\<open>instrumentation/instrument_front_end.c\<close> and the
  collection of the log in \<^verbatim>\<open>instrumentation/instrumenation_common.h\<close>. \<open>per_thread\<close> is
  \<open>per_thread_t\<close> of the thread that runs the callback, \<open>front\<close> adds what the callbacks share:
  the ring buffer, the overflow buffer, the application's memory and the writer word of the
  reader-writer lock. Operations on the ring buffer consume the loads their waiting loops
  observe, as in \<open>Ring_Buffer\<close>. What DynamoRIO and the kernel decide is an argument.
\<close>

section \<open>Data\<close>

definition MAX_NUM_OF_MEMCPY :: nat where "MAX_NUM_OF_MEMCPY = 100"
definition MAX_TRANSIENT_REGIONS :: nat where "MAX_TRANSIENT_REGIONS = 32"
definition SYS_mmap :: int where "SYS_mmap = 9"
definition SYS_munmap :: int where "SYS_munmap = 11"

record memcpy_entry =
  me_start :: addr
  me_end :: addr

record memcpy_array =
  ma_count :: nat
  ma_array :: "memcpy_entry list"

record last_syscall =
  ls_sysnum :: int
  ls_addr :: addr
  ls_size :: u64

record deferred_mmap_entries =
  number_of_regions_in_this_batch :: nat
  transient_mmap_entries :: "ring_buffer_map_entry list"

record per_thread =
  number_of_hash_set_entries :: u32
  hash_set_entries :: "addr list"
  hash_set_size :: nat
  lastSyscall :: last_syscall
  combiner :: u32
  thread_local_head :: u64
  thread_local_tail :: u64
  skip_mmap :: u32
  deferredMmapEntries :: deferred_mmap_entries
  memcpyArray :: memcpy_array

record front =
  data :: per_thread
  fe_rb :: ring_buffer
  fe_overflow :: overflow_buffer
  fe_mem :: mem
  fc_writers :: u32

section \<open>Batches\<close>

definition instrument_start :: "front \<Rightarrow> front" where
  "instrument_start s = s\<lparr>data := (data s)\<lparr>combiner := 1\<rparr>\<rparr>"

definition setCombinerToInitilise :: "front \<Rightarrow> front" where
  "setCombinerToInitilise s = s\<lparr>data := (data s)\<lparr>combiner := 2\<rparr>\<rparr>"

definition reset_hash_set :: "front \<Rightarrow> front" where
  "reset_hash_set s =
     s\<lparr>data := (data s)\<lparr>combiner := 0,
         hash_set_entries := replicate (hash_set_size (data s)) 0
           @ drop (hash_set_size (data s)) (hash_set_entries (data s))\<rparr>\<rparr>"

definition collect_mmaps :: "front \<Rightarrow> deferred_mmap_entries \<times> front" where
  "collect_mmaps s =
     (deferredMmapEntries (data s),
      s\<lparr>data := (data s)\<lparr>deferredMmapEntries := (deferredMmapEntries (data s))
                            \<lparr>number_of_regions_in_this_batch := 0\<rparr>\<rparr>\<rparr>)"

text \<open>Recording a copy made by the combiner; a hundred and first copy is written past the array.\<close>

definition record_memcpy :: "addr \<Rightarrow> addr \<Rightarrow> memcpy_array \<Rightarrow> memcpy_array result" where
  "record_memcpy a b ma =
     (if ma_count ma < length (ma_array ma)
      then Inr (ma\<lparr>ma_array := (ma_array ma)[ma_count ma := \<lparr>me_start = a, me_end = b\<rparr>],
                   ma_count := ma_count ma + 1\<rparr>)
      else Inl OutOfBounds)"

definition instrumented_memcpy :: "addr \<Rightarrow> addr \<Rightarrow> u64 \<Rightarrow> front \<Rightarrow> front result" where
  "instrumented_memcpy dest src sz s =
     (if combiner (data s) = 1
      then and_then (record_memcpy dest (dest + sz) (memcpyArray (data s))) (\<lambda>ma.
             Inr (s\<lparr>data := (data s)\<lparr>memcpyArray := ma\<rparr>,
                    fe_mem := write_bytes (fe_mem s) dest (read_bytes (fe_mem s) src (unat sz))\<rparr>))
      else Inr s)"

text \<open>
  The wrapper around the application's \<open>memcpy\<close>: the size goes through an \<open>int\<close>; the result
  holds the size argument the wrapped call continues with.
\<close>

definition wrap_pre :: "addr \<Rightarrow> addr \<Rightarrow> u64 \<Rightarrow> front \<Rightarrow> (u64 \<times> front) result" where
  "wrap_pre dst src arg2 s =
     (let size_of_copy = scast (ucast arg2 :: u32) :: u64
      in if combiner (data s) = 1
         then and_then (record_memcpy dst (dst + size_of_copy) (memcpyArray (data s))) (\<lambda>ma.
                Inr (0, s\<lparr>data := (data s)\<lparr>memcpyArray := ma\<rparr>,
                          fe_mem := write_bytes (fe_mem s) dst
                                      (read_bytes (fe_mem s) src (unat size_of_copy))\<rparr>))
         else Inr (arg2, s))"

section \<open>Writing the log\<close>

text \<open>One producer operation on the thread's head and tail.\<close>

definition produce ::
    "(ring_buffer \<Rightarrow> u64 \<Rightarrow> u64 \<Rightarrow> u64 list \<Rightarrow> producer_result) \<Rightarrow> front \<times> u64 list \<Rightarrow> (front \<times> u64 list) result" where
  "produce f = (\<lambda>(s, loads).
     and_then (f (fe_rb s) (thread_local_head (data s)) (thread_local_tail (data s)) loads)
       (\<lambda>(rb, h, t, l).
          Inr (s\<lparr>fe_rb := rb, data := (data s)\<lparr>thread_local_head := h, thread_local_tail := t\<rparr>\<rparr>, l)))"

definition log_address :: "addr \<Rightarrow> front \<times> u64 list \<Rightarrow> (front \<times> u64 list) result" where
  "log_address a = (\<lambda>(s, loads). produce (\<lambda>rb. ring_buffer_enqueue_redo_log_entry rb (fe_mem s) a) (s, loads))"

fun log_addresses :: "addr list \<Rightarrow> front \<times> u64 list \<Rightarrow> (front \<times> u64 list) result" where
  "log_addresses [] x = Inr x"
| "log_addresses (a # as) x = and_then (log_address a x) (log_addresses as)"

definition log_commit :: "front \<times> u64 list \<Rightarrow> (front \<times> u64 list) result" where
  "log_commit = produce ring_buffer_commit_enqueued_entries"

text \<open>The loop over the slots of the hash set from slot \<open>i\<close>: log what looks like an address,
  clear the slot.\<close>

fun log_slots :: "nat list \<Rightarrow> front \<times> u64 list \<Rightarrow> (front \<times> u64 list) result" where
  "log_slots [] x = Inr x"
| "log_slots (i # is) (s, loads) =
     (if i \<ge> length (hash_set_entries (data s)) then Inl OutOfBounds
      else (let a = hash_set_entries (data s) ! i
            in if a \<noteq> 0
               then and_then (if a > 1000 then log_address a (s, loads) else Inr (s, loads)) (\<lambda>(s', l).
                      log_slots is (s'\<lparr>data := (data s')\<lparr>hash_set_entries := (hash_set_entries (data s'))[i := 0]\<rparr>\<rparr>, l))
               else log_slots is (s, loads)))"

definition set_global_values :: "front \<Rightarrow> front" where
  "set_global_values s =
     s\<lparr>fe_rb := set_global_tail_value (thread_local_tail (data s))
                  (set_global_head_value (thread_local_head (data s)) (fe_rb s))\<rparr>"

definition collect_payload_and_store_to_pmem :: "bool \<Rightarrow> front \<times> u64 list \<Rightarrow> (front \<times> u64 list) result" where
  "collect_payload_and_store_to_pmem commit = (\<lambda>(s, loads).
     and_then (if ob_size (fe_overflow s) \<le> length (ob_buffer (fe_overflow s))
               then log_addresses (take (ob_size (fe_overflow s)) (ob_buffer (fe_overflow s))) (s, loads)
               else Inl OutOfBounds) (\<lambda>x.
     and_then (log_slots [0..<unat HASH_SET_SIZE] x) (\<lambda>y.
     and_then (if commit then log_commit y else Inr y) (\<lambda>(s', l).
       Inr (set_global_values s', l)))))"

text \<open>The addresses one recorded copy is logged at; the distance goes through an \<open>int\<close>.\<close>

definition memcpy_blocks :: "memcpy_entry \<Rightarrow> addr list" where
  "memcpy_blocks e =
     (let distance = sint (ucast (me_end e - me_start e) :: u32)
      in map (\<lambda>i. me_start e + of_nat (PAYLOAD_SIZE * i)) [0..<nat ((distance + 31) div 32)])"

fun log_memcpys :: "memcpy_entry list \<Rightarrow> front \<times> u64 list \<Rightarrow> (front \<times> u64 list) result" where
  "log_memcpys [] x = Inr x"
| "log_memcpys (e # es) x =
     and_then (log_addresses (memcpy_blocks e) x) (\<lambda>y. and_then (log_commit y) (log_memcpys es))"

definition load_global_values :: "front \<Rightarrow> front" where
  "load_global_values s =
     s\<lparr>data := (data s)\<lparr>thread_local_head := get_global_head_value (fe_rb s),
                        thread_local_tail := get_global_tail_value (fe_rb s)\<rparr>\<rparr>"

definition instrument_stop :: "front \<Rightarrow> u64 list \<Rightarrow> (front \<times> u64 list) result" where
  "instrument_stop s loads =
     (let s0 = load_global_values (s\<lparr>data := (data s)\<lparr>combiner := 0\<rparr>\<rparr>);
          ma = memcpyArray (data s0)
      in and_then (if ma_count ma \<le> length (ma_array ma)
                   then log_memcpys (take (ma_count ma) (ma_array ma)) (s0, loads)
                   else Inl OutOfBounds) (\<lambda>x.
         and_then (collect_payload_and_store_to_pmem True x) (\<lambda>(s', l).
           Inr (s'\<lparr>data := (data s')\<lparr>number_of_hash_set_entries := 0,
                                     memcpyArray := (memcpyArray (data s'))\<lparr>ma_count := 0\<rparr>\<rparr>,
                   fe_overflow := (fe_overflow s')\<lparr>ob_size := 0\<rparr>\<rparr>, l))))"

section \<open>System calls\<close>

definition event_filter_syscall :: "int \<Rightarrow> bool" where
  "event_filter_syscall sysnum \<longleftrightarrow> sysnum = SYS_mmap"

definition event_pre_syscall :: "int \<Rightarrow> addr \<Rightarrow> u64 \<Rightarrow> front \<Rightarrow> front" where
  "event_pre_syscall sysnum a sz s =
     (if sysnum \<noteq> SYS_mmap \<and> sysnum \<noteq> SYS_munmap then s
      else s\<lparr>data := (data s)\<lparr>lastSyscall := \<lparr>ls_sysnum = sysnum, ls_addr = a, ls_size = sz\<rparr>\<rparr>\<rparr>)"

text \<open>Attempts to take the writer word: the value read, and whether the exchange succeeds.\<close>

fun wait_for_writers :: "(u32 \<times> bool) list \<Rightarrow> unit result" where
  "wait_for_writers [] = Inl Spinning"
| "wait_for_writers ((v, exchanged) # obs) =
     (if v = 0 \<and> exchanged then Inr () else wait_for_writers obs)"

definition log_mmap :: "ring_buffer_map_entry \<Rightarrow> front \<times> u64 list \<Rightarrow> (front \<times> u64 list) result" where
  "log_mmap me = (\<lambda>x. and_then (produce (\<lambda>rb. ring_buffer_enqueue_mmap_entry rb me) x) log_commit)"

definition event_post_syscall ::
    "int \<Rightarrow> addr \<Rightarrow> (u32 \<times> bool) list \<Rightarrow> front \<Rightarrow> u64 list \<Rightarrow> (front \<times> u64 list) result" where
  "event_post_syscall sysnum ret obs s loads =
     (if sysnum \<noteq> SYS_mmap \<and> sysnum \<noteq> SYS_munmap then Inr (s, loads)
      else if ls_sysnum (lastSyscall (data s)) = SYS_mmap then
        (if ls_addr (lastSyscall (data s)) = 0 \<and> ret = -1 then Inl AssertFail
         else
           (let ls = lastSyscall (data s);
                a = (if ls_addr ls = 0 then ret else ls_addr ls);
                s1 = s\<lparr>data := (data s)\<lparr>lastSyscall := ls\<lparr>ls_addr := a\<rparr>\<rparr>\<rparr>;
                transient = combiner (data s) = 0;
                me = \<lparr>map_entry_type = (if transient then TRANSIENT_MMAP_ENTRY else MMAP_ENTRY),
                      map_entry_addr = a, map_entry_size = ls_size ls\<rparr>
            in and_then (if transient then and_then (wait_for_writers obs) (\<lambda>_. Inr (s1\<lparr>fc_writers := 1\<rparr>))
                         else Inr s1) (\<lambda>s2.
               and_then (log_mmap me (load_global_values s2, loads)) (\<lambda>(s3, l).
                 (let s4 = set_global_values s3
                  in Inr (if transient then s4\<lparr>fc_writers := 0\<rparr> else s4, l))))))
      else Inr (s, loads))"

fun log_mmaps :: "ring_buffer_map_entry list \<Rightarrow> front \<times> u64 list \<Rightarrow> (front \<times> u64 list) result" where
  "log_mmaps [] x = Inr x"
| "log_mmaps (me # mes) x = and_then (log_mmap me x) (log_mmaps mes)"

definition commit_mmaps :: "ring_buffer_map_entry list \<Rightarrow> front \<Rightarrow> u64 list \<Rightarrow> (front \<times> u64 list) result" where
  "commit_mmaps entries s loads =
     and_then (log_mmaps entries (load_global_values s, loads)) (\<lambda>(s', l).
       Inr ((set_global_values s')\<lparr>data := (data (set_global_values s'))\<lparr>combiner := 0\<rparr>\<rparr>, l))"

section \<open>Threads\<close>

text \<open>
  A new thread's data: \<open>garbage\<close> is what the allocated block holds, and stays in the members
  the callback does not set, among them the count of recorded copies.
\<close>

definition event_thread_init :: "addr \<Rightarrow> per_thread \<Rightarrow> per_thread result" where
  "event_thread_init rb_addr garbage =
     (if unat rb_addr mod 64 \<noteq> 0 then Inl AssertFail
      else Inr (garbage\<lparr>hash_set_entries := replicate (unat HASH_SET_SIZE) 0,
                        hash_set_size := unat HASH_SET_SIZE,
                        lastSyscall := (lastSyscall garbage)\<lparr>ls_sysnum := 0\<rparr>,
                        combiner := 0, skip_mmap := 0,
                        deferredMmapEntries := (deferredMmapEntries garbage)
                          \<lparr>number_of_regions_in_this_batch := 0\<rparr>\<rparr>))"

text \<open>The destination operands of an instruction that are instrumented, and with what code.\<close>

record operand =
  is_memory_reference :: bool
  is_base_disp :: bool
  base_is_xsp :: bool
  opnd_size :: u32

definition instrument_mem :: "operand \<Rightarrow> instr list" where
  "instrument_mem r = store_address_in_hash_set (opnd_size r)"

definition event_bb_insert :: "operand list \<Rightarrow> instr list list" where
  "event_bb_insert dsts =
     map instrument_mem
       (filter (\<lambda>r. is_memory_reference r \<and> \<not> (is_base_disp r \<and> base_is_xsp r)) dsts)"

section \<open>The thread's view of the log\<close>

definition fe_queue :: "front \<Rightarrow> ring_buffer_entry list" where
  "fe_queue s = rb_entries (buffer (fe_rb s)) (thread_local_head (data s)) (thread_local_tail (data s))"

definition fe_ok :: "front \<Rightarrow> bool" where
  "fe_ok s \<longleftrightarrow> valid_index (thread_local_head (data s)) \<and> valid_index (thread_local_tail (data s))"

text \<open>Only the log, its tails and the hash set have changed.\<close>

definition moved ::
    "(u64 \<Rightarrow> ring_buffer_entry) \<Rightarrow> u64 \<Rightarrow> u64 \<Rightarrow> u64 \<Rightarrow> addr list \<Rightarrow> front \<Rightarrow> front" where
  "moved buf re lt t hs s =
     s\<lparr>fe_rb := (fe_rb s)\<lparr>buffer := buf, remote_tail := re, last_persisted_tail := lt\<rparr>,
       data := (data s)\<lparr>thread_local_tail := t, hash_set_entries := hs\<rparr>\<rparr>"

definition log_moved :: "front \<Rightarrow> front \<Rightarrow> bool" where
  "log_moved s s' \<longleftrightarrow> (\<exists>buf re lt t hs. s' = moved buf re lt t hs s)"

lemma moved_moved [simp]: "moved buf re lt t hs (moved buf' re' lt' t' hs' s) = moved buf re lt t hs s"
  by (simp add: moved_def)

lemma log_moved_trans: "log_moved s t \<Longrightarrow> log_moved t u \<Longrightarrow> log_moved s u"
  unfolding log_moved_def by (metis moved_moved)

lemma log_moved_slots:
  "log_moved s s' \<Longrightarrow> log_moved s (s'\<lparr>data := (data s')\<lparr>hash_set_entries := hs\<rparr>\<rparr>)"
proof -
  assume "log_moved s s'"
  then obtain buf re lt t hs' where "s' = moved buf re lt t hs' s" by (auto simp: log_moved_def)
  then have "s'\<lparr>data := (data s')\<lparr>hash_set_entries := hs\<rparr>\<rparr> = moved buf re lt t hs s" by (simp add: moved_def)
  then show ?thesis unfolding log_moved_def by blast
qed

lemma log_moved_refl [simp]: "log_moved s s"
proof -
  have "s = moved (buffer (fe_rb s)) (remote_tail (fe_rb s)) (last_persisted_tail (fe_rb s))
      (thread_local_tail (data s)) (hash_set_entries (data s)) s" by (simp add: moved_def)
  then show ?thesis unfolding log_moved_def by blast
qed

lemma log_moved_fields:
  assumes "log_moved s s'"
  shows "fe_mem s' = fe_mem s" "fe_overflow s' = fe_overflow s" "fc_writers s' = fc_writers s"
    "thread_local_head (data s') = thread_local_head (data s)" "memcpyArray (data s') = memcpyArray (data s)"
    "combiner (data s') = combiner (data s)" "remote_head (fe_rb s') = remote_head (fe_rb s)"
    "commit_metadata (fe_rb s') = commit_metadata (fe_rb s)"
    "last_persisted_head (fe_rb s') = last_persisted_head (fe_rb s)"
  using assms by (auto simp: log_moved_def moved_def)

lemma room_next:
  assumes "fe_ok s" "length (fe_queue s) < 65535"
  shows "thread_local_head (data s) \<noteq> next_index (thread_local_tail (data s))"
  using assms rb_dist_full [of "thread_local_head (data s)" "thread_local_tail (data s)"]
  by (auto simp: fe_ok_def fe_queue_def)

text \<open>The two shapes of entries: what an enqueue adds, and a commit entry.\<close>

lemma log_address_ok:
  assumes "fe_ok s" "length (fe_queue s) < 65535"
  shows "\<exists>s'. log_address a (s, l) = Inr (s', l) \<and> fe_ok s' \<and> log_moved s s'
    \<and> fe_queue s' = fe_queue s @ [redo_entry_for (fe_mem s) a]
    \<and> hash_set_entries (data s') = hash_set_entries (data s)"
proof -
  let ?h = "thread_local_head (data s)" and ?t = "thread_local_tail (data s)"
  have ne: "?h \<noteq> next_index ?t" using room_next [OF assms] .
  have v: "valid_index ?h" "valid_index ?t" using assms(1) by (simp_all add: fe_ok_def)
  define s' where "s' = s\<lparr>fe_rb := put_slot ?t (redo_entry_for (fe_mem s) a) (fe_rb s),
      data := (data s)\<lparr>thread_local_head := ?h, thread_local_tail := next_index ?t\<rparr>\<rparr>"
  have "ring_buffer_enqueue_redo_log_entry (fe_rb s) (fe_mem s) a ?h ?t l =
      Inr (put_slot ?t (redo_entry_for (fe_mem s) a) (fe_rb s), ?h, next_index ?t, l)"
    using ne by (simp add: enqueue_redo_result spin_free)
  then have "log_address a (s, l) = Inr (s', l)"
    by (simp add: log_address_def produce_def s'_def)
  moreover have "log_moved s s'"
  proof -
    have "s' = moved (buffer (fe_rb s')) (remote_tail (fe_rb s)) (last_persisted_tail (fe_rb s))
        (next_index ?t) (hash_set_entries (data s)) s"
      by (simp add: s'_def put_slot_def moved_def)
    then show ?thesis unfolding log_moved_def by blast
  qed
  moreover have "fe_queue s' = fe_queue s @ [redo_entry_for (fe_mem s) a]"
    using rb_entries_put [OF v ne [symmetric]] by (simp add: fe_queue_def s'_def put_slot_def)
  ultimately show ?thesis using v by (auto simp: s'_def fe_ok_def)
qed

lemma log_commit_ok:
  assumes "fe_ok s" "length (fe_queue s) < 65535"
  shows "\<exists>s' c. log_commit (s, l) = Inr (s', l) \<and> fe_ok s' \<and> log_moved s s'
    \<and> fe_queue s' = fe_queue s @ [c] \<and> entry_type c = COMMIT_ENTRY
    \<and> hash_set_entries (data s') = hash_set_entries (data s)
    \<and> remote_tail (fe_rb s') = thread_local_tail (data s')
    \<and> last_persisted_tail (fe_rb s') = thread_local_tail (data s')"
proof -
  let ?h = "thread_local_head (data s)" and ?t = "thread_local_tail (data s)"
  let ?c = "(buffer (fe_rb s) ?t)\<lparr>entry_type := COMMIT_ENTRY\<rparr>"
  let ?rb = "put_slot ?t ?c (fe_rb s)\<lparr>remote_tail := next_index ?t, last_persisted_tail := next_index ?t\<rparr>"
  have ne: "?h \<noteq> next_index ?t" using room_next [OF assms] .
  have v: "valid_index ?h" "valid_index ?t" using assms(1) by (simp_all add: fe_ok_def)
  define s' where "s' = s\<lparr>fe_rb := ?rb, data := (data s)\<lparr>thread_local_head := ?h, thread_local_tail := next_index ?t\<rparr>\<rparr>"
  have "ring_buffer_commit_enqueued_entries (fe_rb s) ?h ?t l = Inr (?rb, ?h, next_index ?t, l)"
    using ne by (simp add: commit_enqueued_result spin_free)
  then have "log_commit (s, l) = Inr (s', l)"
    by (simp add: log_commit_def produce_def s'_def)
  moreover have "log_moved s s'"
  proof -
    have "s' = moved (buffer (fe_rb s')) (next_index ?t) (next_index ?t)
        (next_index ?t) (hash_set_entries (data s)) s"
      by (simp add: s'_def put_slot_def moved_def)
    then show ?thesis unfolding log_moved_def by blast
  qed
  moreover have "fe_queue s' = fe_queue s @ [?c]"
    using rb_entries_put [OF v ne [symmetric]] by (simp add: fe_queue_def s'_def put_slot_def)
  ultimately show ?thesis
    using v by (intro exI [of _ s'] exI [of _ ?c]) (auto simp: s'_def fe_ok_def)
qed

lemma log_addresses_ok:
  "fe_ok s \<Longrightarrow> length (fe_queue s) + length as \<le> 65535 \<Longrightarrow>
   \<exists>s'. log_addresses as (s, l) = Inr (s', l) \<and> fe_ok s' \<and> log_moved s s'
    \<and> fe_queue s' = fe_queue s @ map (redo_entry_for (fe_mem s)) as
    \<and> hash_set_entries (data s') = hash_set_entries (data s)"
proof (induction as arbitrary: s)
  case Nil
  then show ?case by simp
next
  case (Cons a as)
  then obtain s1 where s1: "log_address a (s, l) = Inr (s1, l)" "fe_ok s1" "log_moved s s1"
      "fe_queue s1 = fe_queue s @ [redo_entry_for (fe_mem s) a]"
      "hash_set_entries (data s1) = hash_set_entries (data s)"
    using log_address_ok [of s a l] by auto
  with Cons.IH [of s1] Cons.prems show ?case
    using log_moved_fields(1) [OF s1(3)] by (auto intro: log_moved_trans)
qed

lemma log_slots_ok:
  "fe_ok s \<Longrightarrow> distinct is \<Longrightarrow> (\<forall>i\<in>set is. i < length (hash_set_entries (data s))) \<Longrightarrow>
   length (fe_queue s) + length is \<le> 65535 \<Longrightarrow>
   \<exists>s'. log_slots is (s, l) = Inr (s', l) \<and> fe_ok s' \<and> log_moved s s'
    \<and> fe_queue s' = fe_queue s @ map (redo_entry_for (fe_mem s))
         (filter (\<lambda>a. a > 1000) (map (\<lambda>i. hash_set_entries (data s) ! i) is))
    \<and> length (hash_set_entries (data s')) = length (hash_set_entries (data s))
    \<and> (\<forall>i. hash_set_entries (data s') ! i = (if i \<in> set is then 0 else hash_set_entries (data s) ! i))"
proof (induction "is" arbitrary: s)
  case Nil
  then show ?case by simp
next
  case (Cons i "is")
  let ?a = "hash_set_entries (data s) ! i"
  have i: "i < length (hash_set_entries (data s))" using Cons.prems by simp
  show ?case
  proof (cases "?a = 0")
    case True
    then have "\<not> 1000 < ?a" by simp
    with True Cons.IH [of s] Cons.prems show ?thesis by fastforce
  next
    case False
    obtain s1 where s1: "(if ?a > 1000 then log_address ?a (s, l) else Inr (s, l)) = Inr (s1, l)"
        "fe_ok s1" "log_moved s s1" "hash_set_entries (data s1) = hash_set_entries (data s)"
        "fe_queue s1 = fe_queue s @ map (redo_entry_for (fe_mem s)) (filter (\<lambda>a. a > 1000) [?a])"
      using log_address_ok [of s ?a l] Cons.prems by (cases "?a > 1000") auto
    define s2 where "s2 = s1\<lparr>data := (data s1)\<lparr>hash_set_entries := (hash_set_entries (data s1))[i := 0]\<rparr>\<rparr>"
    have s2: "fe_ok s2" "fe_queue s2 = fe_queue s1" "log_moved s s2" "fe_mem s2 = fe_mem s"
        "hash_set_entries (data s2) = (hash_set_entries (data s))[i := 0]"
      using s1(2,4) log_moved_slots [OF s1(3)] log_moved_fields(1) [OF s1(3)]
      by (auto simp: s2_def fe_ok_def fe_queue_def)
    have len: "length (fe_queue s2) + length is \<le> 65535" using s2(2) s1(5) Cons.prems(4) by simp
    have pre: "distinct is" "\<forall>j\<in>set is. j < length (hash_set_entries (data s2))"
      using Cons.prems(2,3) s2(5) by auto
    have mp: "map (\<lambda>j. hash_set_entries (data s2) ! j) is = map (\<lambda>j. hash_set_entries (data s) ! j) is"
      using Cons.prems(2) s2(5) by (intro map_cong refl) (metis distinct.simps(2) nth_list_update_neq)
    obtain s' where "log_slots is (s2, l) = Inr (s', l)" "fe_ok s'" "log_moved s2 s'"
        "fe_queue s' = fe_queue s2 @ map (redo_entry_for (fe_mem s))
           (filter (\<lambda>a. a > 1000) (map (\<lambda>i. hash_set_entries (data s) ! i) is))"
        "length (hash_set_entries (data s')) = length (hash_set_entries (data s2))"
        "\<forall>j. hash_set_entries (data s') ! j = (if j \<in> set is then 0 else hash_set_entries (data s2) ! j)"
      using Cons.IH [OF s2(1) pre len] unfolding s2(4) mp by blast
    moreover have "log_slots (i # is) (s, l) = log_slots is (s2, l)"
      using False s1(1) i by (simp add: Let_def s2_def)
    ultimately show ?thesis
      using s1 s2 i by (auto simp: nth_list_update intro: log_moved_trans)
  qed
qed

lemma log_memcpys_ok:
  "fe_ok s \<Longrightarrow> length (fe_queue s) + sum_list (map (\<lambda>e. length (memcpy_blocks e) + 1) es) \<le> 65535 \<Longrightarrow>
   \<exists>s' logs. log_memcpys es (s, l) = Inr (s', l) \<and> fe_ok s' \<and> log_moved s s'
    \<and> fe_queue s' = fe_queue s @ concat logs
    \<and> list_all2 (\<lambda>e lg. \<exists>c. entry_type c = COMMIT_ENTRY \<and>
          lg = map (redo_entry_for (fe_mem s)) (memcpy_blocks e) @ [c]) es logs
    \<and> hash_set_entries (data s') = hash_set_entries (data s)"
proof (induction es arbitrary: s)
  case Nil
  then show ?case by (auto intro: exI [of _ "[]"])
next
  case (Cons e es)
  obtain s1 where s1: "log_addresses (memcpy_blocks e) (s, l) = Inr (s1, l)" "fe_ok s1" "log_moved s s1"
      "fe_queue s1 = fe_queue s @ map (redo_entry_for (fe_mem s)) (memcpy_blocks e)"
      "hash_set_entries (data s1) = hash_set_entries (data s)"
    using log_addresses_ok [OF Cons.prems(1), of "memcpy_blocks e" l] Cons.prems(2) by auto
  obtain s2 c where s2: "log_commit (s1, l) = Inr (s2, l)" "fe_ok s2" "log_moved s1 s2"
      "fe_queue s2 = fe_queue s1 @ [c]" "entry_type c = COMMIT_ENTRY"
      "hash_set_entries (data s2) = hash_set_entries (data s1)"
    using log_commit_ok [OF s1(2), of l] Cons.prems(2) s1(4) by auto
  have m: "fe_mem s2 = fe_mem s" "log_moved s s2"
    using log_moved_fields(1) [OF s1(3)] log_moved_fields(1) [OF s2(3)] log_moved_trans [OF s1(3) s2(3)] by auto
  obtain s' logs where s': "log_memcpys es (s2, l) = Inr (s', l)" "fe_ok s'" "log_moved s2 s'"
      "fe_queue s' = fe_queue s2 @ concat logs"
      "list_all2 (\<lambda>e lg. \<exists>c. entry_type c = COMMIT_ENTRY \<and>
          lg = map (redo_entry_for (fe_mem s)) (memcpy_blocks e) @ [c]) es logs"
      "hash_set_entries (data s') = hash_set_entries (data s2)"
    using Cons.IH [OF s2(2)] Cons.prems(2) s1(4) s2(4) m(1) by auto
  let ?lg = "map (redo_entry_for (fe_mem s)) (memcpy_blocks e) @ [c]"
  have "log_memcpys (e # es) (s, l) = Inr (s', l)" using s1(1) s2(1) s'(1) by simp
  moreover have "fe_queue s' = fe_queue s @ concat (?lg # logs)" using s1(4) s2(4) s'(4) by simp
  moreover have "list_all2 (\<lambda>e lg. \<exists>c. entry_type c = COMMIT_ENTRY \<and>
          lg = map (redo_entry_for (fe_mem s)) (memcpy_blocks e) @ [c]) (e # es) (?lg # logs)"
    using s'(5) s2(5) by simp
  moreover have "log_moved s s'" using log_moved_trans [OF m(2) s'(3)] .
  moreover have "hash_set_entries (data s') = hash_set_entries (data s)" using s1(5) s2(6) s'(6) by simp
  ultimately show ?case using s'(2) by blast
qed

text \<open>The part of the log that \<open>collect_payload_and_store_to_pmem\<close> writes before its commit.\<close>

definition buffers_ok :: "front \<Rightarrow> bool" where
  "buffers_ok s \<longleftrightarrow> length (hash_set_entries (data s)) = 1024
     \<and> ob_size (fe_overflow s) \<le> length (ob_buffer (fe_overflow s))
     \<and> ma_count (memcpyArray (data s)) \<le> length (ma_array (memcpyArray (data s)))"

definition payload_blocks :: "front \<Rightarrow> addr list" where
  "payload_blocks s =
     take (ob_size (fe_overflow s)) (ob_buffer (fe_overflow s)) @
     filter (\<lambda>a. a > 1000) (hash_set_entries (data s))"

lemma collect_payload_ok:
  assumes "fe_ok s" "length (hash_set_entries (data s)) = 1024"
    and "length (fe_queue s) + ob_size (fe_overflow s) + 1025 \<le> 65535"
    and "ob_size (fe_overflow s) \<le> length (ob_buffer (fe_overflow s))"
  shows "\<exists>s' c. collect_payload_and_store_to_pmem True (s, l) = Inr (s', l) \<and> fe_ok s'
    \<and> fe_queue s' = fe_queue s @ map (redo_entry_for (fe_mem s)) (payload_blocks s) @ [c]
    \<and> entry_type c = COMMIT_ENTRY
    \<and> remote_tail (fe_rb s') = thread_local_tail (data s')
    \<and> last_persisted_tail (fe_rb s') = thread_local_tail (data s')
    \<and> last_persisted_head (fe_rb s') = thread_local_head (data s)
    \<and> thread_local_head (data s') = thread_local_head (data s)
    \<and> hash_set_entries (data s') = replicate 1024 0
    \<and> fe_mem s' = fe_mem s \<and> fe_overflow s' = fe_overflow s \<and> combiner (data s') = combiner (data s)
    \<and> memcpyArray (data s') = memcpyArray (data s) \<and> remote_head (fe_rb s') = remote_head (fe_rb s)
    \<and> commit_metadata (fe_rb s') = commit_metadata (fe_rb s)"
proof -
  let ?ov = "take (ob_size (fe_overflow s)) (ob_buffer (fe_overflow s))"
  have "length (fe_queue s) + length ?ov \<le> 65535" using assms(3) by (simp add: min_def)
  then obtain s1 where s1: "log_addresses ?ov (s, l) = Inr (s1, l)" "fe_ok s1" "log_moved s s1"
      "fe_queue s1 = fe_queue s @ map (redo_entry_for (fe_mem s)) ?ov"
      "hash_set_entries (data s1) = hash_set_entries (data s)"
    using log_addresses_ok [OF assms(1), of ?ov l] by blast
  have m1: "fe_mem s1 = fe_mem s" using log_moved_fields(1) [OF s1(3)] .
  have all: "map ((!) (hash_set_entries (data s))) [0..<1024] = hash_set_entries (data s)"
    using map_nth [of "hash_set_entries (data s)"] assms(2) by simp
  have len1: "length (fe_queue s1) + length [0..<1024] \<le> 65535"
    using assms(3) s1(4) by (simp add: min_def)
  have pre: "distinct [0..<1024]" "\<forall>i\<in>set [0..<1024]. i < length (hash_set_entries (data s1))"
    using assms(2) s1(5) by simp_all
  obtain s2 where s2: "log_slots [0..<1024] (s1, l) = Inr (s2, l)" "fe_ok s2" "log_moved s1 s2"
      "fe_queue s2 = fe_queue s1 @ map (redo_entry_for (fe_mem s)) (filter (\<lambda>a. a > 1000) (hash_set_entries (data s)))"
      "length (hash_set_entries (data s2)) = 1024"
      "\<forall>i. hash_set_entries (data s2) ! i = (if i \<in> set [0..<1024] then 0 else hash_set_entries (data s) ! i)"
    using log_slots_ok [OF s1(2) pre len1, of l] unfolding s1(5) m1 all assms(2) by blast
  have z: "hash_set_entries (data s2) = replicate 1024 0"
    using s2(5,6) by (intro nth_equalityI) auto
  have "length (fe_queue s2) < 65535"
    using assms(3) s1(4) s2(4) length_filter_le [of "\<lambda>a. a > 1000" "hash_set_entries (data s)"] assms(2)
    by (simp add: min_def)
  then obtain s3 c where s3: "log_commit (s2, l) = Inr (s3, l)" "fe_ok s3" "log_moved s2 s3"
      "fe_queue s3 = fe_queue s2 @ [c]" "entry_type c = COMMIT_ENTRY"
      "hash_set_entries (data s3) = hash_set_entries (data s2)"
      "remote_tail (fe_rb s3) = thread_local_tail (data s3)"
    using log_commit_ok [OF s2(2), of l] by blast
  note fr = log_moved_fields [OF log_moved_trans [OF log_moved_trans [OF s1(3) s2(3)] s3(3)]]
  have "collect_payload_and_store_to_pmem True (s, l) = Inr (set_global_values s3, l)"
    using s1(1) s2(1) s3(1) assms(4) by (simp add: collect_payload_and_store_to_pmem_def HASH_SET_SIZE_def)
  then show ?thesis
    using s1(4) s2(4) s3 z fr
    by (intro exI [of _ "set_global_values s3"] exI [of _ c])
      (auto simp: payload_blocks_def set_global_values_def set_global_tail_value_def
        set_global_head_value_def fe_ok_def fe_queue_def)
qed

lemma load_global_ok:
  assumes "valid_index (last_persisted_head (fe_rb s))" "valid_index (last_persisted_tail (fe_rb s))"
  shows "fe_ok (load_global_values s)"
    and "fe_queue (load_global_values s)
      = rb_entries (buffer (fe_rb s)) (last_persisted_head (fe_rb s)) (last_persisted_tail (fe_rb s))"
  using assms by (simp_all add: fe_ok_def fe_queue_def load_global_values_def get_global_head_value_def
      get_global_tail_value_def)

text \<open>The copies the combiner recorded in this batch.\<close>

definition recorded_copies :: "front \<Rightarrow> memcpy_entry list" where
  "recorded_copies s = take (ma_count (memcpyArray (data s))) (ma_array (memcpyArray (data s)))"

text \<open>The whole of \<open>instrument_stop\<close> on a ring with room.\<close>

lemma instrument_stop_ok:
  assumes "valid_index (last_persisted_head (fe_rb s))" "valid_index (last_persisted_tail (fe_rb s))"
    and "buffers_ok s"
    and "rb_dist (last_persisted_head (fe_rb s)) (last_persisted_tail (fe_rb s))
       + sum_list (map (\<lambda>e. length (memcpy_blocks e) + 1) (recorded_copies s))
       + ob_size (fe_overflow s) + 1025 \<le> 65535"
  shows "\<exists>s' logs c. instrument_stop s l = Inr (s', l)
    \<and> list_all2 (\<lambda>e lg. \<exists>c. entry_type c = COMMIT_ENTRY \<and>
          lg = map (redo_entry_for (fe_mem s)) (memcpy_blocks e) @ [c]) (recorded_copies s) logs
    \<and> entry_type c = COMMIT_ENTRY
    \<and> rb_entries (buffer (fe_rb s')) (last_persisted_head (fe_rb s')) (last_persisted_tail (fe_rb s')) =
        rb_entries (buffer (fe_rb s)) (last_persisted_head (fe_rb s)) (last_persisted_tail (fe_rb s))
        @ concat logs @ map (redo_entry_for (fe_mem s)) (payload_blocks s) @ [c]
    \<and> remote_tail (fe_rb s') = last_persisted_tail (fe_rb s')
    \<and> combiner (data s') = 0 \<and> hash_set_entries (data s') = replicate 1024 0
    \<and> number_of_hash_set_entries (data s') = 0 \<and> ma_count (memcpyArray (data s')) = 0
    \<and> ob_size (fe_overflow s') = 0 \<and> fe_mem s' = fe_mem s
    \<and> last_persisted_head (fe_rb s') = last_persisted_head (fe_rb s)
    \<and> remote_head (fe_rb s') = remote_head (fe_rb s) \<and> valid_index (last_persisted_tail (fe_rb s'))
    \<and> commit_metadata (fe_rb s') = commit_metadata (fe_rb s) \<and> ob_buffer (fe_overflow s') = ob_buffer (fe_overflow s)
    \<and> ma_array (memcpyArray (data s')) = ma_array (memcpyArray (data s))"
proof -
  define s0 where "s0 = load_global_values (s\<lparr>data := (data s)\<lparr>combiner := 0\<rparr>\<rparr>)"
  have s0: "fe_ok s0" "fe_queue s0 = rb_entries (buffer (fe_rb s)) (last_persisted_head (fe_rb s))
        (last_persisted_tail (fe_rb s))"
      "fe_mem s0 = fe_mem s" "fe_overflow s0 = fe_overflow s" "memcpyArray (data s0) = memcpyArray (data s)"
      "hash_set_entries (data s0) = hash_set_entries (data s)" "combiner (data s0) = 0"
      "commit_metadata (fe_rb s0) = commit_metadata (fe_rb s)"
      "remote_head (fe_rb s0) = remote_head (fe_rb s)" "thread_local_head (data s0) = last_persisted_head (fe_rb s)"
    using load_global_ok [of "s\<lparr>data := (data s)\<lparr>combiner := 0\<rparr>\<rparr>"] assms(1,2)
    unfolding s0_def by (simp_all add: load_global_values_def get_global_head_value_def)
  obtain s1 logs where s1: "log_memcpys (recorded_copies s) (s0, l) = Inr (s1, l)" "fe_ok s1" "log_moved s0 s1"
      "fe_queue s1 = fe_queue s0 @ concat logs"
      "list_all2 (\<lambda>e lg. \<exists>c. entry_type c = COMMIT_ENTRY \<and>
          lg = map (redo_entry_for (fe_mem s)) (memcpy_blocks e) @ [c]) (recorded_copies s) logs"
      "hash_set_entries (data s1) = hash_set_entries (data s0)"
    using log_memcpys_ok [OF s0(1), of "recorded_copies s" l] assms(4) s0(2,3) by auto
  have len: "length (concat logs) = sum_list (map (\<lambda>e. length (memcpy_blocks e) + 1) (recorded_copies s))"
    using s1(5) by (induction rule: list_all2_induct) auto
  note m1 = log_moved_fields [OF s1(3)]
  have pb: "payload_blocks s1 = payload_blocks s"
    using m1(2) s1(6) s0 by (simp add: payload_blocks_def)
  obtain s2 c where s2: "collect_payload_and_store_to_pmem True (s1, l) = Inr (s2, l)" "fe_ok s2"
      "fe_queue s2 = fe_queue s1 @ map (redo_entry_for (fe_mem s)) (payload_blocks s) @ [c]"
      "entry_type c = COMMIT_ENTRY" "remote_tail (fe_rb s2) = thread_local_tail (data s2)"
      "last_persisted_tail (fe_rb s2) = thread_local_tail (data s2)"
      "last_persisted_head (fe_rb s2) = thread_local_head (data s2)"
      "hash_set_entries (data s2) = replicate 1024 0" "fe_mem s2 = fe_mem s" "combiner (data s2) = 0"
      "remote_head (fe_rb s2) = remote_head (fe_rb s)" "last_persisted_head (fe_rb s2) = last_persisted_head (fe_rb s)"
      "commit_metadata (fe_rb s2) = commit_metadata (fe_rb s)" "fe_overflow s2 = fe_overflow s"
      "memcpyArray (data s2) = memcpyArray (data s)"
    using collect_payload_ok [OF s1(2), of l] m1 s1(4,6) s0 assms(3,4) len pb
    unfolding buffers_ok_def by auto
  define s' where "s' = s2\<lparr>data := (data s2)\<lparr>number_of_hash_set_entries := 0,
      memcpyArray := (memcpyArray (data s2))\<lparr>ma_count := 0\<rparr>\<rparr>,
      fe_overflow := (fe_overflow s2)\<lparr>ob_size := 0\<rparr>\<rparr>"
  have "instrument_stop s l = Inr (s', l)"
    using s1(1) s2(1) s0(5) assms(3) by (simp add: buffers_ok_def instrument_stop_def Let_def s0_def [symmetric] recorded_copies_def s'_def)
  moreover have "rb_entries (buffer (fe_rb s')) (last_persisted_head (fe_rb s')) (last_persisted_tail (fe_rb s')) =
        fe_queue s0 @ concat logs @ map (redo_entry_for (fe_mem s)) (payload_blocks s) @ [c]"
    using s2(3,6,7) s1(4) by (simp add: s'_def fe_queue_def)
  ultimately show ?thesis
    using s1(5) s2 s0(2) unfolding fe_ok_def
    by (intro exI [of _ s'] exI [of _ logs] exI [of _ c]) (simp add: s'_def)
qed

section \<open>Copies cover their bytes\<close>

lemma size_through_int:
  assumes "unat sz < 2 ^ 31"
  shows "(scast (ucast sz :: u32) :: u64) = sz"
proof -
  have "unat (ucast sz :: u32) = unat sz"
    using assms by (simp add: unsigned_ucast_eq unsigned_take_bit_eq take_bit_nat_eq_self)
  then have "unat (scast (ucast sz :: u32) :: u64) = unat sz"
    using unat_scast_small [of "ucast sz"] assms by simp
  then show ?thesis by (simp only: word_unat_eq_iff)
qed

lemma memcpy_blocks_cover:
  assumes "unat sz < 2 ^ 31" "in_range a (unat sz) x"
  shows "\<exists>b\<in>set (memcpy_blocks \<lparr>me_start = a, me_end = a + sz\<rparr>). in_range b 32 x"
proof -
  let ?d = "unat (x - a)"
  have "sint (ucast sz :: u32) = int (unat sz)"
    using sint_small32 [OF assms(1)] by simp
  then have bl: "memcpy_blocks \<lparr>me_start = a, me_end = a + sz\<rparr> =
      map (\<lambda>i. a + of_nat (32 * i)) [0..<(unat sz + 31) div 32]"
    by (simp add: memcpy_blocks_def Let_def PAYLOAD_SIZE_def nat_div_distrib nat_add_distrib)
  have d: "?d < unat sz" using assms(2) by (simp add: in_range_def)
  then have "?d div 32 < (unat sz + 31) div 32" by linarith
  moreover have "in_range (a + of_nat (32 * (?d div 32))) 32 x"
  proof -
    define n where "n = 32 * (?d div 32)"
    have n: "n \<le> ?d" "?d - n < 32" by (simp_all add: n_def minus_mult_div_eq_mod)
    have u: "unat (of_nat n :: u64) = n"
      unfolding unat_of_nat using n(1) unat_lt64 [of "x - a"] by (intro mod_less) simp
    then have "unat ((x - a) - of_nat n) = ?d - n" using n(1) by (simp add: unat_sub word_le_nat_alt)
    moreover have "x - (a + of_nat n) = (x - a) - of_nat n" by simp
    ultimately have "unat (x - (a + of_nat n)) < 32" using n(2) by (simp only:)
    then show ?thesis unfolding n_def in_range_def .
  qed
  ultimately show ?thesis unfolding bl by auto
qed

section \<open>Properties\<close>

text \<open>
  C12: The end of a batch writes the batch to the log and publishes it. When the ring has room,
  \<open>instrument_stop\<close> returns without waiting; it appends, for each recorded copy, the current
  bytes of its blocks and a commit entry, then the blocks of the overflow buffer, then every
  block of the hash set above address 1000, and a last commit entry; the published tail is the
  end of that. The thread is no longer the combiner, the hash set is empty, all three counters
  are zero, and the application's memory is unchanged.
\<close>

theorem instrument_stop_logs_batch:
  assumes "valid_index (last_persisted_head (fe_rb s))" "valid_index (last_persisted_tail (fe_rb s))"
    and "buffers_ok s"
    and "rb_dist (last_persisted_head (fe_rb s)) (last_persisted_tail (fe_rb s))
       + sum_list (map (\<lambda>e. length (memcpy_blocks e) + 1) (recorded_copies s))
       + ob_size (fe_overflow s) + 1025 \<le> 65535"
  shows "\<exists>s' logs c. instrument_stop s l = Inr (s', l)
    \<and> list_all2 (\<lambda>e lg. \<exists>c. entry_type c = COMMIT_ENTRY \<and>
          lg = map (redo_entry_for (fe_mem s)) (memcpy_blocks e) @ [c]) (recorded_copies s) logs
    \<and> entry_type c = COMMIT_ENTRY
    \<and> rb_entries (buffer (fe_rb s')) (last_persisted_head (fe_rb s')) (last_persisted_tail (fe_rb s')) =
        rb_entries (buffer (fe_rb s)) (last_persisted_head (fe_rb s)) (last_persisted_tail (fe_rb s))
        @ concat logs @ map (redo_entry_for (fe_mem s)) (payload_blocks s) @ [c]
    \<and> remote_tail (fe_rb s') = last_persisted_tail (fe_rb s')
    \<and> combiner (data s') = 0 \<and> hash_set_entries (data s') = replicate 1024 0
    \<and> number_of_hash_set_entries (data s') = 0 \<and> ma_count (memcpyArray (data s')) = 0
    \<and> ob_size (fe_overflow s') = 0 \<and> fe_mem s' = fe_mem s
    \<and> last_persisted_head (fe_rb s') = last_persisted_head (fe_rb s)
    \<and> remote_head (fe_rb s') = remote_head (fe_rb s) \<and> valid_index (last_persisted_tail (fe_rb s'))"
  using instrument_stop_ok [OF assms, of l] by blast

text \<open>
  C32: A batch is not one atomic unit of the log: it has one commit entry for each recorded copy
  and one more, so the back end can persist, and recovery can expose, the copies of a batch
  without the rest of it.
\<close>

theorem batch_has_one_commit_per_copy:
  assumes "valid_index (last_persisted_head (fe_rb s))" "valid_index (last_persisted_tail (fe_rb s))"
    and "buffers_ok s"
    and "rb_dist (last_persisted_head (fe_rb s)) (last_persisted_tail (fe_rb s))
       + sum_list (map (\<lambda>e. length (memcpy_blocks e) + 1) (recorded_copies s))
       + ob_size (fe_overflow s) + 1025 \<le> 65535"
  shows "\<exists>s' batch. instrument_stop s l = Inr (s', l)
    \<and> rb_entries (buffer (fe_rb s')) (last_persisted_head (fe_rb s')) (last_persisted_tail (fe_rb s')) =
        rb_entries (buffer (fe_rb s)) (last_persisted_head (fe_rb s)) (last_persisted_tail (fe_rb s)) @ batch
    \<and> length (filter (\<lambda>e. entry_type e = COMMIT_ENTRY) batch) = length (recorded_copies s) + 1"
proof -
  obtain s' logs c where s': "instrument_stop s l = Inr (s', l)"
      "list_all2 (\<lambda>e lg. \<exists>c. entry_type c = COMMIT_ENTRY \<and>
          lg = map (redo_entry_for (fe_mem s)) (memcpy_blocks e) @ [c]) (recorded_copies s) logs"
      "entry_type c = COMMIT_ENTRY"
      "rb_entries (buffer (fe_rb s')) (last_persisted_head (fe_rb s')) (last_persisted_tail (fe_rb s')) =
        rb_entries (buffer (fe_rb s)) (last_persisted_head (fe_rb s)) (last_persisted_tail (fe_rb s))
        @ concat logs @ map (redo_entry_for (fe_mem s)) (payload_blocks s) @ [c]"
    using instrument_stop_ok [OF assms, of l] by blast
  have none: "filter (\<lambda>e. entry_type e = COMMIT_ENTRY) (map (redo_entry_for m) as) = []" for m as
    by (auto simp: filter_empty_conv redo_entry_for_def entry_type_defs)
  have "length (filter (\<lambda>e. entry_type e = COMMIT_ENTRY) (concat logs)) = length (recorded_copies s)"
    using s'(2) by (induction rule: list_all2_induct) (auto simp: none)
  with s' none show ?thesis
    by (intro exI [of _ s'] exI [of _ "concat logs @ map (redo_entry_for (fe_mem s)) (payload_blocks s) @ [c]"]) simp
qed

text \<open>
  C30: The wrapper around \<open>memcpy\<close> does not change what the program computes. On any thread, the
  wrapper followed by the wrapped call with the size it leaves has exactly the effect on memory
  of the original call, for copies below 2 GiB; on the combiner the copy is recorded, and the
  blocks logged for it cover every byte of the destination.
\<close>

theorem wrap_pre_keeps_memcpy:
  assumes "unat sz < 2 ^ 31" "ma_count (memcpyArray (data s)) < length (ma_array (memcpyArray (data s)))"
  shows "\<exists>rest s'. wrap_pre dst src sz s = Inr (rest, s')
    \<and> write_bytes (fe_mem s') dst (read_bytes (fe_mem s') src (unat rest))
        = write_bytes (fe_mem s) dst (read_bytes (fe_mem s) src (unat sz))
    \<and> (combiner (data s) = 1 \<longrightarrow>
         (\<exists>e. recorded_copies s' = recorded_copies s @ [e]
            \<and> (\<forall>x. in_range dst (unat sz) x \<longrightarrow> (\<exists>b\<in>set (memcpy_blocks e). in_range b 32 x))))"
proof -
  note sz = size_through_int [OF assms(1)]
  show ?thesis
  proof (cases "combiner (data s) = 1")
    case True
    let ?e = "\<lparr>me_start = dst, me_end = dst + sz\<rparr>"
    have "write_bytes m dst (read_bytes m src 0) = m" for m
      by (simp add: read_bytes_def write_bytes_def)
    moreover have "take (Suc n) (xs[n := ?e]) = take n xs @ [?e]" if "n < length xs" for n and xs :: "memcpy_entry list"
      using that by (simp add: take_Suc_conv_app_nth)
    ultimately show ?thesis
      using True assms(2) sz memcpy_blocks_cover [OF assms(1)]
      by (auto simp: wrap_pre_def record_memcpy_def recorded_copies_def Let_def)
  next
    case False
    then show ?thesis by (simp add: wrap_pre_def Let_def)
  qed
qed

text \<open>
  The record of copies has room for a hundred; with the next copy of the same batch the
  wrapper writes past the end of the array.
\<close>

lemma too_many_copies_overflow:
  assumes "combiner (data s) = 1" "length (ma_array (memcpyArray (data s))) = MAX_NUM_OF_MEMCPY"
    and "ma_count (memcpyArray (data s)) = 100"
  shows "wrap_pre dst src sz s = Inl OutOfBounds \<and> instrumented_memcpy dst src sz s = Inl OutOfBounds"
  using assms by (simp add: wrap_pre_def instrumented_memcpy_def record_memcpy_def Let_def MAX_NUM_OF_MEMCPY_def)

lemma log_mmap_ok:
  assumes "fe_ok s" "length (fe_queue s) + 2 \<le> 65535"
  shows "\<exists>s' e c. log_mmap me (s, l) = Inr (s', l) \<and> fe_ok s' \<and> log_moved s s'
    \<and> fe_queue s' = fe_queue s @ [e, c] \<and> map_entry_of e = me \<and> entry_type c = COMMIT_ENTRY
    \<and> remote_tail (fe_rb s') = thread_local_tail (data s')"
proof -
  let ?h = "thread_local_head (data s)" and ?t = "thread_local_tail (data s)"
  let ?e = "store_map_entry me (buffer (fe_rb s) ?t)"
  have ne: "?h \<noteq> next_index ?t" using room_next [OF assms(1)] assms(2) by simp
  have v: "valid_index ?h" "valid_index ?t" using assms(1) by (simp_all add: fe_ok_def)
  define s1 where "s1 = moved ((buffer (fe_rb s))(?t := ?e)) (remote_tail (fe_rb s)) (last_persisted_tail (fe_rb s))
      (next_index ?t) (hash_set_entries (data s)) s"
  have "ring_buffer_enqueue_mmap_entry (fe_rb s) me ?h ?t l = Inr (put_slot ?t ?e (fe_rb s), ?h, next_index ?t, l)"
    using ne by (simp add: enqueue_mmap_result spin_free)
  then have p: "produce (\<lambda>rb. ring_buffer_enqueue_mmap_entry rb me) (s, l) = Inr (s1, l)"
    by (simp add: produce_def s1_def moved_def put_slot_def)
  have "log_moved s s1" unfolding log_moved_def s1_def by blast
  moreover have "fe_ok s1" "fe_queue s1 = fe_queue s @ [?e]"
    using v rb_entries_put [OF v ne [symmetric]] unfolding s1_def
    by (simp_all add: fe_ok_def fe_queue_def moved_def)
  ultimately have s1: "fe_ok s1" "log_moved s s1" "fe_queue s1 = fe_queue s @ [?e]" by blast+
  obtain s2 c where s2: "log_commit (s1, l) = Inr (s2, l)" "fe_ok s2" "log_moved s1 s2"
      "fe_queue s2 = fe_queue s1 @ [c]" "entry_type c = COMMIT_ENTRY"
      "remote_tail (fe_rb s2) = thread_local_tail (data s2)"
    using log_commit_ok [OF s1(1), of l] s1(3) assms(2) by auto
  have "log_mmap me (s, l) = Inr (s2, l)" using p s2(1) by (simp add: log_mmap_def)
  then show ?thesis
    using s1 s2 log_moved_trans [OF s1(2) s2(3)]
    by (intro exI [of _ s2] exI [of _ ?e] exI [of _ c]) simp
qed

text \<open>
  A mapping the application makes is in the log when the system call returns to it: the
  callback appends an mmap entry with the address (the one the kernel returned if the caller
  gave none) and the size, and a commit entry, and publishes both. The entry is a transient one
  exactly on threads that are not the combiner, and those leave the writer word of the lock at 0.
\<close>

lemma post_syscall_publishes_mmap:
  assumes "valid_index (last_persisted_head (fe_rb s))" "valid_index (last_persisted_tail (fe_rb s))"
    and "rb_dist (last_persisted_head (fe_rb s)) (last_persisted_tail (fe_rb s)) + 2 \<le> 65535"
    and "ls_sysnum (lastSyscall (data s)) = SYS_mmap" "ls_addr (lastSyscall (data s)) \<noteq> 0 \<or> ret \<noteq> -1"
    and "combiner (data s) \<noteq> 0 \<or> wait_for_writers obs = Inr ()"
  shows "\<exists>s' e c. event_post_syscall SYS_mmap ret obs s l = Inr (s', l)
    \<and> rb_entries (buffer (fe_rb s')) (last_persisted_head (fe_rb s')) (last_persisted_tail (fe_rb s')) =
        rb_entries (buffer (fe_rb s)) (last_persisted_head (fe_rb s)) (last_persisted_tail (fe_rb s)) @ [e, c]
    \<and> map_entry_of e =
        \<lparr>map_entry_type = (if combiner (data s) = 0 then TRANSIENT_MMAP_ENTRY else MMAP_ENTRY),
         map_entry_addr = (if ls_addr (lastSyscall (data s)) = 0 then ret else ls_addr (lastSyscall (data s))),
         map_entry_size = ls_size (lastSyscall (data s))\<rparr>
    \<and> entry_type c = COMMIT_ENTRY \<and> remote_tail (fe_rb s') = last_persisted_tail (fe_rb s')
    \<and> fc_writers s' = (if combiner (data s) = 0 then 0 else fc_writers s)"
proof -
  let ?ls = "lastSyscall (data s)"
  let ?a = "if ls_addr ?ls = 0 then ret else ls_addr ?ls"
  let ?me = "\<lparr>map_entry_type = (if combiner (data s) = 0 then TRANSIENT_MMAP_ENTRY else MMAP_ENTRY),
         map_entry_addr = ?a, map_entry_size = ls_size ?ls\<rparr>"
  define s1 where "s1 = s\<lparr>data := (data s)\<lparr>lastSyscall := ?ls\<lparr>ls_addr := ?a\<rparr>\<rparr>\<rparr>"
  define s2 where "s2 = (if combiner (data s) = 0 then s1\<lparr>fc_writers := 1\<rparr> else s1)"
  have s2: "fe_rb s2 = fe_rb s" "combiner (data s) \<noteq> 0 \<Longrightarrow> fc_writers s2 = fc_writers s"
    by (simp_all add: s2_def s1_def)
  have q: "fe_ok (load_global_values s2)" "fe_queue (load_global_values s2)
      = rb_entries (buffer (fe_rb s)) (last_persisted_head (fe_rb s)) (last_persisted_tail (fe_rb s))"
    using load_global_ok [of s2] assms(1,2) s2(1) by simp_all
  obtain s3 e c where s3: "log_mmap ?me (load_global_values s2, l) = Inr (s3, l)" "log_moved (load_global_values s2) s3"
      "fe_queue s3 = fe_queue (load_global_values s2) @ [e, c]" "map_entry_of e = ?me" "entry_type c = COMMIT_ENTRY"
      "remote_tail (fe_rb s3) = thread_local_tail (data s3)"
    using log_mmap_ok [OF q(1), of ?me l] q(2) assms(3) by auto
  define s' where "s' = (if combiner (data s) = 0 then (set_global_values s3)\<lparr>fc_writers := 0\<rparr> else set_global_values s3)"
  have "event_post_syscall SYS_mmap ret obs s l = Inr (s', l)"
    using assms(4-6) s3(1)
    by (auto simp: event_post_syscall_def Let_def s1_def s2_def s'_def SYS_mmap_def SYS_munmap_def)
  moreover have "fc_writers s3 = fc_writers s2"
    using log_moved_fields(3) [OF s3(2)] by (simp add: load_global_values_def)
  then have "fc_writers s' = (if combiner (data s) = 0 then 0 else fc_writers s)"
    using s2(2) by (simp add: s'_def set_global_values_def)
  moreover have "rb_entries (buffer (fe_rb s')) (last_persisted_head (fe_rb s')) (last_persisted_tail (fe_rb s')) = fe_queue s3"
      "remote_tail (fe_rb s') = last_persisted_tail (fe_rb s')"
    using s3(6) by (simp_all add: s'_def set_global_values_def set_global_tail_value_def set_global_head_value_def fe_queue_def)
  ultimately show ?thesis using s3(3-5) q(2) by auto
qed

text \<open>
  A thread that is not marked as the combiner and maps memory while the writer word is taken,
  by itself or by another thread, waits in the callback and does nothing else.
\<close>

lemma post_syscall_waits_for_writer:
  assumes "ls_sysnum (lastSyscall (data s)) = SYS_mmap" "ls_addr (lastSyscall (data s)) \<noteq> 0 \<or> ret \<noteq> -1"
    and "combiner (data s) = 0" "\<forall>(v, ok)\<in>set obs. v \<noteq> 0"
  shows "event_post_syscall SYS_mmap ret obs s l = Inl Spinning"
proof -
  have "wait_for_writers obs = Inl Spinning"
    using assms(4) by (induction obs rule: wait_for_writers.induct) auto
  then show ?thesis
    using assms(1-3) by (auto simp: event_post_syscall_def Let_def SYS_mmap_def SYS_munmap_def)
qed

section \<open>Witnesses\<close>

definition example_thread :: per_thread where
  "example_thread =
     \<lparr>number_of_hash_set_entries = 1, hash_set_entries = (replicate 1024 0)[0 := 4096], hash_set_size = 1024,
      lastSyscall = \<lparr>ls_sysnum = 9, ls_addr = 0, ls_size = 8192\<rparr>, combiner = 1, thread_local_head = 0,
      thread_local_tail = 0, skip_mmap = 0,
      deferredMmapEntries = \<lparr>number_of_regions_in_this_batch = 0, transient_mmap_entries = []\<rparr>,
      memcpyArray = \<lparr>ma_count = 1, ma_array = replicate 100 \<lparr>me_start = 8192, me_end = 8240\<rparr>\<rparr>\<rparr>"

definition example_front :: front where
  "example_front =
     \<lparr>data = example_thread, fe_rb = zero_ring_buffer, fe_overflow = \<lparr>ob_size = 0, ob_buffer = replicate 4096 0\<rparr>,
      fe_mem = (\<lambda>_. 7), fc_writers = 0\<rparr>"

lemma example_copies: "recorded_copies example_front = [\<lparr>me_start = 8192, me_end = 8240\<rparr>]"
  by (simp add: recorded_copies_def example_front_def example_thread_def)

lemma example_room:
  "valid_index (last_persisted_head (fe_rb example_front))" "valid_index (last_persisted_tail (fe_rb example_front))"
  "buffers_ok example_front"
  "rb_dist (last_persisted_head (fe_rb example_front)) (last_persisted_tail (fe_rb example_front))
       + sum_list (map (\<lambda>e. length (memcpy_blocks e) + 1) (recorded_copies example_front))
       + ob_size (fe_overflow example_front) + 1025 \<le> 65535"
  by (simp_all add: example_copies memcpy_blocks_def Let_def)
    (simp_all add: buffers_ok_def example_front_def example_thread_def zero_ring_buffer_def)

lemma example_ring_empty:
  "rb_entries (buffer (fe_rb example_front)) (last_persisted_head (fe_rb example_front))
      (last_persisted_tail (fe_rb example_front)) = []"
  using rb_entries_Nil_iff example_room(1,2) by (simp add: example_front_def zero_ring_buffer_def)

theorem instrument_stop_logs_batch_witness:
  "\<exists>s'. instrument_stop example_front [] = Inr (s', []) \<and> combiner (data s') = 0
     \<and> fe_mem s' = (\<lambda>_. 7)"
  using instrument_stop_logs_batch [OF example_room, of "[]"] by (auto simp: example_front_def)

theorem batch_has_one_commit_per_copy_witness:
  "\<exists>s' batch. instrument_stop example_front [] = Inr (s', [])
     \<and> rb_entries (buffer (fe_rb s')) (last_persisted_head (fe_rb s')) (last_persisted_tail (fe_rb s')) = batch
     \<and> length (filter (\<lambda>e. entry_type e = COMMIT_ENTRY) batch) = length (recorded_copies example_front) + 1"
  using batch_has_one_commit_per_copy [OF example_room, of "[]"] by (simp add: example_ring_empty)

theorem wrap_pre_keeps_memcpy_witness:
  "\<exists>rest s'. wrap_pre 4096 8192 64 example_front = Inr (rest, s') \<and> rest = 0
     \<and> write_bytes (fe_mem s') 4096 (read_bytes (fe_mem s') 8192 0) =
         write_bytes (\<lambda>_. 7) 4096 (read_bytes (\<lambda>_. 7) 8192 64)"
proof -
  obtain rest s' where w: "wrap_pre 4096 8192 64 example_front = Inr (rest, s')"
      "write_bytes (fe_mem s') 4096 (read_bytes (fe_mem s') 8192 (unat rest)) =
         write_bytes (\<lambda>_. 7) 4096 (read_bytes (\<lambda>_. 7) 8192 64)"
    using wrap_pre_keeps_memcpy [of 64 example_front 4096 8192]
    by (auto simp: example_front_def example_thread_def)
  then have "rest = 0"
    by (auto simp: wrap_pre_def example_front_def example_thread_def record_memcpy_def Let_def)
  with w show ?thesis by auto
qed

lemma too_many_copies_overflow_witness:
  "wrap_pre 4096 8192 64
     (example_front\<lparr>data := example_thread\<lparr>memcpyArray := \<lparr>ma_count = 100, ma_array = replicate 100 \<lparr>me_start = 0, me_end = 0\<rparr>\<rparr>\<rparr>\<rparr>)
   = Inl OutOfBounds"
  using too_many_copies_overflow
    [of "example_front\<lparr>data := example_thread\<lparr>memcpyArray := \<lparr>ma_count = 100, ma_array = replicate 100 \<lparr>me_start = 0, me_end = 0\<rparr>\<rparr>\<rparr>\<rparr>"]
  by (simp add: example_thread_def MAX_NUM_OF_MEMCPY_def)

lemma post_syscall_publishes_mmap_witness:
  "\<exists>s' e c. event_post_syscall SYS_mmap 65536 [] example_front [] = Inr (s', [])
     \<and> rb_entries (buffer (fe_rb s')) (last_persisted_head (fe_rb s')) (last_persisted_tail (fe_rb s')) = [e, c]
     \<and> map_entry_of e = \<lparr>map_entry_type = MMAP_ENTRY, map_entry_addr = 65536, map_entry_size = 8192\<rparr>
     \<and> entry_type c = COMMIT_ENTRY \<and> remote_tail (fe_rb s') = last_persisted_tail (fe_rb s')
     \<and> fc_writers s' = fc_writers example_front"
proof -
  have call: "lastSyscall (data example_front) = \<lparr>ls_sysnum = 9, ls_addr = 0, ls_size = 8192\<rparr>"
      "combiner (data example_front) = 1"
      "rb_dist (last_persisted_head (fe_rb example_front)) (last_persisted_tail (fe_rb example_front)) + 2 \<le> 65535"
    by (simp_all add: example_front_def example_thread_def zero_ring_buffer_def)
  show ?thesis
    using post_syscall_publishes_mmap [OF example_room(1,2) call(3), of 65536 "[]" "[]"] call(1,2)
    by (simp add: SYS_mmap_def example_ring_empty)
qed

lemma post_syscall_waits_for_writer_witness:
  "event_post_syscall SYS_mmap 65536 [(1, False), (1, False)]
     (example_front\<lparr>data := example_thread\<lparr>combiner := 0\<rparr>\<rparr>) [] = Inl Spinning"
  using post_syscall_waits_for_writer
    [of "example_front\<lparr>data := example_thread\<lparr>combiner := 0\<rparr>\<rparr>" 65536 "[(1, False), (1, False)]" "[]"]
  by (simp add: example_thread_def SYS_mmap_def)

end
