(* ===== verification/Spin_Lock.thy ===== *)
theory Spin_Lock
  imports Mangosteen_Prelude
begin

text \<open>
  The reader-writer lock of \<^verbatim>\<open>flat_combining/writer_preference_spin_lock.c\<close>: one writer word and one
  flag per reader, 128 bytes apart. Every operation here is one atomic access to the lock; the
  loops of \<open>readLock\<close>, and of the writers that wait for the readers to drain, interleave with
  other threads and are steps of the relation in \<open>Flat_Combining\<close>; here they also stand as one
  thread runs them.

  The locale \<open>lock_words\<close> is what the users of the lock rely on.
\<close>

section \<open>The lock\<close>

definition READING :: u32 where "READING = 0"
definition NOT_READING :: u32 where "NOT_READING = 1"
definition NUMBER_OF_THREADS :: nat where "NUMBER_OF_THREADS = 4"

text \<open>\<open>128 / sizeof(int)\<close>.\<close>

definition padding_size :: nat where "padding_size = 32"

record spin_lock =
  writers :: u32
  readers_set :: "u32 list"

definition lockIsFree :: "spin_lock \<Rightarrow> bool" where
  "lockIsFree l \<longleftrightarrow> writers l = 0"

definition markReaderAsActive :: "nat \<Rightarrow> spin_lock \<Rightarrow> spin_lock" where
  "markReaderAsActive thread_id l = l\<lparr>readers_set := (readers_set l)[thread_id * padding_size := READING]\<rparr>"

definition markReaderAsInactive :: "nat \<Rightarrow> spin_lock \<Rightarrow> spin_lock" where
  "markReaderAsInactive thread_id l = l\<lparr>readers_set := (readers_set l)[thread_id * padding_size := NOT_READING]\<rparr>"

text \<open>One test of the loop in \<open>activeReadersSetIsEmpty\<close>, and the loop on a lock nobody changes.\<close>

definition reader_is_active :: "nat \<Rightarrow> spin_lock \<Rightarrow> bool" where
  "reader_is_active i l \<longleftrightarrow> readers_set l ! (i * padding_size) = READING"

definition activeReadersSetIsEmpty :: "spin_lock \<Rightarrow> bool" where
  "activeReadersSetIsEmpty l \<longleftrightarrow> list_all (\<lambda>i. \<not> reader_is_active i l) [0..<NUMBER_OF_THREADS]"

text \<open>The compare-and-exchange of the writer word from 0 to 1.\<close>

definition lockWriter :: "spin_lock \<Rightarrow> bool \<times> spin_lock" where
  "lockWriter l = (if writers l = 0 then (True, l\<lparr>writers := 1\<rparr>) else (False, l))"

definition releaseWriter :: "spin_lock \<Rightarrow> spin_lock" where
  "releaseWriter l = l\<lparr>writers := 0\<rparr>"

definition writeUnlock :: "spin_lock \<Rightarrow> spin_lock" where
  "writeUnlock = releaseWriter"

definition readUnlock :: "nat \<Rightarrow> spin_lock \<Rightarrow> spin_lock" where
  "readUnlock = markReaderAsInactive"

text \<open>
  The two loops as one thread runs them, on what its loads return: the reader flags at each test of
  \<open>activeReadersSetIsEmpty\<close>, the writer word at each test of \<open>lockIsFree\<close>.
\<close>

fun wait_for_readers :: "u32 list list \<Rightarrow> spin_lock \<Rightarrow> (bool \<times> spin_lock) result" where
  "wait_for_readers [] l = Inl Spinning"
| "wait_for_readers (r # rs) l =
     (if activeReadersSetIsEmpty (l\<lparr>readers_set := r\<rparr>) then Inr (True, l\<lparr>readers_set := r\<rparr>)
      else wait_for_readers rs l)"

definition tryWriteLock :: "u32 list list \<Rightarrow> spin_lock \<Rightarrow> (bool \<times> spin_lock) result" where
  "tryWriteLock seen l =
     (if lockIsFree l
      then let (locked, l') = lockWriter l in if locked then wait_for_readers seen l' else Inr (False, l')
      else Inr (False, l))"

fun readLock :: "nat \<Rightarrow> u32 list \<Rightarrow> spin_lock \<Rightarrow> spin_lock result"
  and readLock_spin :: "nat \<Rightarrow> u32 list \<Rightarrow> spin_lock \<Rightarrow> spin_lock result" where
  "readLock thread_id [] l = Inl Spinning"
| "readLock thread_id (w # ws) l =
     (let l' = (markReaderAsActive thread_id l)\<lparr>writers := w\<rparr>
      in if lockIsFree l' then Inr l' else readLock_spin thread_id ws (markReaderAsInactive thread_id l'))"
| "readLock_spin thread_id [] l = Inl Spinning"
| "readLock_spin thread_id (w # ws) l =
     (let l' = l\<lparr>writers := w\<rparr>
      in if lockIsFree l' then readLock thread_id ws l' else readLock_spin thread_id ws l')"

text \<open>The lock \<open>allocateFlatCombiningdMemory\<close> sets up: the words between the flags are what the
  allocated block held.\<close>

definition allocate_lock :: "u32 list \<Rightarrow> spin_lock" where
  "allocate_lock garbage =
     \<lparr>writers = 0,
      readers_set = fold (\<lambda>i xs. xs[i * padding_size := NOT_READING]) [0..<NUMBER_OF_THREADS]
                      (take (NUMBER_OF_THREADS * padding_size) garbage)\<rparr>"

definition lock_wf :: "spin_lock \<Rightarrow> bool" where
  "lock_wf l \<longleftrightarrow> length (readers_set l) = NUMBER_OF_THREADS * padding_size"

section \<open>The contract of the lock\<close>

locale lock_words =
  fixes free :: "'l \<Rightarrow> bool"
    and acquire :: "'l \<Rightarrow> bool \<times> 'l"
    and release :: "'l \<Rightarrow> 'l"
    and mark :: "nat \<Rightarrow> 'l \<Rightarrow> 'l"
    and unmark :: "nat \<Rightarrow> 'l \<Rightarrow> 'l"
    and active :: "nat \<Rightarrow> 'l \<Rightarrow> bool"
    and wf :: "'l \<Rightarrow> bool"
    and n :: nat
  assumes acquire_free: "free l \<Longrightarrow> \<exists>l'. acquire l = (True, l') \<and> \<not> free l' \<and> wf l' = wf l
            \<and> (\<forall>i. active i l' = active i l)"
    and acquire_taken: "\<not> free l \<Longrightarrow> acquire l = (False, l)"
    and release_free: "free (release l)" "wf (release l) = wf l" "active i (release l) = active i l"
    and mark_active: "wf l \<Longrightarrow> i < n \<Longrightarrow> j < n \<Longrightarrow> active j (mark i l) = (j = i \<or> active j l)"
      "wf (mark i l) = wf l" "free (mark i l) = free l"
    and unmark_active: "wf l \<Longrightarrow> i < n \<Longrightarrow> j < n \<Longrightarrow> active j (unmark i l) = (j \<noteq> i \<and> active j l)"
      "wf (unmark i l) = wf l" "free (unmark i l) = free l"
begin

text \<open>The exchange succeeds exactly on a free lock, takes it, and leaves the readers alone.\<close>

lemma acquire_iff:
  "fst (acquire l) = free l" "\<not> free (snd (acquire l))" "wf (snd (acquire l)) = wf l"
  "active i (snd (acquire l)) = active i l"
proof -
  have "fst (acquire l) = free l \<and> \<not> free (snd (acquire l)) \<and> wf (snd (acquire l)) = wf l
      \<and> active i (snd (acquire l)) = active i l"
  proof (cases "free l")
    case True
    then obtain l' where "acquire l = (True, l')" "\<not> free l'" "wf l' = wf l" "active i l' = active i l"
      using acquire_free by blast
    with True show ?thesis by simp
  next
    case False
    with acquire_taken show ?thesis by simp
  qed
  then show "fst (acquire l) = free l" "\<not> free (snd (acquire l))" "wf (snd (acquire l)) = wf l"
    "active i (snd (acquire l)) = active i l" by blast+
qed

lemma second_acquire_fails: "fst (acquire (snd (acquire l))) = False"
  by (simp add: acquire_iff)

text \<open>A reader that marks itself after the lock is taken finds it taken.\<close>

lemma reader_sees_writer: "\<not> free (mark i (snd (acquire l)))"
  by (simp add: mark_active(3) acquire_iff)

lemma mark_unmark: "wf l \<Longrightarrow> i < n \<Longrightarrow> j < n \<Longrightarrow> \<not> active i l \<Longrightarrow> active j (unmark i (mark i l)) = active j l"
  by (auto simp: mark_active unmark_active)

end

lemma flag_apart: "i < NUMBER_OF_THREADS \<Longrightarrow> lock_wf l \<Longrightarrow> i * padding_size < length (readers_set l)"
  by (simp add: lock_wf_def padding_size_def NUMBER_OF_THREADS_def)

interpretation spl: lock_words lockIsFree lockWriter writeUnlock markReaderAsActive markReaderAsInactive
    reader_is_active lock_wf NUMBER_OF_THREADS
proof unfold_locales
  fix l :: spin_lock and i j :: nat
  show "lockIsFree l \<Longrightarrow> \<exists>l'. lockWriter l = (True, l') \<and> \<not> lockIsFree l' \<and> lock_wf l' = lock_wf l
          \<and> (\<forall>i. reader_is_active i l' = reader_is_active i l)"
    by (simp add: lockIsFree_def lockWriter_def lock_wf_def reader_is_active_def)
  show "\<not> lockIsFree l \<Longrightarrow> lockWriter l = (False, l)"
    by (simp add: lockIsFree_def lockWriter_def)
  show "lockIsFree (writeUnlock l)" "lock_wf (writeUnlock l) = lock_wf l"
      "reader_is_active i (writeUnlock l) = reader_is_active i l"
    by (simp_all add: lockIsFree_def writeUnlock_def releaseWriter_def lock_wf_def reader_is_active_def)
  show "lock_wf l \<Longrightarrow> i < NUMBER_OF_THREADS \<Longrightarrow> j < NUMBER_OF_THREADS \<Longrightarrow>
      reader_is_active j (markReaderAsActive i l) = (j = i \<or> reader_is_active j l)"
    using flag_apart [of i l] unfolding padding_size_def
    by (auto simp: reader_is_active_def markReaderAsActive_def nth_list_update padding_size_def)
  show "lock_wf l \<Longrightarrow> i < NUMBER_OF_THREADS \<Longrightarrow> j < NUMBER_OF_THREADS \<Longrightarrow>
      reader_is_active j (markReaderAsInactive i l) = (j \<noteq> i \<and> reader_is_active j l)"
    using flag_apart [of i l] unfolding padding_size_def
    by (auto simp: reader_is_active_def markReaderAsInactive_def nth_list_update padding_size_def READING_def NOT_READING_def)
qed (simp_all add: markReaderAsActive_def markReaderAsInactive_def lock_wf_def lockIsFree_def)

lemma allocate_lock_ok:
  assumes "length garbage \<ge> NUMBER_OF_THREADS * padding_size"
  shows "lock_wf (allocate_lock garbage)" "lockIsFree (allocate_lock garbage)"
    "i < NUMBER_OF_THREADS \<Longrightarrow> \<not> reader_is_active i (allocate_lock garbage)"
proof -
  have r: "[0..<NUMBER_OF_THREADS] = [0, 1, 2, 3]" by (simp add: NUMBER_OF_THREADS_def upt_rec)
  show "lock_wf (allocate_lock garbage)" "lockIsFree (allocate_lock garbage)"
    using assms unfolding allocate_lock_def r by (simp_all add: lock_wf_def lockIsFree_def)
  assume "i < NUMBER_OF_THREADS"
  then have "i = 0 \<or> i = 1 \<or> i = 2 \<or> i = 3" by (auto simp: NUMBER_OF_THREADS_def)
  then show "\<not> reader_is_active i (allocate_lock garbage)"
    using assms unfolding allocate_lock_def r
    by (elim disjE) (simp_all add: reader_is_active_def NUMBER_OF_THREADS_def padding_size_def nth_list_update
        READING_def NOT_READING_def)
qed

section \<open>The loops\<close>

lemma wait_for_readers_Inr:
  "wait_for_readers seen l = Inr (b, l') \<Longrightarrow> b \<and> activeReadersSetIsEmpty l' \<and> writers l' = writers l"
  by (induction seen) (auto split: if_splits)

text \<open>A successful \<open>tryWriteLock\<close> has found the lock free, holds it, and has seen no reader since.\<close>

lemma tryWriteLock_locked:
  assumes "tryWriteLock seen l = Inr (True, l')"
  shows "lockIsFree l \<and> \<not> lockIsFree l' \<and> activeReadersSetIsEmpty l'"
  using assms wait_for_readers_Inr [of seen "l\<lparr>writers := 1\<rparr>" True l']
  by (auto simp: tryWriteLock_def lockWriter_def lockIsFree_def split: if_splits)

lemma wait_for_readers_returns:
  "returns (wait_for_readers seen l) \<longleftrightarrow> (\<exists>r\<in>set seen. activeReadersSetIsEmpty (l\<lparr>readers_set := r\<rparr>))"
  by (induction seen) auto

lemma empty_ignores_writers: "activeReadersSetIsEmpty (l\<lparr>writers := w, readers_set := r\<rparr>) = activeReadersSetIsEmpty (l\<lparr>readers_set := r\<rparr>)"
  by (simp add: activeReadersSetIsEmpty_def reader_is_active_def)

lemma tryWriteLock_returns:
  "returns (tryWriteLock seen l) \<longleftrightarrow>
     lockIsFree l \<longrightarrow> (\<exists>r\<in>set seen. activeReadersSetIsEmpty (l\<lparr>readers_set := r\<rparr>))"
  by (simp add: tryWriteLock_def lockWriter_def lockIsFree_def wait_for_readers_returns empty_ignores_writers)

text \<open>\<open>readLock\<close> returns with its flag set, having seen the lock free after it set the flag.\<close>

lemma readLock_locked:
  "readLock i ws l = Inr l' \<Longrightarrow> lock_wf l \<Longrightarrow> i < NUMBER_OF_THREADS \<Longrightarrow>
     lock_wf l' \<and> lockIsFree l' \<and> reader_is_active i l'"
  "readLock_spin i ws l = Inr l' \<Longrightarrow> lock_wf l \<Longrightarrow> i < NUMBER_OF_THREADS \<Longrightarrow>
     lock_wf l' \<and> lockIsFree l' \<and> reader_is_active i l'"
proof (induction i ws l and i ws l rule: readLock_readLock_spin.induct)
  case (2 i w ws l)
  let ?l = "(markReaderAsActive i l)\<lparr>writers := w\<rparr>"
  have l: "lock_wf ?l" "reader_is_active i ?l"
    using 2 spl.mark_active(1) [of l i i] spl.mark_active(2) [of i l] by (simp_all add: lock_wf_def reader_is_active_def)
  show ?case
  proof (cases "lockIsFree ?l")
    case True
    then show ?thesis using 2 l by (simp add: Let_def)
  next
    case False
    moreover have "lock_wf (markReaderAsInactive i ?l)" using l(1) spl.unmark_active(2) by simp
    ultimately show ?thesis using 2 by (simp add: Let_def)
  qed
next
  case (4 i w ws l)
  have "lock_wf (l\<lparr>writers := w\<rparr>)" using 4 by (simp add: lock_wf_def)
  then show ?case using 4 by (auto simp: Let_def split: if_splits)
qed simp_all

text \<open>Two free observations in a row let a reader in.\<close>

lemma readLock_returns: "w = 0 \<Longrightarrow> returns (readLock i (w # ws) l)"
  "w = 0 \<Longrightarrow> v = 0 \<Longrightarrow> returns (readLock_spin i (w # v # ws) l)"
  by (simp_all add: Let_def lockIsFree_def)

end
