(* ===== verification/Flat_Combining.thy ===== *)
theory Flat_Combining
  imports Spin_Lock
begin

text \<open>
  Flat combining, \<^verbatim>\<open>flat_combining/flat_combining.c\<close>: worker threads publish their requests in
  \<open>taskArray\<close>; one of them takes the writer word, collects the published requests, waits for the
  readers to drain, executes the requests between \<open>instrument_start\<close> and \<open>instrument_stop\<close> and
  marks them done. Read-only requests run under the reader side of the lock.

  The code is a step relation: each thread has a program counter, and a step is one access to
  shared memory by one thread (or the call of a callback, which the lock protects), so every
  interleaving of \<open>exec_rw_flat_combining\<close>, \<open>exec_ro\<close>, the allocation in \<open>process_command\<close> and the
  system-call callback of the instrumentation is covered. The memory is sequentially consistent,
  as the accesses are atomic or fenced. The application is a parameter: \<open>callbacks\<close> holds its
  functions. \<open>history\<close> and \<open>requested\<close> only record what happened.

  Three simplifications. A read-only callback is one step on the application's state, although
  several readers run theirs at the same time: the claims about answers are for applications whose
  read-only callbacks do not write shared state, whose overlapping executions are then the same as
  one after the other. A batch, from \<open>instrument_start\<close> to \<open>instrument_stop\<close>, executes each request
  as one step because the lock excludes every other access. And \<open>instrument_stop\<close> is one step,
  although it may wait for the back end while the ring is full: for what can happen that is the
  same as the step being taken late; for what must happen \<open>own_step\<close> below has the wait.
\<close>

section \<open>Data\<close>

definition STARTED :: int where "STARTED = 0"
definition DONE :: int where "DONE = 1"
definition READY_TO_EXECUTE :: int where "READY_TO_EXECUTE = 2"
definition NONE :: int where "NONE = 3"
definition READY_TO_INTIALISE :: int where "READY_TO_INTIALISE = 4"

lemmas ready_defs = STARTED_def DONE_def READY_TO_EXECUTE_def NONE_def READY_TO_INTIALISE_def

record 'c thread_entry =
  ready :: int
  applicationSpecificStruct :: 'c

record ('c, 'a) callbacks =
  isReadOnlyCallBack :: "'c \<Rightarrow> bool"
  processRequestCallBack :: "'c \<Rightarrow> 'a \<Rightarrow> 'c \<times> 'a"

text \<open>
  Where a thread is. The lists are \<open>ready_commands_indexes\<close> up to \<open>number_of_comamnds\<close>, the numbers
  the loop variables.
\<close>

datatype fc_pc =
    Idle
  | Publish | CheckStarted | AwaitDone | CheckDone | Leave | TestLock | TakeLock
  | Scan "nat list" nat | Claim "nat list" nat | Drain "nat list" nat
  | StartBatch "nat list" | Process "nat list" nat | StopBatch "nat list"
  | MarkDone "nat list" nat | ClearOwn | Unlock
  | ReadMark | ReadTest | ReadUnmark | ReadSpin | Reading | ReadUnlock
  | AllocTest | AllocTake | AllocDrain nat | Alloc | AllocUnlock

text \<open>Where a thread is in the system-call callback; \<open>MLog\<close> says whether it took the writer word.\<close>

datatype mmap_pc = MNone | MTest | MTake | MLog bool | MRelease

record ('c, 'a) fc =
  lock :: spin_lock
  taskArray :: "nat \<Rightarrow> 'c thread_entry"
  thread_pc :: "nat \<Rightarrow> fc_pc"
  thread_mmap :: "nat \<Rightarrow> mmap_pc"
  combiner_of :: "nat \<Rightarrow> u32"
  app :: 'a
  history :: "(nat \<times> 'c) list"
  requested :: "nat \<Rightarrow> 'c list"

section \<open>Steps\<close>

abbreviation goto :: "nat \<Rightarrow> fc_pc \<Rightarrow> ('c, 'a) fc \<Rightarrow> ('c, 'a) fc" where
  "goto t p s \<equiv> s\<lparr>thread_pc := (thread_pc s)(t := p)\<rparr>"

abbreviation goto_mmap :: "nat \<Rightarrow> mmap_pc \<Rightarrow> ('c, 'a) fc \<Rightarrow> ('c, 'a) fc" where
  "goto_mmap t p s \<equiv> s\<lparr>thread_mmap := (thread_mmap s)(t := p)\<rparr>"

abbreviation ready_of :: "('c, 'a) fc \<Rightarrow> nat \<Rightarrow> int" where
  "ready_of s i \<equiv> ready (taskArray s i)"

abbreviation struct_of :: "('c, 'a) fc \<Rightarrow> nat \<Rightarrow> 'c" where
  "struct_of s i \<equiv> applicationSpecificStruct (taskArray s i)"

abbreviation set_ready :: "nat \<Rightarrow> int \<Rightarrow> ('c, 'a) fc \<Rightarrow> ('c, 'a) fc" where
  "set_ready i r s \<equiv> s\<lparr>taskArray := (taskArray s)(i := (taskArray s i)\<lparr>ready := r\<rparr>)\<rparr>"

definition request :: "nat \<Rightarrow> 'c \<Rightarrow> ('c, 'a) fc \<Rightarrow> ('c, 'a) fc" where
  "request t c s =
     s\<lparr>taskArray := (taskArray s)(t := (taskArray s t)\<lparr>applicationSpecificStruct := c\<rparr>),
       requested := (requested s)(t := requested s t @ [c])\<rparr>"

text \<open>The call of \<open>processRequestCallBack\<close> on the request of thread \<open>i\<close>.\<close>

definition execute :: "('c, 'a) callbacks \<Rightarrow> nat \<Rightarrow> ('c, 'a) fc \<Rightarrow> ('c, 'a) fc" where
  "execute cb i s =
     (let (c, a) = processRequestCallBack cb (struct_of s i) (app s)
      in s\<lparr>taskArray := (taskArray s)(i := (taskArray s i)\<lparr>applicationSpecificStruct := c\<rparr>),
           app := a, history := history s @ [(i, struct_of s i)]\<rparr>)"

text \<open>\<open>exec_rw_flat_combining\<close>.\<close>

fun exec_rw_flat_combining :: "('c, 'a) callbacks \<Rightarrow> nat \<Rightarrow> fc_pc \<Rightarrow> ('c, 'a) fc \<Rightarrow> ('c, 'a) fc" where
  "exec_rw_flat_combining cb t Publish s = goto t CheckStarted (set_ready t READY_TO_EXECUTE s)"
| "exec_rw_flat_combining cb t CheckStarted s = goto t (if ready_of s t = STARTED then AwaitDone else CheckDone) s"
| "exec_rw_flat_combining cb t AwaitDone s = goto t (if ready_of s t \<noteq> DONE then AwaitDone else Leave) s"
| "exec_rw_flat_combining cb t CheckDone s = goto t (if ready_of s t = DONE then Leave else TestLock) s"
| "exec_rw_flat_combining cb t Leave s = goto t Idle (set_ready t NONE s)"
| "exec_rw_flat_combining cb t TestLock s = goto t (if lockIsFree (lock s) then TakeLock else CheckStarted) s"
| "exec_rw_flat_combining cb t TakeLock s =
     goto t (if fst (lockWriter (lock s)) then Scan [] 0 else CheckStarted)
       (s\<lparr>lock := snd (lockWriter (lock s))\<rparr>)"
| "exec_rw_flat_combining cb t (Scan cmds i) s =
     goto t (if i < NUMBER_OF_THREADS
             then if ready_of s i = READY_TO_EXECUTE then Claim cmds i else Scan cmds (Suc i)
             else Drain cmds 0) s"
| "exec_rw_flat_combining cb t (Claim cmds i) s = goto t (Scan (cmds @ [i]) (Suc i)) (set_ready i STARTED s)"
| "exec_rw_flat_combining cb t (Drain cmds i) s =
     goto t (if i < NUMBER_OF_THREADS
             then if reader_is_active i (lock s) then Scan cmds 0 else Drain cmds (Suc i)
             else StartBatch cmds) s"
| "exec_rw_flat_combining cb t (StartBatch cmds) s =
     goto t (Process cmds 0) (s\<lparr>combiner_of := (combiner_of s)(t := 1)\<rparr>)"
| "exec_rw_flat_combining cb t (Process cmds k) s =
     (if k < length cmds then goto t (Process cmds (Suc k)) (execute cb (cmds ! k) s)
      else goto t (StopBatch cmds) s)"
| "exec_rw_flat_combining cb t (StopBatch cmds) s =
     goto t (MarkDone cmds 0) (s\<lparr>combiner_of := (combiner_of s)(t := 0)\<rparr>)"
| "exec_rw_flat_combining cb t (MarkDone cmds k) s =
     (if k < length cmds then goto t (MarkDone cmds (Suc k)) (set_ready (cmds ! k) DONE s)
      else goto t ClearOwn s)"
| "exec_rw_flat_combining cb t ClearOwn s = goto t Unlock (set_ready t NONE s)"
| "exec_rw_flat_combining cb t Unlock s = goto t Idle (s\<lparr>lock := writeUnlock (lock s)\<rparr>)"
| "exec_rw_flat_combining cb t p s = s"

text \<open>\<open>exec_ro\<close> with the loop of \<open>readLock\<close>.\<close>

fun exec_ro :: "('c, 'a) callbacks \<Rightarrow> nat \<Rightarrow> fc_pc \<Rightarrow> ('c, 'a) fc \<Rightarrow> ('c, 'a) fc" where
  "exec_ro cb t ReadMark s = goto t ReadTest (s\<lparr>lock := markReaderAsActive t (lock s)\<rparr>)"
| "exec_ro cb t ReadTest s = goto t (if lockIsFree (lock s) then Reading else ReadUnmark) s"
| "exec_ro cb t ReadUnmark s = goto t ReadSpin (s\<lparr>lock := markReaderAsInactive t (lock s)\<rparr>)"
| "exec_ro cb t ReadSpin s = goto t (if lockIsFree (lock s) then ReadMark else ReadSpin) s"
| "exec_ro cb t Reading s = goto t ReadUnlock (execute cb t s)"
| "exec_ro cb t ReadUnlock s = goto t Idle (s\<lparr>lock := readUnlock t (lock s)\<rparr>)"
| "exec_ro cb t p s = s"

text \<open>The first request of a connection in \<open>process_command\<close>: the writer side of the lock around the allocation.\<close>

fun allocate_struct :: "nat \<Rightarrow> fc_pc \<Rightarrow> ('c, 'a) fc \<Rightarrow> ('c, 'a) fc" where
  "allocate_struct t AllocTest s = goto t (if lockIsFree (lock s) then AllocTake else AllocTest) s"
| "allocate_struct t AllocTake s =
     goto t (if fst (lockWriter (lock s)) then AllocDrain 0 else AllocTest)
       (s\<lparr>lock := snd (lockWriter (lock s))\<rparr>)"
| "allocate_struct t (AllocDrain i) s =
     goto t (if i < NUMBER_OF_THREADS
             then if reader_is_active i (lock s) then AllocDrain 0 else AllocDrain (Suc i)
             else Alloc) s"
| "allocate_struct t Alloc s = goto t AllocUnlock s"
| "allocate_struct t AllocUnlock s = goto t Idle (s\<lparr>lock := writeUnlock (lock s)\<rparr>)"
| "allocate_struct t p s = s"

text \<open>A step of the thread, whichever function it is in.\<close>

fun thread_step :: "('c, 'a) callbacks \<Rightarrow> nat \<Rightarrow> fc_pc \<Rightarrow> ('c, 'a) fc \<Rightarrow> ('c, 'a) fc" where
  "thread_step cb t Idle s = s"
| "thread_step cb t ReadMark s = exec_ro cb t ReadMark s"
| "thread_step cb t ReadTest s = exec_ro cb t ReadTest s"
| "thread_step cb t ReadUnmark s = exec_ro cb t ReadUnmark s"
| "thread_step cb t ReadSpin s = exec_ro cb t ReadSpin s"
| "thread_step cb t Reading s = exec_ro cb t Reading s"
| "thread_step cb t ReadUnlock s = exec_ro cb t ReadUnlock s"
| "thread_step cb t AllocTest s = allocate_struct t AllocTest s"
| "thread_step cb t AllocTake s = allocate_struct t AllocTake s"
| "thread_step cb t (AllocDrain i) s = allocate_struct t (AllocDrain i) s"
| "thread_step cb t Alloc s = allocate_struct t Alloc s"
| "thread_step cb t AllocUnlock s = allocate_struct t AllocUnlock s"
| "thread_step cb t p s = exec_rw_flat_combining cb t p s"

lemmas step_simps = thread_step.simps exec_rw_flat_combining.simps exec_ro.simps allocate_struct.simps

fun mmap_step :: "nat \<Rightarrow> mmap_pc \<Rightarrow> ('c, 'a) fc \<Rightarrow> ('c, 'a) fc" where
  "mmap_step t MNone s = s"
| "mmap_step t MTest s = goto_mmap t (if lockIsFree (lock s) then MTake else MTest) s"
| "mmap_step t MTake s =
     goto_mmap t (if fst (lockWriter (lock s)) then MLog True else MTest)
       (s\<lparr>lock := snd (lockWriter (lock s))\<rparr>)"
| "mmap_step t (MLog locked) s = goto_mmap t (if locked then MRelease else MNone) s"
| "mmap_step t MRelease s = goto_mmap t MNone (s\<lparr>lock := writeUnlock (lock s)\<rparr>)"

text \<open>Application code, which may map memory, runs outside requests and inside the callbacks.\<close>

fun runs_application :: "fc_pc \<Rightarrow> bool" where
  "runs_application Idle \<longleftrightarrow> True"
| "runs_application (Process cmds k) \<longleftrightarrow> k < length cmds"
| "runs_application Reading \<longleftrightarrow> True"
| "runs_application Alloc \<longleftrightarrow> True"
| "runs_application _ \<longleftrightarrow> False"

inductive fc_step :: "('c, 'a) callbacks \<Rightarrow> ('c, 'a) fc \<Rightarrow> ('c, 'a) fc \<Rightarrow> bool" for cb where
  request_rw:
    "t < NUMBER_OF_THREADS \<Longrightarrow> thread_pc s t = Idle \<Longrightarrow> thread_mmap s t = MNone \<Longrightarrow>
     \<not> isReadOnlyCallBack cb c \<Longrightarrow> fc_step cb s (goto t Publish (request t c s))"
| request_ro:
    "t < NUMBER_OF_THREADS \<Longrightarrow> thread_pc s t = Idle \<Longrightarrow> thread_mmap s t = MNone \<Longrightarrow>
     isReadOnlyCallBack cb c \<Longrightarrow> fc_step cb s (goto t ReadMark (request t c s))"
| first_request:
    "t < NUMBER_OF_THREADS \<Longrightarrow> thread_pc s t = Idle \<Longrightarrow> thread_mmap s t = MNone \<Longrightarrow>
     fc_step cb s (goto t AllocTest s)"
| thread:
    "t < NUMBER_OF_THREADS \<Longrightarrow> thread_mmap s t = MNone \<Longrightarrow> thread_pc s t \<noteq> Idle \<Longrightarrow>
     fc_step cb s (thread_step cb t (thread_pc s t) s)"
| mmap:
    "t < NUMBER_OF_THREADS \<Longrightarrow> thread_mmap s t = MNone \<Longrightarrow> runs_application (thread_pc s t) \<Longrightarrow>
     fc_step cb s (goto_mmap t (if combiner_of s t = 0 then MTest else MLog False) s)"
| mmap_thread:
    "t < NUMBER_OF_THREADS \<Longrightarrow> thread_mmap s t \<noteq> MNone \<Longrightarrow>
     fc_step cb s (mmap_step t (thread_mmap s t) s)"

definition fc_start :: "'a \<Rightarrow> ('c, 'a) fc \<Rightarrow> bool" where
  "fc_start a s \<longleftrightarrow>
     lock_wf (lock s) \<and> lockIsFree (lock s) \<and> (\<forall>i<NUMBER_OF_THREADS. \<not> reader_is_active i (lock s)) \<and>
     (\<forall>t. ready_of s t = NONE \<or> ready_of s t = READY_TO_INTIALISE) \<and>
     (\<forall>t. thread_pc s t = Idle \<and> thread_mmap s t = MNone \<and> combiner_of s t = 0 \<and> requested s t = []) \<and>
     app s = a \<and> history s = []"

section \<open>The lock discipline\<close>

fun holds_lock :: "fc_pc \<Rightarrow> bool" where
  "holds_lock (Scan _ _) \<longleftrightarrow> True" | "holds_lock (Claim _ _) \<longleftrightarrow> True"
| "holds_lock (Drain _ _) \<longleftrightarrow> True" | "holds_lock (StartBatch _) \<longleftrightarrow> True"
| "holds_lock (Process _ _) \<longleftrightarrow> True" | "holds_lock (StopBatch _) \<longleftrightarrow> True"
| "holds_lock (MarkDone _ _) \<longleftrightarrow> True" | "holds_lock ClearOwn \<longleftrightarrow> True"
| "holds_lock Unlock \<longleftrightarrow> True" | "holds_lock (AllocDrain _) \<longleftrightarrow> True"
| "holds_lock Alloc \<longleftrightarrow> True" | "holds_lock AllocUnlock \<longleftrightarrow> True"
| "holds_lock _ \<longleftrightarrow> False"

fun mmap_holds :: "mmap_pc \<Rightarrow> bool" where
  "mmap_holds (MLog b) \<longleftrightarrow> b" | "mmap_holds MRelease \<longleftrightarrow> True" | "mmap_holds _ \<longleftrightarrow> False"

fun flag_set :: "fc_pc \<Rightarrow> bool" where
  "flag_set ReadTest \<longleftrightarrow> True" | "flag_set ReadUnmark \<longleftrightarrow> True" | "flag_set Reading \<longleftrightarrow> True"
| "flag_set ReadUnlock \<longleftrightarrow> True" | "flag_set _ \<longleftrightarrow> False"

fun combining :: "fc_pc \<Rightarrow> bool" where
  "combining (Process _ _) \<longleftrightarrow> True" | "combining (StopBatch _) \<longleftrightarrow> True" | "combining _ \<longleftrightarrow> False"

text \<open>How many reader flags a holder of the lock has seen clear since it took the lock.\<close>

fun seen_clear :: "fc_pc \<Rightarrow> nat" where
  "seen_clear (Drain _ i) = i" | "seen_clear (AllocDrain i) = i"
| "seen_clear (StartBatch _) = NUMBER_OF_THREADS" | "seen_clear (Process _ _) = NUMBER_OF_THREADS"
| "seen_clear (StopBatch _) = NUMBER_OF_THREADS" | "seen_clear Alloc = NUMBER_OF_THREADS"
| "seen_clear _ = 0"

definition owner :: "('c, 'a) fc \<Rightarrow> nat \<Rightarrow> bool" where
  "owner s t \<longleftrightarrow> holds_lock (thread_pc s t) \<or> mmap_holds (thread_mmap s t)"

definition mmap_allowed :: "fc_pc \<Rightarrow> mmap_pc \<Rightarrow> bool" where
  "mmap_allowed p m \<longleftrightarrow> m = MNone \<or> runs_application p \<and> (m = MLog False \<longleftrightarrow> combining p)"

definition lock_inv :: "('c, 'a) fc \<Rightarrow> bool" where
  "lock_inv s \<longleftrightarrow> lock_wf (lock s)
     \<and> (\<forall>t u. owner s t \<longrightarrow> owner s u \<longrightarrow> t = u)
     \<and> (\<forall>t. owner s t \<longrightarrow> \<not> lockIsFree (lock s))
     \<and> (\<forall>t. \<not> (holds_lock (thread_pc s t) \<and> mmap_holds (thread_mmap s t)))
     \<and> (\<forall>t\<ge>NUMBER_OF_THREADS. thread_pc s t = Idle \<and> thread_mmap s t = MNone)
     \<and> (\<forall>t<NUMBER_OF_THREADS. reader_is_active t (lock s) \<longleftrightarrow> flag_set (thread_pc s t))
     \<and> (\<forall>t r. r < seen_clear (thread_pc s t) \<longrightarrow> thread_pc s r \<noteq> Reading)
     \<and> (\<forall>t. combiner_of s t = (if combining (thread_pc s t) then 1 else 0))
     \<and> (\<forall>t. mmap_allowed (thread_pc s t) (thread_mmap s t))"

lemma lock_inv_start: "fc_start a s \<Longrightarrow> lock_inv s"
  by (simp add: fc_start_def lock_inv_def owner_def mmap_allowed_def)

text \<open>
  What a step does to the lock discipline: it moves one thread, and changes the lock in one of
  four ways. \<open>relock\<close> lists what has to be checked for such a move.
\<close>

lemma lock_invD:
  assumes "lock_inv s"
  shows "lock_wf (lock s)"
    "owner s t \<Longrightarrow> owner s u \<Longrightarrow> t = u"
    "owner s t \<Longrightarrow> \<not> lockIsFree (lock s)"
    "holds_lock (thread_pc s t) \<Longrightarrow> mmap_holds (thread_mmap s t) \<Longrightarrow> False"
    "t \<ge> NUMBER_OF_THREADS \<Longrightarrow> thread_pc s t = Idle" "t \<ge> NUMBER_OF_THREADS \<Longrightarrow> thread_mmap s t = MNone"
    "t < NUMBER_OF_THREADS \<Longrightarrow> reader_is_active t (lock s) \<longleftrightarrow> flag_set (thread_pc s t)"
    "r < seen_clear (thread_pc s t) \<Longrightarrow> thread_pc s r \<noteq> Reading"
    "combiner_of s t = (if combining (thread_pc s t) then 1 else 0)"
    "mmap_allowed (thread_pc s t) (thread_mmap s t)"
  using assms unfolding lock_inv_def by blast+

lemma relock:
  assumes inv: "lock_inv s" and t: "t < NUMBER_OF_THREADS"
    and pc: "thread_pc s' = (thread_pc s)(t := p)" "thread_mmap s' = (thread_mmap s)(t := m)"
    and wf: "lock_wf (lock s')"
    and act: "\<forall>u<NUMBER_OF_THREADS. reader_is_active u (lock s') \<longleftrightarrow> (if u = t then flag_set p else reader_is_active u (lock s))"
    and cmb: "combiner_of s' = (combiner_of s)(t := (if combining p then 1 else 0))"
    and own: "\<not> (holds_lock p \<and> mmap_holds m)" "mmap_allowed p m"
    and took: "holds_lock p \<or> mmap_holds m \<Longrightarrow> (owner s t \<or> lockIsFree (lock s)) \<and> \<not> lockIsFree (lock s')"
    and kept: "lockIsFree (lock s') \<Longrightarrow> lockIsFree (lock s) \<or> owner s t"
    and clear: "\<forall>r. r < seen_clear p \<longrightarrow> r \<noteq> t \<longrightarrow> thread_pc s r \<noteq> Reading"
    and rd: "p = Reading \<Longrightarrow> thread_pc s t = Reading \<or> lockIsFree (lock s)"
  shows "lock_inv s'"
proof -
  have ow: "owner s' u \<longleftrightarrow> (if u = t then holds_lock p \<or> mmap_holds m else owner s u)" for u
    by (simp add: owner_def pc)
  have "u = v" if "owner s' u" "owner s' v" for u v
    using that took lock_invD(2,3) [OF inv] unfolding ow by (metis (full_types))
  moreover have "\<not> lockIsFree (lock s')" if "owner s' u" for u
    using that took kept lock_invD(2,3) [OF inv] unfolding ow by (metis (full_types))
  moreover have "thread_pc s' r \<noteq> Reading" if r: "r < seen_clear (thread_pc s' u)" for u r
  proof (cases "u = t")
    case True
    have "p \<noteq> Reading" using r True by (auto simp: pc)
    with True show ?thesis using r clear by (auto simp: pc)
  next
    case False
    then have nr: "thread_pc s r \<noteq> Reading" using r lock_invD(8) [OF inv, of r u] by (simp add: pc)
    have "holds_lock (thread_pc s u)" using r False by (cases "thread_pc s u") (simp_all add: pc)
    then have "\<not> lockIsFree (lock s)" using lock_invD(3) [OF inv, of u] by (simp add: owner_def)
    then show ?thesis using nr rd by (auto simp: pc)
  qed
  moreover have "\<not> (holds_lock (thread_pc s' u) \<and> mmap_holds (thread_mmap s' u))"
      "mmap_allowed (thread_pc s' u) (thread_mmap s' u)"
      "combiner_of s' u = (if combining (thread_pc s' u) then 1 else 0)"
      "u \<ge> NUMBER_OF_THREADS \<Longrightarrow> thread_pc s' u = Idle \<and> thread_mmap s' u = MNone"
      "u < NUMBER_OF_THREADS \<Longrightarrow> reader_is_active u (lock s') \<longleftrightarrow> flag_set (thread_pc s' u)" for u
    using lock_invD(4-7,9,10) [OF inv, of u] own t act cmb by (auto simp: pc)
  ultimately show ?thesis using wf unfolding lock_inv_def by blast
qed

lemma execute_fields [simp]:
  "lock (execute cb i s) = lock s" "thread_pc (execute cb i s) = thread_pc s"
  "thread_mmap (execute cb i s) = thread_mmap s" "combiner_of (execute cb i s) = combiner_of s"
  "ready_of (execute cb i s) j = ready_of s j" "requested (execute cb i s) = requested s"
  "history (execute cb i s) = history s @ [(i, struct_of s i)]"
  by (simp_all add: execute_def split: prod.split)

lemma request_fields [simp]:
  "lock (request t c s) = lock s" "thread_pc (request t c s) = thread_pc s"
  "thread_mmap (request t c s) = thread_mmap s" "combiner_of (request t c s) = combiner_of s"
  "ready_of (request t c s) j = ready_of s j" "app (request t c s) = app s"
  "history (request t c s) = history s"
  by (simp_all add: request_def)

lemmas lock_facts = spl.acquire_iff spl.release_free spl.mark_active spl.unmark_active

lemma thread_step_moves:
  "thread_pc (thread_step cb t (thread_pc s t) s) =
     (thread_pc s)(t := thread_pc (thread_step cb t (thread_pc s t) s) t)"
  "thread_mmap (thread_step cb t p s) = thread_mmap s"
  by (cases "thread_pc s t"; simp add: fun_upd_idem) (cases p; simp)

lemma thread_step_keeps_lock_inv:
  assumes inv: "lock_inv s" and t: "t < NUMBER_OF_THREADS" "thread_mmap s t = MNone"
  shows "lock_inv (thread_step cb t (thread_pc s t) s)"
proof -
  note i = lock_invD [OF inv]
  have fl: "reader_is_active u (lock s) \<longleftrightarrow> flag_set (thread_pc s u)" if "u < NUMBER_OF_THREADS" for u
    using i(7) that .
  have nf: "\<not> lockIsFree (lock s)" if "holds_lock (thread_pc s t)"
    using i(3) [of t] that by (simp add: owner_def)
  have sc: "thread_pc s r \<noteq> Reading" if "r < seen_clear (thread_pc s t)" for r
    using i(8) that .
  have me: "\<not> r < seen_clear (thread_pc s t)" if "thread_pc s t = Reading" for r
    using that by simp
  have c: "combiner_of s t = (if combining (thread_pc s t) then 1 else 0)" using i(9) .
  show ?thesis
  proof (rule relock [OF inv t(1), where m = MNone and p = "thread_pc (thread_step cb t (thread_pc s t) s) t"])
    show "thread_mmap (thread_step cb t (thread_pc s t) s) = (thread_mmap s)(t := MNone)"
      using t(2) by (auto simp: thread_step_moves)
    show "lock_wf (lock (thread_step cb t (thread_pc s t) s))"
      using i(1) by (cases "thread_pc s t") (simp_all add: lock_facts readUnlock_def)
    show "\<forall>u<NUMBER_OF_THREADS. reader_is_active u (lock (thread_step cb t (thread_pc s t) s)) \<longleftrightarrow>
        (if u = t then flag_set (thread_pc (thread_step cb t (thread_pc s t) s) t) else reader_is_active u (lock s))"
      using i(1) t(1) fl [OF t(1)]
      by (cases "thread_pc s t") (auto simp: lock_facts readUnlock_def)
    show "combiner_of (thread_step cb t (thread_pc s t) s) =
        (combiner_of s)(t := (if combining (thread_pc (thread_step cb t (thread_pc s t) s) t) then 1 else 0))"
      using c by (cases "thread_pc s t") (auto simp: fun_eq_iff)
    show "mmap_allowed (thread_pc (thread_step cb t (thread_pc s t) s) t) MNone"
      by (simp add: mmap_allowed_def)
    show "\<forall>r. r < seen_clear (thread_pc (thread_step cb t (thread_pc s t) s) t) \<longrightarrow> r \<noteq> t \<longrightarrow> thread_pc s r \<noteq> Reading"
      using sc fl by (cases "thread_pc s t") (auto simp: less_Suc_eq)
  qed (rule thread_step_moves, simp,
       (use nf in \<open>cases "thread_pc s t"; auto simp: owner_def lock_facts readUnlock_def split: if_splits\<close>)+)
qed

lemma mmap_step_keeps_lock_inv:
  assumes inv: "lock_inv s" and t: "t < NUMBER_OF_THREADS"
  shows "lock_inv (mmap_step t (thread_mmap s t) s)"
proof -
  note i = lock_invD [OF inv]
  let ?s = "mmap_step t (thread_mmap s t) s"
  have nf: "\<not> lockIsFree (lock s)" if "mmap_holds (thread_mmap s t) \<or> holds_lock (thread_pc s t)"
    using i(3) [of t] that by (auto simp: owner_def)
  have nh: "\<not> (holds_lock (thread_pc s t) \<and> mmap_holds (thread_mmap s t))" using i(4) by blast
  have c: "combiner_of s = (combiner_of s)(t := (if combining (thread_pc s t) then 1 else 0))"
    using i(9) [of t] by auto
  have mv: "thread_pc ?s = thread_pc s" "thread_mmap ?s = (thread_mmap s)(t := thread_mmap ?s t)"
      "combiner_of ?s = combiner_of s" "reader_is_active u (lock ?s) = reader_is_active u (lock s)"
      "lock_wf (lock ?s) = lock_wf (lock s)" for u
    by (cases "thread_mmap s t"; simp add: lock_facts fun_upd_idem)+
  have sc: "\<forall>r. r < seen_clear (thread_pc s t) \<longrightarrow> r \<noteq> t \<longrightarrow> thread_pc s r \<noteq> Reading"
    using i(8) by blast
  have ok: "mmap_allowed (thread_pc s t) (thread_mmap ?s t)"
    using i(10) [of t] by (cases "thread_mmap s t") (auto simp: mmap_allowed_def)
  have hold: "\<not> (holds_lock (thread_pc s t) \<and> mmap_holds (thread_mmap ?s t))"
      "(holds_lock (thread_pc s t) \<or> mmap_holds (thread_mmap ?s t)) \<longrightarrow>
         (owner s t \<or> lockIsFree (lock s)) \<and> \<not> lockIsFree (lock ?s)"
      "lockIsFree (lock ?s) \<longrightarrow> lockIsFree (lock s) \<or> owner s t"
    using nf nh by (cases "thread_mmap s t"; auto simp: owner_def lock_facts split: if_splits)+
  show ?thesis
    by (rule relock [OF inv t, where p = "thread_pc s t" and m = "thread_mmap ?s t"])
      (use mv c i(1) i(7) ok hold sc t in \<open>auto simp: fun_upd_idem\<close>)
qed

lemma request_keeps_lock_inv:
  assumes inv: "lock_inv s" and t: "t < NUMBER_OF_THREADS" "thread_pc s t = Idle" "thread_mmap s t = MNone"
    and p: "p = Publish \<or> p = ReadMark \<or> p = AllocTest"
    and s': "thread_pc s' = (thread_pc s)(t := p)" "thread_mmap s' = thread_mmap s"
      "combiner_of s' = combiner_of s" "lock s' = lock s"
  shows "lock_inv s'"
proof -
  note i = lock_invD [OF inv]
  have "combiner_of s t = 0" "\<not> reader_is_active t (lock s)" using i(9) [of t] i(7) [OF t(1)] t(2) by simp_all
  then show ?thesis
    by (intro relock [OF inv t(1), where p = p and m = MNone])
      (use p s' t i(1) in \<open>auto simp: mmap_allowed_def fun_upd_idem\<close>)
qed

lemma mmap_keeps_lock_inv:
  assumes inv: "lock_inv s" and t: "t < NUMBER_OF_THREADS" "thread_mmap s t = MNone"
    and r: "runs_application (thread_pc s t)"
  shows "lock_inv (goto_mmap t (if combiner_of s t = 0 then MTest else MLog False) s)"
proof -
  note i = lock_invD [OF inv]
  have c: "combiner_of s t = (if combining (thread_pc s t) then 1 else 0)" using i(9) .
  show ?thesis
    by (rule relock [OF inv t(1), where p = "thread_pc s t" and m = "if combiner_of s t = 0 then MTest else MLog False"])
      (use c t r i(1,7) i(3) [of t] i(8) [of _ t] in \<open>auto simp: mmap_allowed_def fun_upd_idem owner_def split: if_splits\<close>)
qed

lemma lock_inv_step: "fc_step cb s s' \<Longrightarrow> lock_inv s \<Longrightarrow> lock_inv s'"
proof (induction rule: fc_step.induct)
  case (request_rw t s c)
  show ?case by (rule request_keeps_lock_inv [OF request_rw(5,1-3), where p = Publish]) simp_all
next
  case (request_ro t s c)
  show ?case by (rule request_keeps_lock_inv [OF request_ro(5,1-3), where p = ReadMark]) simp_all
next
  case (first_request t s)
  show ?case by (rule request_keeps_lock_inv [OF first_request(4,1-3), where p = AllocTest]) simp_all
next
  case (thread t s)
  show ?case by (rule thread_step_keeps_lock_inv [OF thread(4,1,2)])
next
  case (mmap t s)
  show ?case by (rule mmap_keeps_lock_inv [OF mmap(4,1-3)])
next
  case (mmap_thread t s)
  show ?case by (rule mmap_step_keeps_lock_inv [OF mmap_thread(3,1)])
qed

interpretation fcl: invariant_system "fc_start a" "fc_step cb" lock_inv
  by unfold_locales (auto intro: lock_inv_start lock_inv_step)

definition writes_application :: "fc_pc \<Rightarrow> bool" where
  "writes_application p \<longleftrightarrow> p = Alloc \<or> (\<exists>cmds k. p = Process cmds k)"

text \<open>
  C13: Whatever the interleaving, while a thread runs application code under the writer side of the
  lock (a combiner its batch, or the allocation for a new connection), no thread executes a
  read-only request and no other thread runs under the writer side.
\<close>

theorem writer_excludes_readers_and_writers:
  assumes "fc_start a s" "rtranclp (fc_step cb) s s'" "writes_application (thread_pc s' t)"
  shows "thread_pc s' u \<noteq> Reading \<and> (writes_application (thread_pc s' u) \<longrightarrow> u = t)"
proof -
  have inv: "lock_inv s'" using fcl.inv_reachable [OF assms(1,2)] .
  have w: "seen_clear p = NUMBER_OF_THREADS \<and> holds_lock p" if "writes_application p" for p
    using that by (auto simp: writes_application_def)
  have "thread_pc s' u \<noteq> Reading"
    using lock_invD(8) [OF inv, of u t] lock_invD(5) [OF inv, of u] w [OF assms(3)]
    by (cases "u < NUMBER_OF_THREADS") auto
  moreover have "u = t" if "writes_application (thread_pc s' u)"
    using w [OF that] w [OF assms(3)] lock_invD(2) [OF inv, of u t] by (simp add: owner_def)
  ultimately show ?thesis by blast
qed

definition produces_log :: "('c, 'a) fc \<Rightarrow> nat \<Rightarrow> bool" where
  "produces_log s t \<longleftrightarrow> (\<exists>cmds. thread_pc s t = StopBatch cmds) \<or> (\<exists>b. thread_mmap s t = MLog b)"

text \<open>
  C20: At any time at most one thread is a producer of the ring buffer: the combiner that ends its
  batch, a combiner whose request maps memory, or a thread that maps memory outside a batch. This is
  what the ring buffer, which has one producer cursor, relies on.
\<close>

theorem single_log_producer:
  assumes "fc_start a s" "rtranclp (fc_step cb) s s'" "produces_log s' t" "produces_log s' u"
  shows "t = u \<and> \<not> lockIsFree (lock s')"
proof -
  have inv: "lock_inv s'" using fcl.inv_reachable [OF assms(1,2)] .
  have "owner s' v" if "produces_log s' v" for v
  proof (cases "thread_mmap s' v = MLog False")
    case True
    then have "combining (thread_pc s' v)" using lock_invD(10) [OF inv, of v] by (auto simp: mmap_allowed_def)
    then show ?thesis unfolding owner_def by (cases "thread_pc s' v") simp_all
  next
    case False
    with that show ?thesis by (auto simp: produces_log_def owner_def)
  qed
  then show ?thesis using assms(3,4) lock_invD(2,3) [OF inv] by blast
qed

section \<open>Every request is executed once\<close>

text \<open>The requests of a thread that have been executed, in order.\<close>

definition served_by :: "('c, 'a) fc \<Rightarrow> nat \<Rightarrow> 'c list" where
  "served_by s t = map snd (filter (\<lambda>x. fst x = t) (history s))"

definition pending :: "('c, 'a) fc \<Rightarrow> nat \<Rightarrow> bool" where
  "pending s t \<longleftrightarrow> requested s t = served_by s t @ [struct_of s t]"

definition settled :: "('c, 'a) fc \<Rightarrow> nat \<Rightarrow> bool" where
  "settled s t \<longleftrightarrow> requested s t = served_by s t"

text \<open>The requests a combiner has collected and not yet executed, and those it has executed and not
  yet marked.\<close>

fun unserved :: "fc_pc \<Rightarrow> nat list" where
  "unserved (Scan cmds _) = cmds" | "unserved (Claim cmds _) = cmds" | "unserved (Drain cmds _) = cmds"
| "unserved (StartBatch cmds) = cmds" | "unserved (Process cmds k) = drop k cmds" | "unserved _ = []"

fun served :: "fc_pc \<Rightarrow> nat list" where
  "served (Process cmds k) = take k cmds" | "served (StopBatch cmds) = cmds"
| "served (MarkDone cmds k) = drop k cmds" | "served _ = []"

fun awaits :: "fc_pc \<Rightarrow> bool" where
  "awaits Publish \<longleftrightarrow> True" | "awaits ReadMark \<longleftrightarrow> True" | "awaits ReadTest \<longleftrightarrow> True"
| "awaits ReadUnmark \<longleftrightarrow> True" | "awaits ReadSpin \<longleftrightarrow> True" | "awaits Reading \<longleftrightarrow> True" | "awaits _ \<longleftrightarrow> False"

fun finished :: "fc_pc \<Rightarrow> bool" where
  "finished Idle \<longleftrightarrow> True" | "finished ReadUnlock \<longleftrightarrow> True" | "finished Unlock \<longleftrightarrow> True"
| "finished AllocTest \<longleftrightarrow> True" | "finished AllocTake \<longleftrightarrow> True" | "finished (AllocDrain _) \<longleftrightarrow> True"
| "finished Alloc \<longleftrightarrow> True" | "finished AllocUnlock \<longleftrightarrow> True" | "finished _ \<longleftrightarrow> False"

fun ready_ok :: "nat \<Rightarrow> fc_pc \<Rightarrow> int \<Rightarrow> bool" where
  "ready_ok t CheckStarted r \<longleftrightarrow> r = READY_TO_EXECUTE \<or> r = STARTED \<or> r = DONE"
| "ready_ok t CheckDone r \<longleftrightarrow> r = READY_TO_EXECUTE \<or> r = STARTED \<or> r = DONE"
| "ready_ok t TestLock r \<longleftrightarrow> r = READY_TO_EXECUTE \<or> r = STARTED \<or> r = DONE"
| "ready_ok t TakeLock r \<longleftrightarrow> r = READY_TO_EXECUTE \<or> r = STARTED \<or> r = DONE"
| "ready_ok t AwaitDone r \<longleftrightarrow> r = STARTED \<or> r = DONE"
| "ready_ok t Leave r \<longleftrightarrow> r = DONE"
| "ready_ok t (Scan _ i) r \<longleftrightarrow> r = READY_TO_EXECUTE \<and> i \<le> t \<or> r = STARTED \<or> r = DONE"
| "ready_ok t (Claim _ i) r \<longleftrightarrow> r = READY_TO_EXECUTE \<and> i \<le> t \<or> r = STARTED \<or> r = DONE"
| "ready_ok t (Drain _ _) r \<longleftrightarrow> r = STARTED \<or> r = DONE"
| "ready_ok t (StartBatch _) r \<longleftrightarrow> r = STARTED \<or> r = DONE"
| "ready_ok t (Process _ _) r \<longleftrightarrow> r = STARTED \<or> r = DONE"
| "ready_ok t (StopBatch _) r \<longleftrightarrow> r = STARTED \<or> r = DONE"
| "ready_ok t (MarkDone _ _) r \<longleftrightarrow> r = STARTED \<or> r = DONE"
| "ready_ok t ClearOwn r \<longleftrightarrow> r = DONE"
| "ready_ok t _ r \<longleftrightarrow> r = NONE \<or> r = READY_TO_INTIALISE"

definition task_inv :: "('c, 'a) fc \<Rightarrow> bool" where
  "task_inv s \<longleftrightarrow>
     (\<forall>t. ready_ok t (thread_pc s t) (ready_of s t))
     \<and> (\<forall>t. distinct (served (thread_pc s t) @ unserved (thread_pc s t)))
     \<and> (\<forall>t. \<forall>u\<in>set (served (thread_pc s t)). u < NUMBER_OF_THREADS \<and> ready_of s u = STARTED \<and> settled s u)
     \<and> (\<forall>t. \<forall>u\<in>set (unserved (thread_pc s t)). u < NUMBER_OF_THREADS \<and> ready_of s u = STARTED \<and> pending s u)
     \<and> (\<forall>u. ready_of s u = STARTED \<longrightarrow> (\<exists>t. u \<in> set (served (thread_pc s t) @ unserved (thread_pc s t))))
     \<and> (\<forall>t. awaits (thread_pc s t) \<or> ready_of s t = READY_TO_EXECUTE \<longrightarrow> pending s t)
     \<and> (\<forall>t. finished (thread_pc s t) \<or> ready_of s t = DONE \<longrightarrow> settled s t)
     \<and> (\<forall>t cmds i. thread_pc s t = Claim cmds i \<longrightarrow> i < NUMBER_OF_THREADS \<and> ready_of s i = READY_TO_EXECUTE)"

lemma ready_neqs [simp]:
  "STARTED \<noteq> DONE" "STARTED \<noteq> READY_TO_EXECUTE" "STARTED \<noteq> NONE" "STARTED \<noteq> READY_TO_INTIALISE"
  "DONE \<noteq> STARTED" "DONE \<noteq> READY_TO_EXECUTE" "DONE \<noteq> NONE" "DONE \<noteq> READY_TO_INTIALISE"
  "READY_TO_EXECUTE \<noteq> STARTED" "READY_TO_EXECUTE \<noteq> DONE" "READY_TO_EXECUTE \<noteq> NONE"
  "READY_TO_EXECUTE \<noteq> READY_TO_INTIALISE" "NONE \<noteq> STARTED" "NONE \<noteq> DONE" "NONE \<noteq> READY_TO_EXECUTE"
  "READY_TO_INTIALISE \<noteq> STARTED" "READY_TO_INTIALISE \<noteq> DONE" "READY_TO_INTIALISE \<noteq> READY_TO_EXECUTE"
  by (simp_all add: ready_defs)

abbreviation claims :: "fc_pc \<Rightarrow> nat list" where
  "claims p \<equiv> served p @ unserved p"

lemma task_inv_start:
  assumes "fc_start a s"
  shows "task_inv s"
proof -
  have r: "ready_of s t = NONE \<or> ready_of s t = READY_TO_INTIALISE" for t
    using assms by (simp add: fc_start_def)
  have "ready_of s t \<noteq> STARTED" "ready_of s t \<noteq> READY_TO_EXECUTE" "ready_ok t Idle (ready_of s t)" for t
    using r [of t] by auto
  moreover have "thread_pc s t = Idle" "settled s t" for t
    using assms by (simp_all add: fc_start_def settled_def served_by_def)
  ultimately show ?thesis by (simp add: task_inv_def)
qed

lemma claims_of_holder: "\<not> holds_lock p \<Longrightarrow> served p = [] \<and> unserved p = []"
  by (cases p) simp_all

lemma task_invD:
  assumes "task_inv s"
  shows "ready_ok t (thread_pc s t) (ready_of s t)"
    "distinct (served (thread_pc s t) @ unserved (thread_pc s t))"
    "u \<in> set (served (thread_pc s t)) \<Longrightarrow> u < NUMBER_OF_THREADS \<and> ready_of s u = STARTED \<and> settled s u"
    "u \<in> set (unserved (thread_pc s t)) \<Longrightarrow> u < NUMBER_OF_THREADS \<and> ready_of s u = STARTED \<and> pending s u"
    "ready_of s u = STARTED \<Longrightarrow> \<exists>t. u \<in> set (served (thread_pc s t) @ unserved (thread_pc s t))"
    "awaits (thread_pc s t) \<Longrightarrow> pending s t" "ready_of s t = READY_TO_EXECUTE \<Longrightarrow> pending s t"
    "finished (thread_pc s t) \<Longrightarrow> settled s t" "ready_of s t = DONE \<Longrightarrow> settled s t"
    "thread_pc s t = Claim cmds i \<Longrightarrow> i < NUMBER_OF_THREADS \<and> ready_of s i = READY_TO_EXECUTE"
  using assms unfolding task_inv_def by blast+

text \<open>
  A step of thread \<open>t\<close> to \<open>p\<close> that changes the state of at most one entry, \<open>i\<close>, and leaves alone
  which requests are executed.
\<close>

lemma retask:
  assumes inv: "task_inv s"
    and pc: "thread_pc s' = (thread_pc s)(t := p)"
    and rd: "\<forall>u. ready_of s' u = (if u = i then r else ready_of s u)"
    and same: "pending s' = pending s" "settled s' = settled s"
    and only: "\<forall>u. u \<noteq> t \<longrightarrow> i \<in> set (claims (thread_pc s u)) \<longrightarrow> r = STARTED"
    and own: "ready_ok t p (if t = i then r else ready_of s t)" "i \<noteq> t \<Longrightarrow> ready_ok i (thread_pc s i) r"
    and dist: "distinct (claims p)"
    and sv: "\<forall>u\<in>set (served p). u < NUMBER_OF_THREADS \<and> ready_of s' u = STARTED \<and> settled s u"
    and uv: "\<forall>u\<in>set (unserved p). u < NUMBER_OF_THREADS \<and> ready_of s' u = STARTED \<and> pending s u"
    and st: "\<forall>u. ready_of s' u = STARTED \<longrightarrow> u \<in> set (claims p) \<or> (\<exists>v. v \<noteq> t \<and> u \<in> set (claims (thread_pc s v)))"
    and aw: "awaits p \<Longrightarrow> pending s t" "r = READY_TO_EXECUTE \<Longrightarrow> pending s i"
    and fi: "finished p \<Longrightarrow> settled s t" "r = DONE \<Longrightarrow> settled s i"
    and cl: "\<forall>cmds j. p = Claim cmds j \<longrightarrow> j < NUMBER_OF_THREADS \<and> ready_of s' j = READY_TO_EXECUTE"
    and cn: "\<forall>u cmds. u \<noteq> t \<longrightarrow> thread_pc s u = Claim cmds i \<longrightarrow> r = READY_TO_EXECUTE"
  shows "task_inv s'"
  unfolding task_inv_def same
proof (intro conjI)
  note d = task_invD [OF inv]
  show "\<forall>u. ready_ok u (thread_pc s' u) (ready_of s' u)" using d(1) own by (auto simp: pc rd)
  show "\<forall>u. distinct (claims (thread_pc s' u))" using d(2) dist by (auto simp: pc)
  have "v < NUMBER_OF_THREADS \<and> ready_of s' v = STARTED \<and> settled s v"
    if "v \<in> set (served (thread_pc s u))" "u \<noteq> t" for u v
    using d(3) [OF that(1)] only that rd by auto
  then show "\<forall>u. \<forall>v\<in>set (served (thread_pc s' u)). v < NUMBER_OF_THREADS \<and> ready_of s' v = STARTED \<and> settled s v"
    using sv by (auto simp: pc)
  have "v < NUMBER_OF_THREADS \<and> ready_of s' v = STARTED \<and> pending s v"
    if "v \<in> set (unserved (thread_pc s u))" "u \<noteq> t" for u v
    using d(4) [OF that(1)] only that rd by auto
  then show "\<forall>u. \<forall>v\<in>set (unserved (thread_pc s' u)). v < NUMBER_OF_THREADS \<and> ready_of s' v = STARTED \<and> pending s v"
    using uv by (auto simp: pc)
  show "\<forall>u. ready_of s' u = STARTED \<longrightarrow> (\<exists>t. u \<in> set (claims (thread_pc s' t)))"
    using st unfolding pc by (metis fun_upd_other fun_upd_same)
  show "\<forall>u. awaits (thread_pc s' u) \<or> ready_of s' u = READY_TO_EXECUTE \<longrightarrow> pending s u"
    using d(6,7) aw by (auto simp: pc rd)
  show "\<forall>u. finished (thread_pc s' u) \<or> ready_of s' u = DONE \<longrightarrow> settled s u"
    using d(8,9) fi by (auto simp: pc rd)
  have "j < NUMBER_OF_THREADS \<and> ready_of s' j = READY_TO_EXECUTE" if "thread_pc s u = Claim cmds j" "u \<noteq> t" for u cmds j
    using d(10) [OF that(1)] cn that rd by auto
  then show "\<forall>u cmds j. thread_pc s' u = Claim cmds j \<longrightarrow> j < NUMBER_OF_THREADS \<and> ready_of s' j = READY_TO_EXECUTE"
    using cl by (auto simp: pc)
qed

text \<open>A step that changes neither the task array nor what has been collected.\<close>

lemma task_move:
  assumes inv: "task_inv s"
    and pc: "thread_pc s' = (thread_pc s)(t := p)" and ta: "taskArray s' = taskArray s"
    and gh: "history s' = history s" "requested s' = requested s"
    and cs: "served p = served (thread_pc s t)" "unserved p = unserved (thread_pc s t)"
    and own: "ready_ok t p (ready_of s t)"
    and aw: "awaits p \<Longrightarrow> pending s t" and fi: "finished p \<Longrightarrow> settled s t"
    and cl: "\<And>cmds j. p = Claim cmds j \<Longrightarrow> j < NUMBER_OF_THREADS \<and> ready_of s j = READY_TO_EXECUTE"
  shows "task_inv s'"
proof (rule retask [OF inv pc, where i = t and r = "ready_of s t"])
  note d = task_invD [OF inv]
  show "pending s' = pending s" "settled s' = settled s"
    by (auto simp: fun_eq_iff pending_def settled_def served_by_def ta gh)
  show "\<forall>u. u \<noteq> t \<longrightarrow> t \<in> set (claims (thread_pc s u)) \<longrightarrow> ready_of s t = STARTED"
    using d(3,4) by auto
  show "distinct (claims p)" unfolding cs using d(2) .
  show "\<forall>u\<in>set (served p). u < NUMBER_OF_THREADS \<and> ready_of s' u = STARTED \<and> settled s u"
    unfolding cs ta using d(3) by blast
  show "\<forall>u\<in>set (unserved p). u < NUMBER_OF_THREADS \<and> ready_of s' u = STARTED \<and> pending s u"
    unfolding cs ta using d(4) by blast
  show "\<forall>u. ready_of s' u = STARTED \<longrightarrow> u \<in> set (claims p) \<or> (\<exists>v. v \<noteq> t \<and> u \<in> set (claims (thread_pc s v)))"
    unfolding cs ta using d(5) by metis
  show "\<forall>u cmds. u \<noteq> t \<longrightarrow> thread_pc s u = Claim cmds t \<longrightarrow> ready_of s t = READY_TO_EXECUTE"
    using d(10) by blast
  show "\<forall>cmds j. p = Claim cmds j \<longrightarrow> j < NUMBER_OF_THREADS \<and> ready_of s' j = READY_TO_EXECUTE"
    using cl unfolding ta by blast
qed (use own aw fi task_invD(7,9) [OF inv] ta in auto)

text \<open>A step that executes or registers the request of \<open>j\<close>.\<close>

lemma rephase:
  assumes inv: "task_inv s"
    and pc: "thread_pc s' = (thread_pc s)(t := p)" and rd: "\<forall>u. ready_of s' u = ready_of s u"
    and ph: "\<forall>u. u \<noteq> j \<longrightarrow> pending s' u = pending s u \<and> settled s' u = settled s u"
    and only: "\<forall>u. u \<noteq> t \<longrightarrow> j \<notin> set (claims (thread_pc s u))"
    and rj: "ready_of s j \<noteq> READY_TO_EXECUTE" "ready_of s j \<noteq> DONE"
    and pj: "j \<noteq> t \<Longrightarrow> \<not> awaits (thread_pc s j) \<and> \<not> finished (thread_pc s j)"
    and own: "ready_ok t p (ready_of s t)" and dist: "distinct (claims p)"
    and sv: "\<forall>u\<in>set (served p). u < NUMBER_OF_THREADS \<and> ready_of s u = STARTED \<and> settled s' u"
    and uv: "\<forall>u\<in>set (unserved p). u < NUMBER_OF_THREADS \<and> ready_of s u = STARTED \<and> pending s' u"
    and st: "set (claims p) = set (claims (thread_pc s t))"
    and aw: "awaits p \<Longrightarrow> pending s' t" and fi: "finished p \<Longrightarrow> settled s' t"
    and cl: "\<forall>cmds i. p \<noteq> Claim cmds i"
  shows "task_inv s'"
  unfolding task_inv_def
proof (intro conjI)
  note d = task_invD [OF inv]
  show "\<forall>u. ready_ok u (thread_pc s' u) (ready_of s' u)" using d(1) own by (auto simp: pc rd)
  show "\<forall>u. distinct (claims (thread_pc s' u))" using d(2) dist by (auto simp: pc)
  have "v < NUMBER_OF_THREADS \<and> ready_of s' v = STARTED \<and> settled s' v"
    if "v \<in> set (served (thread_pc s u))" "u \<noteq> t" for u v
    using d(3) [OF that(1)] only that rd ph by (metis in_set_conv_decomp_first set_append Un_iff)
  then show "\<forall>u. \<forall>v\<in>set (served (thread_pc s' u)). v < NUMBER_OF_THREADS \<and> ready_of s' v = STARTED \<and> settled s' v"
    using sv by (auto simp: pc rd)
  have "v < NUMBER_OF_THREADS \<and> ready_of s' v = STARTED \<and> pending s' v"
    if "v \<in> set (unserved (thread_pc s u))" "u \<noteq> t" for u v
    using d(4) [OF that(1)] only that rd ph by (metis set_append Un_iff)
  then show "\<forall>u. \<forall>v\<in>set (unserved (thread_pc s' u)). v < NUMBER_OF_THREADS \<and> ready_of s' v = STARTED \<and> pending s' v"
    using uv by (auto simp: pc rd)
  have "\<exists>v. u \<in> set (claims (thread_pc s' v))" if "ready_of s u = STARTED" for u
  proof -
    obtain v where "u \<in> set (claims (thread_pc s v))" using d(5) [OF \<open>ready_of s u = STARTED\<close>] by blast
    then show ?thesis using st unfolding pc by (cases "v = t") (metis fun_upd_same, metis fun_upd_other)
  qed
  then show "\<forall>u. ready_of s' u = STARTED \<longrightarrow> (\<exists>t. u \<in> set (claims (thread_pc s' t)))" unfolding rd [rule_format] by blast
  have "pending s' u" if "awaits (thread_pc s' u) \<or> ready_of s' u = READY_TO_EXECUTE" for u
    using that d(6,7) [of u] aw ph rj pj rd by (cases "u = j"; cases "u = t") (auto simp: pc)
  then show "\<forall>u. awaits (thread_pc s' u) \<or> ready_of s' u = READY_TO_EXECUTE \<longrightarrow> pending s' u" by blast
  have "settled s' u" if "finished (thread_pc s' u) \<or> ready_of s' u = DONE" for u
    using that d(8,9) [of u] fi ph rj pj rd by (cases "u = j"; cases "u = t") (auto simp: pc)
  then show "\<forall>u. finished (thread_pc s' u) \<or> ready_of s' u = DONE \<longrightarrow> settled s' u" by blast
  show "\<forall>u cmds i. thread_pc s' u = Claim cmds i \<longrightarrow> i < NUMBER_OF_THREADS \<and> ready_of s' i = READY_TO_EXECUTE"
    using cl d(10) rd by (auto simp: pc)
qed

lemma execute_phases:
  "pending s j \<Longrightarrow> settled (execute cb j s) j"
  "u \<noteq> j \<Longrightarrow> pending (execute cb j s) u = pending s u"
  "u \<noteq> j \<Longrightarrow> settled (execute cb j s) u = settled s u"
  by (simp_all add: pending_def settled_def served_by_def execute_def split: prod.split)

lemma request_phases:
  "settled s t \<Longrightarrow> pending (request t c s) t"
  "u \<noteq> t \<Longrightarrow> pending (request t c s) u = pending s u"
  "u \<noteq> t \<Longrightarrow> settled (request t c s) u = settled s u"
  by (simp_all add: pending_def settled_def served_by_def request_def)

lemma goto_phases [simp]:
  "pending (s\<lparr>thread_pc := f\<rparr>) = pending s" "settled (s\<lparr>thread_pc := f\<rparr>) = settled s"
  "pending (s\<lparr>thread_mmap := g\<rparr>) = pending s" "settled (s\<lparr>thread_mmap := g\<rparr>) = settled s"
  "pending (s\<lparr>lock := l\<rparr>) = pending s" "settled (s\<lparr>lock := l\<rparr>) = settled s"
  "pending (set_ready i r s) = pending s" "settled (set_ready i r s) = settled s"
  by (auto simp: fun_eq_iff pending_def settled_def served_by_def)

lemma idle_unclaimed:
  assumes "task_inv s" "ready_of s t \<noteq> STARTED"
  shows "t \<notin> set (claims (thread_pc s u))"
  using task_invD(3,4) [OF assms(1)] assms(2) by auto

text \<open>The steps that change the state of an entry.\<close>

lemma own_ready_step:
  assumes inv: "task_inv s" and p: "claims (thread_pc s t) = []" "claims p = []" "\<forall>cmds i. p \<noteq> Claim cmds i"
    and r: "ready_ok t p r" "r \<noteq> STARTED" "r \<noteq> DONE" "ready_of s t \<noteq> STARTED" "ready_of s t \<noteq> READY_TO_EXECUTE"
    and ph: "r = READY_TO_EXECUTE \<or> awaits p \<Longrightarrow> pending s t" "finished p \<Longrightarrow> settled s t"
  shows "task_inv (goto t p (set_ready t r s))"
proof (rule retask [OF inv, where p = p and i = t and r = r])
  note d = task_invD [OF inv]
  have "served p = []" "unserved p = []" using p(2) by simp_all
  then show "distinct (claims p)"
      "\<forall>u\<in>set (served p). u < NUMBER_OF_THREADS \<and> ready_of (goto t p (set_ready t r s)) u = STARTED \<and> settled s u"
      "\<forall>u\<in>set (unserved p). u < NUMBER_OF_THREADS \<and> ready_of (goto t p (set_ready t r s)) u = STARTED \<and> pending s u"
    by simp_all
  have "\<exists>v. v \<noteq> t \<and> u \<in> set (claims (thread_pc s v))" if "ready_of s u = STARTED" for u
    using d(5) [OF that] p(1) by (metis empty_iff empty_set)
  then show "\<forall>u. ready_of (goto t p (set_ready t r s)) u = STARTED \<longrightarrow>
      u \<in> set (claims p) \<or> (\<exists>v. v \<noteq> t \<and> u \<in> set (claims (thread_pc s v)))"
    using r(2) by simp
  show "\<forall>u. u \<noteq> t \<longrightarrow> t \<in> set (claims (thread_pc s u)) \<longrightarrow> r = STARTED"
    using idle_unclaimed [OF inv r(4)] by blast
  show "\<forall>u cmds. u \<noteq> t \<longrightarrow> thread_pc s u = Claim cmds t \<longrightarrow> r = READY_TO_EXECUTE"
    using d(10) r(5) by blast
qed (use p(3) r ph in auto)


lemma claimed_by_holder:
  assumes inv: "task_inv s" and only: "\<forall>u. u \<noteq> t \<longrightarrow> \<not> holds_lock (thread_pc s u)"
  shows "u \<noteq> t \<Longrightarrow> claims (thread_pc s u) = []"
    "ready_of s v = STARTED \<Longrightarrow> v \<in> set (claims (thread_pc s t))"
proof -
  show none: "claims (thread_pc s u) = []" if "u \<noteq> t" for u
    using claims_of_holder [of "thread_pc s u"] only that by simp
  assume "ready_of s v = STARTED"
  then obtain u where u: "v \<in> set (claims (thread_pc s u))" using task_invD(5) [OF inv] by blast
  then have "u = t" using none [of u] by (metis empty_iff empty_set)
  with u show "v \<in> set (claims (thread_pc s t))" by simp
qed

lemma claim_step:
  assumes inv: "task_inv s" and pc: "thread_pc s t = Claim cmds i"
    and only: "\<forall>u. u \<noteq> t \<longrightarrow> \<not> holds_lock (thread_pc s u)"
  shows "task_inv (thread_step cb t (thread_pc s t) s)"
proof -
  note d = task_invD [OF inv]
  have i: "i < NUMBER_OF_THREADS" "ready_of s i = READY_TO_EXECUTE" "pending s i"
    using d(10) [OF pc] d(7) [of i] by simp_all
  have c: "\<forall>u\<in>set cmds. u < NUMBER_OF_THREADS \<and> ready_of s u = STARTED \<and> pending s u" "distinct cmds"
    using d(4) [of _ t] d(2) [of t] pc by simp_all
  have st: "u \<in> set cmds" if "ready_of s u = STARTED" for u
    using claimed_by_holder(2) [OF inv only that] pc by simp
  have ok: "ready_ok i (thread_pc s i) STARTED" if "i \<noteq> t"
    using d(1) [of i] i(2) only that by (cases "thread_pc s i") auto
  show ?thesis unfolding pc step_simps
  proof (rule retask [OF inv, where p = "Scan (cmds @ [i]) (Suc i)" and i = i and r = STARTED])
    show "ready_ok t (Scan (cmds @ [i]) (Suc i)) (if t = i then STARTED else ready_of s t)"
      using d(1) [of t] pc by auto
    show "\<forall>u cmds. u \<noteq> t \<longrightarrow> thread_pc s u = Claim cmds i \<longrightarrow> STARTED = READY_TO_EXECUTE"
      using only by (metis holds_lock.simps(2))
  qed (use i c st ok in auto)
qed

lemma mark_done_step:
  assumes inv: "task_inv s" and pc: "thread_pc s t = MarkDone cmds k" and k: "k < length cmds"
    and only: "\<forall>u. u \<noteq> t \<longrightarrow> \<not> holds_lock (thread_pc s u)"
  shows "task_inv (thread_step cb t (thread_pc s t) s)"
proof -
  note d = task_invD [OF inv]
  let ?i = "cmds ! k"
  have dr: "drop k cmds = ?i # drop (Suc k) cmds" using k by (simp add: Cons_nth_drop_Suc)
  have c: "\<forall>u\<in>set (drop k cmds). u < NUMBER_OF_THREADS \<and> ready_of s u = STARTED \<and> settled s u"
      "distinct (drop k cmds)"
    using d(3) [of _ t] d(2) [of t] pc by simp_all
  have st: "u \<in> set (drop k cmds)" if "ready_of s u = STARTED" for u
    using claimed_by_holder(2) [OF inv only that] pc by simp
  have ok: "ready_ok ?i (thread_pc s ?i) DONE" if "?i \<noteq> t"
    using d(1) [of ?i] c(1) dr only that by (cases "thread_pc s ?i") auto
  have e: "thread_step cb t (thread_pc s t) s = goto t (MarkDone cmds (Suc k)) (set_ready ?i DONE s)"
    using pc k by simp
  show ?thesis unfolding e
  proof (rule retask [OF inv, where p = "MarkDone cmds (Suc k)" and i = ?i and r = DONE])
    show "ready_ok t (MarkDone cmds (Suc k)) (if t = ?i then DONE else ready_of s t)"
      using d(1) [of t] pc by auto
    show "\<forall>u. u \<noteq> t \<longrightarrow> ?i \<in> set (claims (thread_pc s u)) \<longrightarrow> DONE = STARTED"
      using claimed_by_holder(1) [OF inv only] by (metis empty_iff empty_set)
    show "\<forall>u cmds. u \<noteq> t \<longrightarrow> thread_pc s u = Claim cmds ?i \<longrightarrow> DONE = READY_TO_EXECUTE"
      using only by (metis holds_lock.simps(2))
  qed (use c st ok in \<open>auto simp: dr\<close>)
qed

lemma process_step:
  assumes inv: "task_inv s" and pc: "thread_pc s t = Process cmds k" and k: "k < length cmds"
    and only: "\<forall>u. u \<noteq> t \<longrightarrow> \<not> holds_lock (thread_pc s u)"
  shows "task_inv (thread_step cb t (thread_pc s t) s)"
proof -
  note d = task_invD [OF inv]
  let ?i = "cmds ! k"
  have dr: "drop k cmds = ?i # drop (Suc k) cmds" "take (Suc k) cmds = take k cmds @ [?i]"
    using k by (simp_all add: Cons_nth_drop_Suc take_Suc_conv_app_nth)
  have c: "\<forall>u\<in>set (take k cmds). u < NUMBER_OF_THREADS \<and> ready_of s u = STARTED \<and> settled s u"
      "\<forall>u\<in>set (drop k cmds). u < NUMBER_OF_THREADS \<and> ready_of s u = STARTED \<and> pending s u"
    using d(3) [of _ t] d(4) [of _ t] pc by simp_all
  have dc: "distinct (take k cmds @ ?i # drop (Suc k) cmds)" using d(2) [of t] pc dr(1) by simp
  have i: "?i < NUMBER_OF_THREADS" "ready_of s ?i = STARTED" "pending s ?i" using c(2) dr(1) by simp_all
  have pj: "\<not> awaits (thread_pc s ?i) \<and> \<not> finished (thread_pc s ?i)" if "?i \<noteq> t"
    using d(1) [of ?i] i(2) by (cases "thread_pc s ?i") auto
  have e: "thread_step cb t (thread_pc s t) s = goto t (Process cmds (Suc k)) (execute cb ?i s)"
    using pc k by simp
  have sne: "settled (execute cb ?i s) ?i" "u \<in> set (take k cmds) \<Longrightarrow> settled (execute cb ?i s) u" for u
    using i(3) c(1) dc by (auto simp: execute_phases(1)) (metis execute_phases(3))
  show ?thesis unfolding e
  proof (rule rephase [OF inv, where p = "Process cmds (Suc k)" and j = ?i and t = t])
    show "\<forall>u. u \<noteq> t \<longrightarrow> ?i \<notin> set (claims (thread_pc s u))"
      using claimed_by_holder(1) [OF inv only] by (metis empty_iff empty_set)
    show "\<forall>u\<in>set (served (Process cmds (Suc k))). u < NUMBER_OF_THREADS \<and> ready_of s u = STARTED
        \<and> settled (goto t (Process cmds (Suc k)) (execute cb ?i s)) u"
      using c(1) i sne by (auto simp: dr(2) execute_phases)
    show "\<forall>u\<in>set (unserved (Process cmds (Suc k))). u < NUMBER_OF_THREADS \<and> ready_of s u = STARTED
        \<and> pending (goto t (Process cmds (Suc k)) (execute cb ?i s)) u"
      using c(2) dc by (auto simp: dr(1)) (metis execute_phases(2))
    show "distinct (claims (Process cmds (Suc k)))" using dc by (simp add: dr(2))
    show "set (claims (Process cmds (Suc k))) = set (claims (thread_pc s t))" using pc by (simp add: dr)
    show "ready_ok t (Process cmds (Suc k)) (ready_of s t)" using d(1) [of t] pc by simp
  qed (use i pj in \<open>auto simp: execute_phases\<close>)
qed

lemma read_step:
  assumes inv: "task_inv s" and pc: "thread_pc s t = Reading"
  shows "task_inv (thread_step cb t (thread_pc s t) s)"
  unfolding pc step_simps
proof (rule rephase [OF inv, where p = ReadUnlock and j = t and t = t])
  note d = task_invD [OF inv]
  have r: "ready_of s t \<noteq> STARTED" "ready_of s t \<noteq> READY_TO_EXECUTE" "ready_of s t \<noteq> DONE"
    using d(1) [of t] pc by auto
  show "\<forall>u. u \<noteq> t \<longrightarrow> t \<notin> set (claims (thread_pc s u))" using idle_unclaimed [OF inv r(1)] by blast
  show "settled (goto t ReadUnlock (execute cb t s)) t" using d(6) [of t] pc by (simp add: execute_phases)
  show "ready_of s t \<noteq> READY_TO_EXECUTE" "ready_of s t \<noteq> DONE" using r by simp_all
  show "ready_ok t ReadUnlock (ready_of s t)" using d(1) [of t] pc by simp
qed (use pc in \<open>auto simp: execute_phases\<close>)

lemma request_step:
  assumes inv: "task_inv s" and pc: "thread_pc s t = Idle" and p: "p = Publish \<or> p = ReadMark"
  shows "task_inv (goto t p (request t c s))"
proof (rule rephase [OF inv, where p = p and j = t and t = t])
  note d = task_invD [OF inv]
  have r: "ready_of s t \<noteq> STARTED" "ready_of s t \<noteq> READY_TO_EXECUTE" "ready_of s t \<noteq> DONE"
    using d(1) [of t] pc by auto
  show "\<forall>u. u \<noteq> t \<longrightarrow> t \<notin> set (claims (thread_pc s u))" using idle_unclaimed [OF inv r(1)] by blast
  show "pending (goto t p (request t c s)) t" using d(8) [of t] pc by (simp add: request_phases)
  show "ready_of s t \<noteq> READY_TO_EXECUTE" "ready_of s t \<noteq> DONE" using r by simp_all
  show "ready_ok t p (ready_of s t)" using d(1) [of t] pc p by auto
qed (use pc p in \<open>auto simp: request_phases\<close>)

lemma quiet_step:
  assumes inv: "task_inv s" and li: "lock_inv s" and t: "t < NUMBER_OF_THREADS"
    and q: "\<forall>cmds i. thread_pc s t \<noteq> Claim cmds i" "\<forall>cmds k. thread_pc s t = Process cmds k \<longrightarrow> \<not> k < length cmds"
      "\<forall>cmds k. thread_pc s t = MarkDone cmds k \<longrightarrow> \<not> k < length cmds" "thread_pc s t \<noteq> Reading"
      "thread_pc s t \<noteq> Publish" "thread_pc s t \<noteq> Leave" "thread_pc s t \<noteq> ClearOwn"
  shows "task_inv (thread_step cb t (thread_pc s t) s)"
proof -
  note d = task_invD [OF inv]
  note r = d(1) [of t] and aw = d(6) [of t] and fi = d(8) [of t]
  let ?s = "thread_step cb t (thread_pc s t) s"
  have ns: "ready_of s t \<noteq> STARTED" if "thread_pc s t = TakeLock" "lockIsFree (lock s)"
  proof
    assume "ready_of s t = STARTED"
    then obtain u where u: "t \<in> set (claims (thread_pc s u))" using d(5) by blast
    then have "holds_lock (thread_pc s u)" using claims_of_holder [of "thread_pc s u"]
      by (cases "holds_lock (thread_pc s u)") auto
    then show False using lock_invD(3) [OF li, of u] that(2) by (simp add: owner_def)
  qed
  have own: "t \<in> set (claims (thread_pc s t))" if "ready_of s t = STARTED" "holds_lock (thread_pc s t)"
  proof -
    have "\<forall>u. u \<noteq> t \<longrightarrow> \<not> holds_lock (thread_pc s u)"
      using lock_invD(2) [OF li, of t] that(2) by (metis owner_def)
    then show ?thesis using claimed_by_holder(2) [OF inv] that(1) by blast
  qed
  have scan: "i < NUMBER_OF_THREADS \<and> (ready_of s i \<noteq> READY_TO_EXECUTE \<longrightarrow> Suc i \<le> t)"
    if "thread_pc s t = Scan cmds i" "ready_of s t = READY_TO_EXECUTE" for cmds i
    using r that t by (cases "i = t") auto
  show ?thesis
  proof (rule task_move [OF inv thread_step_moves(1)])
    show "taskArray ?s = taskArray s" "history ?s = history s" "requested ?s = requested s"
      using q by (cases "thread_pc s t"; auto)+
    show "served (thread_pc ?s t) = served (thread_pc s t)" "unserved (thread_pc ?s t) = unserved (thread_pc s t)"
      using q by (cases "thread_pc s t"; auto)+
    show "awaits (thread_pc ?s t) \<Longrightarrow> pending s t"
      using aw q by (cases "thread_pc s t") (auto split: if_splits)
    show "finished (thread_pc ?s t) \<Longrightarrow> settled s t"
      using fi q by (cases "thread_pc s t") (auto split: if_splits)
    show "j < NUMBER_OF_THREADS \<and> ready_of s j = READY_TO_EXECUTE" if "thread_pc ?s t = Claim cmds j" for cmds j
      using that q by (cases "thread_pc s t") (auto split: if_splits)
    show "ready_ok t (thread_pc ?s t) (ready_of s t)"
      using r q ns own scan by (cases "thread_pc s t") (auto simp: lock_facts)
  qed
qed

lemma thread_step_keeps_task_inv:
  assumes inv: "task_inv s" and li: "lock_inv s" and t: "t < NUMBER_OF_THREADS"
  shows "task_inv (thread_step cb t (thread_pc s t) s)"
proof -
  note d = task_invD [OF inv]
  have only: "\<forall>u. u \<noteq> t \<longrightarrow> \<not> holds_lock (thread_pc s u)" if "holds_lock (thread_pc s t)"
    using lock_invD(2) [OF li, of t] that by (metis owner_def)
  consider (claim) cmds i where "thread_pc s t = Claim cmds i"
    | (process) cmds k where "thread_pc s t = Process cmds k" "k < length cmds"
    | (mark) cmds k where "thread_pc s t = MarkDone cmds k" "k < length cmds"
    | (reading) "thread_pc s t = Reading"
    | (own) "thread_pc s t = Publish \<or> thread_pc s t = Leave \<or> thread_pc s t = ClearOwn"
    | (quiet) "\<forall>cmds i. thread_pc s t \<noteq> Claim cmds i" "\<forall>cmds k. thread_pc s t = Process cmds k \<longrightarrow> \<not> k < length cmds"
      "\<forall>cmds k. thread_pc s t = MarkDone cmds k \<longrightarrow> \<not> k < length cmds" "thread_pc s t \<noteq> Reading"
      "thread_pc s t \<noteq> Publish" "thread_pc s t \<noteq> Leave" "thread_pc s t \<noteq> ClearOwn"
    by blast
  then show ?thesis
  proof cases
    case claim
    then show ?thesis using claim_step [OF inv] only by simp
  next
    case process
    then show ?thesis using process_step [OF inv] only by (metis holds_lock.simps(5))
  next
    case mark
    then show ?thesis using mark_done_step [OF inv] only by (metis holds_lock.simps(7))
  next
    case reading
    then show ?thesis using read_step [OF inv] by blast
  next
    case own
    then show ?thesis
    proof (elim disjE)
      assume p: "thread_pc s t = Publish"
      show ?thesis unfolding p step_simps
        by (rule own_ready_step [OF inv]) (use p d(1,6) [of t] in auto)
    next
      assume p: "thread_pc s t = Leave"
      show ?thesis unfolding p step_simps
        by (rule own_ready_step [OF inv]) (use p d(1,9) [of t] in auto)
    next
      assume p: "thread_pc s t = ClearOwn"
      show ?thesis unfolding p step_simps
        by (rule own_ready_step [OF inv]) (use p d(1,9) [of t] in auto)
    qed
  next
    case quiet
    then show ?thesis using quiet_step [OF inv li t] by blast
  qed
qed

lemma other_step:
  assumes inv: "task_inv s"
    and "thread_pc s' = thread_pc s" "taskArray s' = taskArray s" "history s' = history s" "requested s' = requested s"
  shows "task_inv s'"
  by (rule task_move [OF inv, where t = 0 and p = "thread_pc s 0"])
    (use assms task_invD(1,6,8,10) [OF inv] in auto)

lemma task_inv_step: "fc_step cb s s' \<Longrightarrow> lock_inv s \<Longrightarrow> task_inv s \<Longrightarrow> task_inv s'"
proof (induction rule: fc_step.induct)
  case (request_rw t s c)
  then show ?case by (intro request_step) simp_all
next
  case (request_ro t s c)
  then show ?case by (intro request_step) simp_all
next
  case (first_request t s)
  show ?case
    by (rule task_move [OF first_request(5), where p = AllocTest and t = t])
      (use first_request task_invD(1,8) [OF first_request(5), of t] in auto)
next
  case (thread t s)
  then show ?case by (intro thread_step_keeps_task_inv)
next
  case (mmap t s)
  show ?case by (rule other_step [OF mmap(5)]) simp_all
next
  case (mmap_thread t s)
  show ?case by (rule other_step [OF mmap_thread(4)]; cases "thread_mmap s t"; simp)
qed

section \<open>Requests take effect one after the other\<close>

text \<open>The sequential application: one request at a time, remembering the last answer to each thread.\<close>

definition serve ::
    "('c, 'a) callbacks \<Rightarrow> nat \<times> 'c \<Rightarrow> 'a \<times> (nat \<Rightarrow> 'c option) \<Rightarrow> 'a \<times> (nat \<Rightarrow> 'c option)" where
  "serve cb = (\<lambda>(t, c) (a, answers).
     (snd (processRequestCallBack cb c a), answers(t \<mapsto> fst (processRequestCallBack cb c a))))"

definition answers_ok :: "('c, 'a) callbacks \<Rightarrow> 'a \<Rightarrow> ('c, 'a) fc \<Rightarrow> bool" where
  "answers_ok cb a s \<longleftrightarrow> (\<exists>answers. fold (serve cb) (history s) (a, \<lambda>_. None) = (app s, answers)
     \<and> (\<forall>t. settled s t \<longrightarrow> requested s t \<noteq> [] \<longrightarrow> answers t = Some (struct_of s t)))"

lemma answers_execute:
  assumes "answers_ok cb a s" "pending s j"
  shows "answers_ok cb a (goto t p (execute cb j s))"
proof -
  obtain answers where an: "fold (serve cb) (history s) (a, \<lambda>_. None) = (app s, answers)"
      "\<forall>t. settled s t \<longrightarrow> requested s t \<noteq> [] \<longrightarrow> answers t = Some (struct_of s t)"
    using assms(1) by (auto simp: answers_ok_def)
  let ?c = "fst (processRequestCallBack cb (struct_of s j) (app s))"
  have "struct_of (execute cb j s) u = (if u = j then ?c else struct_of s u)"
      "app (execute cb j s) = snd (processRequestCallBack cb (struct_of s j) (app s))" for u
    by (simp_all add: execute_def split: prod.split)
  moreover have "settled s u" if "settled (execute cb j s) u" "u \<noteq> j" for u
    using that execute_phases(3) by blast
  ultimately show ?thesis
    using an unfolding answers_ok_def
    by (intro exI [of _ "answers(j \<mapsto> ?c)"]) (auto simp: serve_def)
qed

lemma answers_request:
  assumes "answers_ok cb a s" "settled s t"
  shows "answers_ok cb a (goto t p (request t c s))"
proof -
  have "\<not> settled (request t c s) t"
    using assms(2) by (simp add: settled_def served_by_def request_def)
  moreover have "settled s u \<and> struct_of (request t c s) u = struct_of s u \<and> requested (request t c s) u = requested s u"
    if "settled (request t c s) u" "u \<noteq> t" for u
    using that request_phases(3) [OF that(2), of c s] by (simp_all add: request_def)
  ultimately show ?thesis
    using assms(1) unfolding answers_ok_def by simp (metis request_fields(6,7))
qed

lemma answers_other:
  assumes "answers_ok cb a s" "history s' = history s" "requested s' = requested s" "app s' = app s"
    "\<And>u. struct_of s' u = struct_of s u"
  shows "answers_ok cb a s'"
  using assms by (simp add: answers_ok_def settled_def served_by_def)

lemma thread_step_quiet:
  assumes "\<forall>cmds k. p = Process cmds k \<longrightarrow> \<not> k < length cmds" "p \<noteq> Reading"
  shows "history (thread_step cb t p s) = history s" "requested (thread_step cb t p s) = requested s"
    "app (thread_step cb t p s) = app s" "struct_of (thread_step cb t p s) u = struct_of s u"
  using assms by (cases p; auto)+

lemma answers_step: "fc_step cb s s' \<Longrightarrow> task_inv s \<Longrightarrow> answers_ok cb a s \<Longrightarrow> answers_ok cb a s'"
proof (induction rule: fc_step.induct)
  case (request_rw t s c)
  then show ?case using task_invD(8) [OF request_rw(5), of t] by (intro answers_request) simp_all
next
  case (request_ro t s c)
  then show ?case using task_invD(8) [OF request_ro(5), of t] by (intro answers_request) simp_all
next
  case (first_request t s)
  show ?case by (rule answers_other [OF first_request(5)]) simp_all
next
  case (thread t s)
  show ?case
  proof (cases "thread_pc s t = Reading \<or> (\<exists>cmds k. thread_pc s t = Process cmds k \<and> k < length cmds)")
    case True
    then show ?thesis
    proof (elim disjE exE conjE)
      assume p: "thread_pc s t = Reading"
      then show ?thesis using answers_execute [OF thread(5)] task_invD(6) [OF thread(4), of t] by simp
    next
      fix cmds k
      assume p: "thread_pc s t = Process cmds k" "k < length cmds"
      then have "cmds ! k \<in> set (unserved (thread_pc s t))" by (simp add: Cons_nth_drop_Suc [symmetric])
      then have "pending s (cmds ! k)" using task_invD(4) [OF thread(4)] by blast
      then show ?thesis using answers_execute [OF thread(5)] p by simp
    qed
  next
    case False
    then show ?thesis by (intro answers_other [OF thread(5)] thread_step_quiet) auto
  qed
next
  case (mmap t s)
  show ?case by (rule answers_other [OF mmap(5)]) simp_all
next
  case (mmap_thread t s)
  show ?case by (rule answers_other [OF mmap_thread(4)]; cases "thread_mmap s t"; simp)
qed

definition fc_inv :: "('c, 'a) callbacks \<Rightarrow> 'a \<Rightarrow> ('c, 'a) fc \<Rightarrow> bool" where
  "fc_inv cb a s \<longleftrightarrow> lock_inv s \<and> task_inv s \<and> answers_ok cb a s"

lemma fc_inv_start: "fc_start a s \<Longrightarrow> fc_inv cb a s"
  by (simp add: fc_inv_def lock_inv_start task_inv_start) (simp add: fc_start_def answers_ok_def)

interpretation fci: invariant_system "fc_start a" "fc_step cb" "fc_inv cb a"
proof unfold_locales
  show "fc_start a s \<Longrightarrow> fc_inv cb a s" for s by (rule fc_inv_start)
  show "fc_inv cb a s'" if "fc_inv cb a s" "fc_step cb s s'" for s s'
    using that lock_inv_step [OF that(2)] task_inv_step [OF that(2)] answers_step [OF that(2), of a]
    by (simp add: fc_inv_def)
qed

lemma settled_or_pending:
  assumes "task_inv s"
  shows "settled s t \<or> pending s t"
proof (cases "ready_of s t = STARTED")
  case True
  then show ?thesis using task_invD(3-5) [OF assms] by (metis Un_iff set_append)
next
  case False
  then show ?thesis using task_invD(1,6-9) [OF assms, of t] by (cases "thread_pc s t") auto
qed

lemma history_was_requested:
  assumes "task_inv s" "(t, c) \<in> set (history s)"
  shows "c \<in> set (requested s t)"
proof -
  have "c \<in> set (served_by s t)" using assms(2) by (force simp: served_by_def)
  then show ?thesis using settled_or_pending [OF assms(1), of t] by (auto simp: settled_def pending_def)
qed

lemma history_grows: "rtranclp (fc_step cb) s s' \<Longrightarrow> \<exists>h. history s' = history s @ h"
proof (induction rule: rtranclp_induct)
  case (step u v)
  have "\<exists>h. history (thread_step cb t p u) = history u @ h" for t p
    by (cases p) (simp_all add: step_simps execute_def split: prod.split)
  moreover have "history (mmap_step t q u) = history u" for t q by (cases q) simp_all
  ultimately have "\<exists>h. history v = history u @ h"
    by (cases rule: fc_step.cases [OF step(2)]) (simp_all add: request_def)
  then show ?case using step.IH by auto
qed simp

text \<open>
  C6: Requests are linearizable, and each is executed exactly once. Whatever the interleaving,
  the application's state is the result of executing the requests of the history one after
  the other; the history holds, per thread, the requests the thread made, in their order and without
  repetition, all of them when the thread is idle and all but the last while it is in a request;
  and an idle thread's last answer is the one its last request got in that sequence.
\<close>

theorem requests_take_effect_once:
  assumes "fc_start a s" "rtranclp (fc_step cb) s s'"
  shows "\<exists>answers. fold (serve cb) (history s') (a, \<lambda>_. None) = (app s', answers)
    \<and> (\<forall>t. thread_pc s' t = Idle \<longrightarrow> served_by s' t = requested s' t
         \<and> (requested s' t \<noteq> [] \<longrightarrow> answers t = Some (struct_of s' t)))
    \<and> (\<forall>t. \<exists>rest. requested s' t = served_by s' t @ rest \<and> length rest \<le> 1)"
proof -
  have inv: "task_inv s'" "answers_ok cb a s'" using fci.inv_reachable [OF assms] by (simp_all add: fc_inv_def)
  have idle: "settled s' t" if "thread_pc s' t = Idle" for t using task_invD(8) [OF inv(1), of t] that by simp
  have "\<exists>rest. requested s' t = served_by s' t @ rest \<and> length rest \<le> 1" for t
    using settled_or_pending [OF inv(1), of t] unfolding settled_def pending_def by (metis append_Nil2 le_numeral_extra(4) length_Cons list.size(3) One_nat_def zero_le)
  then show ?thesis
    using inv(2) idle unfolding answers_ok_def by (metis settled_def)
qed

text \<open>
  A combiner never collects a thread twice: whatever the interleaving, and however often it
  repeats the scan while readers drain, the indices it has collected are distinct and below
  \<open>NUMBER_OF_THREADS\<close>, so the array of \<open>NUMBER_OF_THREADS\<close> indices has room for the one it is
  about to store.
\<close>

lemma collected_indices_fit:
  assumes "fc_start a s" "rtranclp (fc_step cb) s s'" "thread_pc s' t = Claim cmds i"
  shows "distinct (cmds @ [i]) \<and> (\<forall>u\<in>set (cmds @ [i]). u < NUMBER_OF_THREADS)
    \<and> length cmds < NUMBER_OF_THREADS"
proof -
  have inv: "task_inv s'" using fci.inv_reachable [OF assms(1,2)] by (simp add: fc_inv_def)
  note d = task_invD [OF inv]
  have i: "i < NUMBER_OF_THREADS" "ready_of s' i = READY_TO_EXECUTE" using d(10) [OF assms(3)] by simp_all
  have c: "distinct cmds" "\<forall>u\<in>set cmds. u < NUMBER_OF_THREADS \<and> ready_of s' u = STARTED"
    using d(2) [of t] d(4) [of _ t] assms(3) by auto
  then have ci: "distinct (cmds @ [i])" "set (cmds @ [i]) \<subseteq> {..<NUMBER_OF_THREADS}" using i by auto
  then have "length (cmds @ [i]) \<le> NUMBER_OF_THREADS"
    using card_mono [OF _ ci(2)] distinct_card [OF ci(1)] by simp
  then show ?thesis using ci by auto
qed

section \<open>A combiner completes its batch\<close>

text \<open>Steps of thread \<open>t\<close> alone.\<close>

definition solo_step :: "('c, 'a) callbacks \<Rightarrow> nat \<Rightarrow> ('c, 'a) fc \<Rightarrow> ('c, 'a) fc \<Rightarrow> bool" where
  "solo_step cb t s s' \<longleftrightarrow> thread_pc s t \<noteq> Idle \<and> thread_mmap s t = MNone \<and> s' = thread_step cb t (thread_pc s t) s"

abbreviation solo :: "('c, 'a) callbacks \<Rightarrow> nat \<Rightarrow> ('c, 'a) fc \<Rightarrow> ('c, 'a) fc \<Rightarrow> bool" where
  "solo cb t \<equiv> rtranclp (solo_step cb t)"

lemma solo_first:
  assumes "thread_pc s t \<noteq> Idle" "thread_mmap s t = MNone" "solo cb t (thread_step cb t (thread_pc s t) s) s'"
  shows "solo cb t s s'"
  using assms by (intro converse_rtranclp_into_rtranclp [OF _ assms(3)]) (simp add: solo_step_def)

lemma solo_is_run: "t < NUMBER_OF_THREADS \<Longrightarrow> solo cb t s s' \<Longrightarrow> rtranclp (fc_step cb) s s'"
  by (erule rtranclp_mono [THEN predicate2D, rotated]) (auto simp: solo_step_def intro: fc_step.thread)

lemma solo_one:
  "thread_pc s t \<noteq> Idle \<Longrightarrow> thread_mmap s t = MNone \<Longrightarrow> solo cb t s (thread_step cb t (thread_pc s t) s)"
  by (intro r_into_rtranclp) (simp add: solo_step_def)

lemma solo_scan:
  "thread_pc s t = Scan cmds i \<Longrightarrow> thread_mmap s t = MNone \<Longrightarrow>
   \<exists>s' cmds'. solo cb t s s' \<and> thread_pc s' t = Drain cmds' 0 \<and> lock s' = lock s \<and> thread_mmap s' t = MNone"
proof (induction "NUMBER_OF_THREADS - i" arbitrary: s i cmds rule: less_induct)
  case less
  let ?s = "thread_step cb t (Scan cmds i) s"
  show ?case
  proof (cases "i < NUMBER_OF_THREADS")
    case False
    then show ?thesis using less.prems
      by (intro exI [of _ ?s] exI [of _ cmds]) (auto intro: solo_first)
  next
    case True
    let ?u = "if ready_of s i = READY_TO_EXECUTE then thread_step cb t (Claim cmds i) ?s else ?s"
    let ?c = "if ready_of s i = READY_TO_EXECUTE then cmds @ [i] else cmds"
    have u: "thread_pc ?u t = Scan ?c (Suc i)" "thread_mmap ?u t = MNone" "lock ?u = lock s"
      using less.prems True by simp_all
    have "NUMBER_OF_THREADS - Suc i < NUMBER_OF_THREADS - i" using True by simp
    then obtain s' cmds' where s': "solo cb t ?u s'" "thread_pc s' t = Drain cmds' 0" "lock s' = lock s"
        "thread_mmap s' t = MNone"
      using less.hyps [OF _ u(1,2)] u(3) by metis
    have one: "solo cb t s ?s" using solo_one [of s t cb] less.prems by simp
    have "solo cb t s ?u"
    proof (cases "ready_of s i = READY_TO_EXECUTE")
      case r: True
      have "thread_pc ?s t = Claim cmds i" "thread_mmap ?s t = MNone" using True r less.prems(2) by simp_all
      then have "solo cb t ?s (thread_step cb t (Claim cmds i) ?s)" using solo_one [of ?s t cb] by simp
      with one r show ?thesis using rtranclp_trans [of "solo_step cb t" s ?s] by simp
    next
      case False
      with one show ?thesis by simp
    qed
    with s' show ?thesis by (blast intro: rtranclp_trans)
  qed
qed

lemma solo_drain:
  "thread_pc s t = Drain cmds i \<Longrightarrow> thread_mmap s t = MNone \<Longrightarrow> \<forall>r<NUMBER_OF_THREADS. \<not> reader_is_active r (lock s) \<Longrightarrow>
   \<exists>s'. solo cb t s s' \<and> thread_pc s' t = StartBatch cmds \<and> thread_mmap s' t = MNone"
proof (induction "NUMBER_OF_THREADS - i" arbitrary: s i rule: less_induct)
  case less
  let ?s = "thread_step cb t (Drain cmds i) s"
  show ?case
  proof (cases "i < NUMBER_OF_THREADS")
    case False
    then show ?thesis using less.prems by (intro exI [of _ ?s]) (auto intro: solo_first)
  next
    case True
    then have u: "thread_pc ?s t = Drain cmds (Suc i)" "thread_mmap ?s t = MNone"
        "\<forall>r<NUMBER_OF_THREADS. \<not> reader_is_active r (lock ?s)"
      using less.prems by simp_all
    have "NUMBER_OF_THREADS - Suc i < NUMBER_OF_THREADS - i" using True by simp
    then obtain s' where "solo cb t ?s s'" "thread_pc s' t = StartBatch cmds" "thread_mmap s' t = MNone"
      using less.hyps [OF _ u] by blast
    then show ?thesis using solo_first [of s t cb s'] less.prems by auto
  qed
qed

lemma solo_process:
  "thread_pc s t = Process cmds k \<Longrightarrow> thread_mmap s t = MNone \<Longrightarrow>
   \<exists>s'. solo cb t s s' \<and> thread_pc s' t = StopBatch cmds \<and> thread_mmap s' t = MNone"
proof (induction "length cmds - k" arbitrary: s k rule: less_induct)
  case less
  let ?s = "thread_step cb t (Process cmds k) s"
  show ?case
  proof (cases "k < length cmds")
    case False
    then show ?thesis using less.prems by (intro exI [of _ ?s]) (auto intro: solo_first)
  next
    case True
    then have u: "thread_pc ?s t = Process cmds (Suc k)" "thread_mmap ?s t = MNone" using less.prems by simp_all
    have "length cmds - Suc k < length cmds - k" using True by simp
    then obtain s' where "solo cb t ?s s'" "thread_pc s' t = StopBatch cmds" "thread_mmap s' t = MNone"
      using less.hyps [OF _ u] by blast
    then show ?thesis using solo_first [of s t cb s'] less.prems by auto
  qed
qed

lemma solo_mark:
  "thread_pc s t = MarkDone cmds k \<Longrightarrow> thread_mmap s t = MNone \<Longrightarrow>
   \<exists>s'. solo cb t s s' \<and> thread_pc s' t = ClearOwn \<and> thread_mmap s' t = MNone"
proof (induction "length cmds - k" arbitrary: s k rule: less_induct)
  case less
  let ?s = "thread_step cb t (MarkDone cmds k) s"
  show ?case
  proof (cases "k < length cmds")
    case False
    then show ?thesis using less.prems by (intro exI [of _ ?s]) (auto intro: solo_first)
  next
    case True
    then have u: "thread_pc ?s t = MarkDone cmds (Suc k)" "thread_mmap ?s t = MNone" using less.prems by simp_all
    have "length cmds - Suc k < length cmds - k" using True by simp
    then obtain s' where "solo cb t ?s s'" "thread_pc s' t = ClearOwn" "thread_mmap s' t = MNone"
      using less.hyps [OF _ u] by blast
    then show ?thesis using solo_first [of s t cb s'] less.prems by auto
  qed
qed

text \<open>
  \<open>instrument_stop\<close> spins while the ring has no room for the batch's log, and only the back end makes
  room. With \<open>room\<close> false the combiner therefore does not get past \<open>StopBatch\<close>; with \<open>room\<close> true it
  does. Everything else it does in \<open>exec_rw_flat_combining\<close> is independent of the ring.
\<close>

definition own_step :: "('c, 'a) callbacks \<Rightarrow> bool \<Rightarrow> nat \<Rightarrow> ('c, 'a) fc \<Rightarrow> ('c, 'a) fc \<Rightarrow> bool" where
  "own_step cb room t s s' \<longleftrightarrow> solo_step cb t s s' \<and> (room \<or> (\<forall>cmds. thread_pc s t \<noteq> StopBatch cmds))"

lemma own_step_room: "own_step cb True t = solo_step cb t"
  by (simp add: own_step_def fun_eq_iff)

lemma own_step_waits: "thread_pc s t = StopBatch cmds \<Longrightarrow> \<not> own_step cb False t s s'"
  by (simp add: own_step_def)

text \<open>Thread \<open>t\<close>'s own steps lead to the end of the run or to the first \<open>instrument_stop\<close> on it.\<close>

lemma solo_until_stop:
  assumes "solo cb t s s'"
  shows "rtranclp (own_step cb False t) s s'
    \<or> (\<exists>s1 cmds. rtranclp (own_step cb False t) s s1 \<and> thread_pc s1 t = StopBatch cmds \<and> solo cb t s1 s')"
  using assms
proof (induction rule: converse_rtranclp_induct)
  case (step u v)
  show ?case
  proof (cases "\<exists>cmds. thread_pc u t = StopBatch cmds")
    case True
    then show ?thesis using step(1,2) by (metis converse_rtranclp_into_rtranclp rtranclp.rtrancl_refl)
  next
    case False
    then have "own_step cb False t u v" using step(1) by (simp add: own_step_def)
    then show ?thesis using step.IH by (meson converse_rtranclp_into_rtranclp)
  qed
qed simp

text \<open>The batch as far as \<open>instrument_stop\<close>, and what follows it.\<close>

lemma solo_reaches_stop:
  assumes "thread_pc s t = Scan cmds i" "thread_mmap s t = MNone" "\<forall>r<NUMBER_OF_THREADS. \<not> reader_is_active r (lock s)"
  shows "\<exists>s' cmds'. solo cb t s s' \<and> thread_pc s' t = StopBatch cmds' \<and> thread_mmap s' t = MNone"
proof -
  obtain s1 c1 where s1: "solo cb t s s1" "thread_pc s1 t = Drain c1 0" "lock s1 = lock s" "thread_mmap s1 t = MNone"
    using solo_scan [OF assms(1,2), of cb] by blast
  obtain s2 where s2: "solo cb t s1 s2" "thread_pc s2 t = StartBatch c1" "thread_mmap s2 t = MNone"
    using solo_drain [OF s1(2,4), of cb] assms(3) s1(3) by auto
  let ?s3 = "thread_step cb t (thread_pc s2 t) s2"
  obtain s4 where s4: "solo cb t ?s3 s4" "thread_pc s4 t = StopBatch c1" "thread_mmap s4 t = MNone"
    using solo_process [of ?s3 t c1 0 cb] s2(2,3) by auto
  have "solo cb t s2 ?s3" using s2(2,3) by (intro solo_one; simp)
  then show ?thesis using s1(1) s2(1) s4 by (meson rtranclp_trans)
qed

lemma solo_after_stop:
  assumes "thread_pc s t = StopBatch cmds" "thread_mmap s t = MNone"
  shows "\<exists>s'. solo cb t s s' \<and> thread_pc s' t = Idle \<and> lockIsFree (lock s')"
proof -
  let ?s5 = "thread_step cb t (thread_pc s t) s"
  obtain s6 where s6: "solo cb t ?s5 s6" "thread_pc s6 t = ClearOwn" "thread_mmap s6 t = MNone"
    using solo_mark [of ?s5 t cmds 0 cb] assms by auto
  let ?s7 = "thread_step cb t (thread_pc s6 t) s6"
  let ?s8 = "thread_step cb t (thread_pc ?s7 t) ?s7"
  have s7: "thread_pc ?s7 t = Unlock" "thread_mmap ?s7 t = MNone" using s6(2,3) by simp_all
  have "solo cb t s ?s5" "solo cb t s6 ?s7" "solo cb t ?s7 ?s8"
    using assms s6(2,3) s7 by (intro solo_one; simp)+
  then have "solo cb t s ?s8" using s6(1) by (meson rtranclp_trans)
  then show ?thesis using s7(1) by (intro exI [of _ ?s8]) (simp add: lock_facts)
qed


section \<open>A reader that maps memory\<close>

fun drains :: "fc_pc \<Rightarrow> nat \<Rightarrow> bool" where
  "drains (Scan _ _) r \<longleftrightarrow> True" | "drains (Claim _ _) r \<longleftrightarrow> True"
| "drains (Drain _ i) r \<longleftrightarrow> i \<le> r" | "drains _ r \<longleftrightarrow> False"

text \<open>Reader \<open>r\<close> waits for the writer word in the system-call callback, combiner \<open>c\<close> for \<open>r\<close>'s flag.\<close>

definition deadlock :: "('c, 'a) fc \<Rightarrow> nat \<Rightarrow> nat \<Rightarrow> bool" where
  "deadlock s r c \<longleftrightarrow> r < NUMBER_OF_THREADS \<and> thread_pc s r = Reading \<and> thread_mmap s r = MTest
     \<and> drains (thread_pc s c) r"

lemma deadlock_step:
  assumes "fc_step cb s s'" "lock_inv s" "deadlock s r c"
  shows "deadlock s' r c"
proof -
  note i = lock_invD [OF assms(2)]
  have d: "r < NUMBER_OF_THREADS" "thread_pc s r = Reading" "thread_mmap s r = MTest" "drains (thread_pc s c) r"
    using assms(3) by (simp_all add: deadlock_def)
  have c: "owner s c" "\<not> runs_application (thread_pc s c)" using d(4) by (cases "thread_pc s c"; simp add: owner_def)+
  have taken: "\<not> lockIsFree (lock s)" using i(3) [OF c(1)] .
  have rc: "thread_pc s c \<noteq> Reading" "thread_pc s c \<noteq> Idle" using c(2) by auto
  have flag: "reader_is_active r (lock s)" using i(7) [OF d(1)] d(2) by simp
  have move: "drains (thread_pc (thread_step cb c (thread_pc s c) s) c) r"
    using d(1,4) flag by (cases "thread_pc s c") (auto simp: le_eq_less_or_eq)
  from assms(1) show ?thesis
  proof (cases rule: fc_step.cases)
    case (thread t)
    have "t \<noteq> r" using thread d(3) by auto
    then show ?thesis
      using d move unfolding deadlock_def thread(1) thread_step_moves(2)
      by (subst (1 2) thread_step_moves(1)) (auto simp: thread(1))
  next
    case (mmap_thread t)
    have "thread_pc s' = thread_pc s" unfolding mmap_thread(1) by (cases "thread_mmap s t") simp_all
    moreover have "thread_mmap s' r = MTest"
      using d(3) taken unfolding mmap_thread(1) by (cases "t = r"; cases "thread_mmap s t") simp_all
    ultimately show ?thesis using d by (simp add: deadlock_def)
  next
    case (mmap t)
    then have "t \<noteq> r" using d(3) by auto
    then show ?thesis using d unfolding mmap(1) by (simp add: deadlock_def)
  qed (use d rc in \<open>auto simp: deadlock_def\<close>)
qed

text \<open>
  C33: A read-only request that maps memory while a combiner waits for the readers to drain is
  a deadlock: the reader waits for the writer word that the combiner holds, the combiner for the flag of
  the reader. Whatever the threads do afterwards, neither the read-only request nor the batch is
  executed, and the lock stays taken.
\<close>

theorem mapping_reader_deadlocks:
  assumes "fc_start a s0" "rtranclp (fc_step cb) s0 s"
    and "r < NUMBER_OF_THREADS" "thread_pc s r = Reading" "thread_mmap s r = MTest" "drains (thread_pc s c) r"
    and "rtranclp (fc_step cb) s s'"
  shows "thread_pc s' r = Reading \<and> drains (thread_pc s' c) r \<and> \<not> lockIsFree (lock s')"
proof -
  have li: "lock_inv s" using fcl.inv_reachable [OF assms(1,2)] .
  from assms(7) have "deadlock s' r c \<and> lock_inv s'"
  proof (induction rule: rtranclp_induct)
    case base
    then show ?case using assms(3-6) li by (simp add: deadlock_def)
  next
    case (step u v)
    then show ?case using deadlock_step [OF step(2)] lock_inv_step [OF step(2)] by blast
  qed
  moreover from this have "owner s' c" unfolding deadlock_def owner_def by (cases "thread_pc s' c") simp_all
  ultimately show ?thesis using lock_invD(3) [of s' c] by (simp add: deadlock_def)
qed

section \<open>Schedules\<close>

text \<open>Runs as data: what one thread does next.\<close>

datatype 'c move = Request nat 'c | First nat | Run nat | Map nat

fun do_move :: "('c, 'a) callbacks \<Rightarrow> 'c move \<Rightarrow> ('c, 'a) fc \<Rightarrow> ('c, 'a) fc option" where
  "do_move cb (Request t c) s =
     (if t < NUMBER_OF_THREADS \<and> thread_pc s t = Idle \<and> thread_mmap s t = MNone
      then Some (goto t (if isReadOnlyCallBack cb c then ReadMark else Publish) (request t c s)) else None)"
| "do_move cb (First t) s =
     (if t < NUMBER_OF_THREADS \<and> thread_pc s t = Idle \<and> thread_mmap s t = MNone
      then Some (goto t AllocTest s) else None)"
| "do_move cb (Run t) s =
     (if t < NUMBER_OF_THREADS \<and> thread_mmap s t \<noteq> MNone then Some (mmap_step t (thread_mmap s t) s)
      else if t < NUMBER_OF_THREADS \<and> thread_pc s t \<noteq> Idle then Some (thread_step cb t (thread_pc s t) s)
      else None)"
| "do_move cb (Map t) s =
     (if t < NUMBER_OF_THREADS \<and> thread_mmap s t = MNone \<and> runs_application (thread_pc s t)
      then Some (goto_mmap t (if combiner_of s t = 0 then MTest else MLog False) s) else None)"

fun do_moves :: "('c, 'a) callbacks \<Rightarrow> 'c move list \<Rightarrow> ('c, 'a) fc \<Rightarrow> ('c, 'a) fc option" where
  "do_moves cb [] s = Some s"
| "do_moves cb (m # ms) s = (case do_move cb m s of None \<Rightarrow> None | Some s' \<Rightarrow> do_moves cb ms s')"

lemma do_move_step:
  assumes "do_move cb m s = Some s'"
  shows "fc_step cb s s'"
proof (cases m)
  case (Request t c)
  then show ?thesis
    using assms fc_step.request_rw [of t s cb c] fc_step.request_ro [of t s cb c] by (auto split: if_splits)
next
  case (Map t)
  then show ?thesis using assms fc_step.mmap [of t s cb] by (auto split: if_splits)
qed (use assms in \<open>auto intro: fc_step.intros split: if_splits\<close>)

lemma do_moves_run: "do_moves cb ms s = Some s' \<Longrightarrow> rtranclp (fc_step cb) s s'"
  by (induction ms arbitrary: s)
    (auto split: option.splits intro: converse_rtranclp_into_rtranclp do_move_step)

lemma requested_thread_step [simp]: "requested (thread_step cb i p s) = requested s"
  by (cases p) (simp_all add: step_simps execute_def split: prod.split)

lemma requested_mmap_step [simp]: "requested (mmap_step i q s) = requested s"
  by (cases q) simp_all

lemma requested_move:
  "do_move cb m s = Some u \<Longrightarrow>
     requested u = (case m of Request t c \<Rightarrow> (requested s)(t := requested s t @ [c]) | _ \<Rightarrow> requested s)"
  by (cases m) (auto simp: request_def split: if_splits)

lemma requested_from_moves:
  "do_moves cb ms s = Some s' \<Longrightarrow> c \<in> set (requested s' t) \<Longrightarrow>
     c \<in> set (requested s t) \<or> Request t c \<in> set ms"
proof (induction ms arbitrary: s)
  case (Cons m ms)
  then obtain u where u: "do_move cb m s = Some u" "do_moves cb ms u = Some s'"
    by (auto split: option.splits)
  have "c \<in> set (requested u t) \<Longrightarrow> c \<in> set (requested s t) \<or> m = Request t c"
    by (cases m) (auto simp: requested_move [OF u(1)] split: if_splits)
  then show ?case using Cons.IH [OF u(2) Cons.prems(2)] by auto
qed simp

text \<open>Schedules are evaluated also when what the callback returns is left open.\<close>

lemma execute_code [code]:
  "execute cb i s =
     (let r = processRequestCallBack cb (struct_of s i) (app s)
      in s\<lparr>taskArray := (taskArray s)(i := (taskArray s i)\<lparr>applicationSpecificStruct := fst r\<rparr>),
           app := snd r, history := history s @ [(i, struct_of s i)]\<rparr>)"
  by (simp add: execute_def split_beta Let_def)

definition example_callbacks :: "(int, int) callbacks" where
  "example_callbacks = \<lparr>isReadOnlyCallBack = (\<lambda>c. c = 0), processRequestCallBack = (\<lambda>c a. (a, a + c))\<rparr>"

text \<open>The threads before their first request, with the application in state \<open>a\<close>.\<close>

definition fresh_fc :: "'c \<Rightarrow> 'a \<Rightarrow> ('c, 'a) fc" where
  "fresh_fc c a =
     \<lparr>lock = allocate_lock (replicate 128 7), taskArray = (\<lambda>_. \<lparr>ready = NONE, applicationSpecificStruct = c\<rparr>),
      thread_pc = (\<lambda>_. Idle), thread_mmap = (\<lambda>_. MNone), combiner_of = (\<lambda>_. 0), app = a,
      history = [], requested = (\<lambda>_. [])\<rparr>"

lemma fresh_fc_start: "fc_start a (fresh_fc c a)" "requested (fresh_fc c a) t = []"
  using allocate_lock_ok [of "replicate 128 7"]
  by (simp_all add: fc_start_def fresh_fc_def NUMBER_OF_THREADS_def padding_size_def)

definition example_fc :: "(int, int) fc" where
  "example_fc = fresh_fc 0 10"

lemma example_fc_start: "fc_start 10 example_fc"
  by (simp add: example_fc_def fresh_fc_start)

definition schedule :: "int move list \<Rightarrow> (int, int) fc" where
  "schedule ms = the (do_moves example_callbacks ms example_fc)"

lemma schedule_run:
  "do_moves example_callbacks ms example_fc \<noteq> None \<Longrightarrow> rtranclp (fc_step example_callbacks) example_fc (schedule ms)"
  by (auto simp: schedule_def intro: do_moves_run)

text \<open>Thread 1 combines its own request while thread 0 tries to read.\<close>

definition batch_moves :: "int move list" where
  "batch_moves = Request 1 5 # replicate 17 (Run 1) @ [Request 0 0, Run 0, Run 0]"

lemma batch_schedule:
  "rtranclp (fc_step example_callbacks) example_fc (schedule batch_moves)"
  "thread_pc (schedule batch_moves) 1 = Process [1] 0"
  "thread_pc (schedule batch_moves) 0 = ReadUnmark"
  by (rule schedule_run, code_simp) code_simp+

theorem writer_excludes_readers_and_writers_witness:
  "thread_pc (schedule batch_moves) 0 \<noteq> Reading"
  using writer_excludes_readers_and_writers [OF example_fc_start batch_schedule(1), of 1 0] batch_schedule(2)
  by (simp add: writes_application_def)

text \<open>The same batch at its end.\<close>

definition stop_moves :: "int move list" where
  "stop_moves = Request 1 5 # replicate 19 (Run 1)"

lemma stop_schedule:
  "rtranclp (fc_step example_callbacks) example_fc (schedule stop_moves)"
  "thread_pc (schedule stop_moves) 1 = StopBatch [1]"
  by (rule schedule_run, code_simp) code_simp

theorem single_log_producer_witness:
  "produces_log (schedule stop_moves) 1 \<and> \<not> lockIsFree (lock (schedule stop_moves))"
  using single_log_producer [OF example_fc_start stop_schedule(1), of 1 1] stop_schedule(2)
  by (auto simp: produces_log_def)

definition done_moves :: "int move list" where
  "done_moves = Request 1 5 # replicate 24 (Run 1)"

lemma done_schedule:
  "rtranclp (fc_step example_callbacks) example_fc (schedule done_moves)"
  "thread_pc (schedule done_moves) 1 = Idle" "requested (schedule done_moves) 1 = [5]" "app (schedule done_moves) = 15"
  by (rule schedule_run, code_simp) code_simp+

theorem requests_take_effect_once_witness:
  "served_by (schedule done_moves) 1 = [5] \<and> app (schedule done_moves) = 15"
  using requests_take_effect_once [OF example_fc_start done_schedule(1)] done_schedule(2-4) by auto

definition claim_moves :: "int move list" where
  "claim_moves = Request 0 3 # Run 0 # Request 1 5 # replicate 8 (Run 1)"

lemma claim_schedule:
  "rtranclp (fc_step example_callbacks) example_fc (schedule claim_moves)"
  "thread_pc (schedule claim_moves) 1 = Claim [0] 1"
  by (rule schedule_run, code_simp) code_simp

lemma collected_indices_fit_witness:
  "distinct [0, 1 :: nat] \<and> length [0 :: nat] < NUMBER_OF_THREADS"
  using collected_indices_fit [OF example_fc_start claim_schedule] by simp

definition scan_moves :: "int move list" where
  "scan_moves = Request 0 3 # Run 0 # Request 1 5 # replicate 5 (Run 1)"

lemma scan_schedule:
  "rtranclp (fc_step example_callbacks) example_fc (schedule scan_moves)"
  "thread_pc (schedule scan_moves) 1 = Scan [] 0"
  "list_all (\<lambda>r. \<not> reader_is_active r (lock (schedule scan_moves))) [0..<NUMBER_OF_THREADS]"
  by (rule schedule_run, code_simp) code_simp+


text \<open>Thread 0 reads and maps memory, thread 1 waits for it to drain.\<close>

definition deadlock_moves :: "int move list" where
  "deadlock_moves = [Request 0 0, Run 0, Run 0, Map 0, Request 1 5] @ replicate 12 (Run 1)"

lemma deadlock_schedule:
  "rtranclp (fc_step example_callbacks) example_fc (schedule deadlock_moves)"
  "thread_pc (schedule deadlock_moves) 0 = Reading" "thread_mmap (schedule deadlock_moves) 0 = MTest"
  "drains (thread_pc (schedule deadlock_moves) 1) 0"
  by (rule schedule_run, code_simp) code_simp+

theorem mapping_reader_deadlocks_witness:
  "\<not> lockIsFree (lock (schedule deadlock_moves))"
  using mapping_reader_deadlocks [OF example_fc_start deadlock_schedule(1) _ deadlock_schedule(2-4) rtranclp.rtrancl_refl]
  by (simp add: NUMBER_OF_THREADS_def)

end
