(* ===== verification/Client_Connection.thy ===== *)
theory Client_Connection
  imports Mangosteen_Prelude
begin

text \<open>
  The server side of the client connections in \<^verbatim>\<open>flat_combining/flat_combining.c\<close>: the event loop of a
  worker (\<open>start_event_loop\<close>, \<open>handle_event\<close>, \<open>handle_accept_events\<close>, \<open>handle_request_event\<close>), \<open>do_event\<close> with
  its reading and writing loops, \<open>process_command\<close>, \<open>prepare_client_response\<close> and the arena allocator of a
  connection. What the kernel does is an argument: the results of the \<open>accept\<close>, \<open>read\<close>, \<open>send\<close> and \<open>epoll_ctl\<close>
  calls one event makes, in order. The application, with the flat combining that runs it, is the
  record \<open>service\<close>. The response buffer is a copy of the bytes that \<open>getResponseInfo\<close> points to when it is
  called: the source keeps the pointer, so the model covers applications that leave those bytes alone until
  they are sent (the structure belongs to one connection, and the next request is loaded into it only after that).
\<close>

section \<open>Data\<close>

definition MAX_REQUEST_SIZE :: nat where "MAX_REQUEST_SIZE = 2048"
definition mangosteenAllocatorArenaSize :: int where "mangosteenAllocatorArenaSize = 2000"

datatype req_status = Reading | Writing | Actively_reading | Ended

record 'c service =
  allocateThreadLocalServiceRequestStruct :: 'c
  loadServiceRequest :: "'c \<Rightarrow> byte list \<Rightarrow> 'c"
  executeRequest :: "'c \<Rightarrow> 'c"
  getResponseInfo :: "'c \<Rightarrow> byte list \<times> int"

record 'c mangosteen_client =
  status :: req_status
  req :: "byte list"
  bytes_read :: nat
  left :: nat
  response_len :: nat
  responce_buffer :: "byte list option"
  applicationSpecificStruct :: "'c option"
  allocator_offset :: int

text \<open>A \<open>read\<close> finds \<open>bs\<close> queued and takes what fits, finds nothing, fails, or finds the end.\<close>

datatype read_result = Queued "byte list" | Read_again | Read_error | Read_eof

text \<open>A \<open>send\<close> takes at most \<open>n\<close> bytes, would block, or fails.\<close>

datatype send_result = Sent nat | Send_again | Send_error

section \<open>The arena of a connection\<close>

definition mangosteenResetMemoryAllocator :: "'c mangosteen_client \<Rightarrow> 'c mangosteen_client" where
  "mangosteenResetMemoryAllocator cl = cl\<lparr>allocator_offset := 0\<rparr>"

text \<open>Returns the offset of the allocated block in the arena.\<close>

definition mangosteenAllocateMemory :: "int \<Rightarrow> 'c mangosteen_client \<Rightarrow> (int \<times> 'c mangosteen_client) result" where
  "mangosteenAllocateMemory sz cl =
     (let off = allocator_offset cl + sz
      in if off < mangosteenAllocatorArenaSize then Inr (allocator_offset cl, cl\<lparr>allocator_offset := off\<rparr>)
         else Inl AssertFail)"

section \<open>Events\<close>

definition prepare_client_response :: "'c service \<Rightarrow> 'c mangosteen_client \<Rightarrow> 'c mangosteen_client result" where
  "prepare_client_response sv cl =
     (case applicationSpecificStruct cl of
        None \<Rightarrow> Inl AssertFail
      | Some c \<Rightarrow>
          (let (response, size) = getResponseInfo sv c;
               n = unat (word_of_int size :: u64)
           in if n > 0 then Inr (cl\<lparr>response_len := n, left := n, responce_buffer := Some response\<rparr>)
              else Inl AssertFail))"

definition process_command :: "'c service \<Rightarrow> 'c mangosteen_client \<Rightarrow> 'c mangosteen_client result" where
  "process_command sv cl =
     (let c = (case applicationSpecificStruct cl of
                 None \<Rightarrow> allocateThreadLocalServiceRequestStruct sv
               | Some c \<Rightarrow> c)
      in prepare_client_response sv
           (cl\<lparr>applicationSpecificStruct := Some (executeRequest sv (loadServiceRequest sv c (req cl)))\<rparr>))"

text \<open>The bytes a \<open>read\<close> puts at \<open>req + bytes_read\<close>.\<close>

definition receive :: "byte list \<Rightarrow> 'c mangosteen_client \<Rightarrow> 'c mangosteen_client" where
  "receive bs cl =
     cl\<lparr>req := take (bytes_read cl) (req cl) @ bs @ drop (bytes_read cl + length bs) (req cl),
        bytes_read := bytes_read cl + length bs\<rparr>"

definition ends_request :: "'c mangosteen_client \<Rightarrow> bool" where
  "ends_request cl \<longleftrightarrow>
     bytes_read cl > 2 \<and> req cl ! (bytes_read cl - 2) = 13 \<and> req cl ! (bytes_read cl - 1) = 10"

text \<open>
  The reading loop: the client and \<open>Some finished\<close>, or \<open>None\<close> where the function returns from
  inside the loop. With no results left the loop is still reading.
\<close>

function read_loop :: "'c mangosteen_client \<Rightarrow> read_result list \<Rightarrow> ('c mangosteen_client \<times> bool option) result" where
  "read_loop cl rs =
     (if \<not> bytes_read cl < MAX_REQUEST_SIZE then Inl AssertFail
      else case rs of
        [] \<Rightarrow> Inl Spinning
      | Read_eof # _ \<Rightarrow> Inr (cl\<lparr>status := Ended\<rparr>, None)
      | Read_again # _ \<Rightarrow> Inr (cl, Some (ends_request cl))
      | Read_error # _ \<Rightarrow> Inr (cl, Some False)
      | Queued bs # rs' \<Rightarrow>
          if bs = [] then Inr (cl\<lparr>status := Ended\<rparr>, None)
          else
            (let room = MAX_REQUEST_SIZE - bytes_read cl;
                 cl' = receive (take room bs) cl
             in if bytes_read cl' > MAX_REQUEST_SIZE then Inr (cl'\<lparr>status := Ended\<rparr>, None)
                else read_loop cl' (if room < length bs then Queued (drop room bs) # rs' else rs')))"
  by pat_completeness auto

definition read_size :: "read_result \<Rightarrow> nat" where
  "read_size r = (case r of Queued bs \<Rightarrow> Suc (length bs) | _ \<Rightarrow> 1)"

termination read_loop
  by (relation "measure (\<lambda>(cl, rs). sum_list (map read_size rs))") (auto simp: read_size_def)

text \<open>The writing loop: the bytes sent, the client's status and what is left.\<close>

fun send_loop :: "byte list \<Rightarrow> nat \<Rightarrow> nat \<Rightarrow> send_result list \<Rightarrow> (byte list \<times> req_status \<times> nat) result" where
  "send_loop buf n lft rs =
     (if lft = 0 then Inr ([], Reading, 0)
      else case rs of
        [] \<Rightarrow> Inl Spinning
      | Send_again # _ \<Rightarrow> Inr ([], Writing, lft)
      | Send_error # _ \<Rightarrow> Inr ([], Ended, lft)
      | Sent k # rs' \<Rightarrow>
          if k = 0 then Inr ([], Ended, lft)
          else if n - lft + min k lft > length buf then Inl OutOfBounds
          else and_then (send_loop buf n (lft - min k lft) rs') (\<lambda>(out, st, lft').
                 Inr (take (min k lft) (drop (n - lft) buf) @ out, st, lft')))"

declare read_loop.simps [simp del] send_loop.simps [simp del]

text \<open>
  Returns the client and the bytes written to the connection. A \<open>send\<close> from a null response buffer
  fails with \<open>EFAULT\<close>.
\<close>

definition do_event ::
    "'c service \<Rightarrow> read_result list \<Rightarrow> send_result list \<Rightarrow> 'c mangosteen_client \<Rightarrow> ('c mangosteen_client \<times> byte list) result" where
  "do_event sv reads sends cl =
     (case status cl of
        Reading \<Rightarrow>
          and_then (read_loop cl reads) (\<lambda>(cl', fin).
            if fin = Some True
            then and_then (process_command sv cl') (\<lambda>cl''. Inr (cl''\<lparr>bytes_read := 0, status := Writing\<rparr>, []))
            else Inr (cl', []))
      | Writing \<Rightarrow>
          (case responce_buffer cl of
             None \<Rightarrow> Inr (if left cl = 0 then cl\<lparr>response_len := 0, status := Reading\<rparr> else cl\<lparr>status := Ended\<rparr>, [])
           | Some buf \<Rightarrow>
               and_then (send_loop buf (response_len cl) (left cl) sends) (\<lambda>(out, st, lft).
                 Inr (if st = Reading then cl\<lparr>response_len := 0, responce_buffer := None, status := Reading\<rparr>
                      else if st = Writing then cl\<lparr>left := lft\<rparr>
                      else cl\<lparr>status := Ended\<rparr>, out)))
      | _ \<Rightarrow> Inl ExitFailure)"

text \<open>
  The events the kernel reports for a connection, and what a connection waits for afterwards:
  \<open>Disarmed\<close> when \<open>epoll_ctl\<close> fails, \<open>Closed\<close> when only its descriptor is closed, \<open>Released\<close> when it is
  freed as well.
\<close>

record epoll_events =
  ev_err :: bool
  ev_in :: bool
  ev_out :: bool

datatype armed = Await_in | Await_out | Disarmed | Closed | Released

definition handle_request_event ::
    "'c service \<Rightarrow> bool \<Rightarrow> epoll_events \<Rightarrow> read_result list \<Rightarrow> send_result list \<Rightarrow> 'c mangosteen_client \<Rightarrow>
     ('c mangosteen_client \<times> byte list \<times> armed) result" where
  "handle_request_event sv ctl_ok ev reads sends cl =
     (if ev_err ev then Inr (cl, [], Closed)
      else if \<not> ev_in ev \<and> \<not> ev_out ev then Inl AssertFail
      else if status cl = Reading \<and> \<not> ev_in ev then Inl AssertFail
      else if status cl = Writing \<and> \<not> ev_out ev then Inl AssertFail
      else and_then (do_event sv reads sends (mangosteenResetMemoryAllocator cl)) (\<lambda>(cl', out).
             case status cl' of
               Reading \<Rightarrow> Inr (cl', out, if ctl_ok then Await_in else Disarmed)
             | Writing \<Rightarrow> Inr (cl', out, if ctl_ok then Await_out else Disarmed)
             | Ended \<Rightarrow> Inr (cl', out, Released)
             | Actively_reading \<Rightarrow> Inl ExitFailure))"

text \<open>A connection as \<open>handle_accept_events\<close> sets it up; \<open>buf\<close> is what the request buffer held.\<close>

definition accepted_client :: "byte list \<Rightarrow> 'c mangosteen_client" where
  "accepted_client buf =
     mangosteenResetMemoryAllocator
       \<lparr>status = Reading, req = buf, bytes_read = 0, left = 0, response_len = 0, responce_buffer = None,
        applicationSpecificStruct = None, allocator_offset = 0\<rparr>"

text \<open>
  One worker's connections: the clients by address, what each waits for, and the number of
  connections it has accepted. An \<open>accept\<close> gives a connection, with the results of \<open>malloc\<close> for the
  client and its request buffer and of \<open>epoll_ctl\<close>, or ends the loop.
\<close>

record 'c worker =
  clients :: "addr \<Rightarrow> 'c mangosteen_client option"
  interest :: "addr \<Rightarrow> armed"
  client_connections :: nat

datatype accept_result = Accepted "addr option" "byte list option" bool | Accept_again | Accept_error

fun handle_accept_events :: "accept_result list \<Rightarrow> 'c worker \<Rightarrow> 'c worker result" where
  "handle_accept_events [] w = Inl Spinning"
| "handle_accept_events (Accept_again # _) w = Inr w"
| "handle_accept_events (Accept_error # _) w = Inr w"
| "handle_accept_events (Accepted client req_buf ctl_ok # rs) w =
     (case (client, req_buf) of
        (Some p, Some buf) \<Rightarrow>
          (let w1 = w\<lparr>clients := (clients w)(p \<mapsto> accepted_client buf), interest := (interest w)(p := Disarmed)\<rparr>
           in if ctl_ok
              then handle_accept_events rs
                     (w1\<lparr>interest := (interest w1)(p := Await_in), client_connections := client_connections w1 + 1\<rparr>)
              else handle_accept_events rs w1)
      | _ \<Rightarrow> Inl ExitFailure)"

text \<open>
  One event of \<open>epoll_wait\<close> with what the calls of its handler return. The event carries the client's
  address in a union with the descriptor: \<open>data.fd\<close> is the low half of the address.
\<close>

record event_io =
  io_data :: addr
  io_events :: epoll_events
  io_accepts :: "accept_result list"
  io_reads :: "read_result list"
  io_sends :: "send_result list"
  io_ctl_ok :: bool

definition handle_event :: "'c service \<Rightarrow> 32 word \<Rightarrow> event_io \<Rightarrow> 'c worker \<Rightarrow> 'c worker result" where
  "handle_event sv listenfd io w =
     (if ucast (io_data io) = listenfd then handle_accept_events (io_accepts io) w
      else case clients w (io_data io) of
             None \<Rightarrow> Inl SegFault
           | Some cl \<Rightarrow>
               and_then (handle_request_event sv (io_ctl_ok io) (io_events io) (io_reads io) (io_sends io) cl)
                 (\<lambda>(cl', out, a). Inr
                   (w\<lparr>clients := (clients w)(io_data io := if a = Released then None else Some cl'),
                      interest := (interest w)(io_data io := a)\<rparr>)))"

text \<open>The turns of the event loop: the events each \<open>epoll_wait\<close> returns, none where it fails.\<close>

fun handle_events :: "'c service \<Rightarrow> 32 word \<Rightarrow> event_io list \<Rightarrow> 'c worker \<Rightarrow> 'c worker result" where
  "handle_events sv listenfd [] w = Inr w"
| "handle_events sv listenfd (io # ios) w = and_then (handle_event sv listenfd io w) (handle_events sv listenfd ios)"

fun start_event_loop :: "'c service \<Rightarrow> 32 word \<Rightarrow> event_io list list \<Rightarrow> 'c worker \<Rightarrow> 'c worker result" where
  "start_event_loop sv listenfd [] w = Inr w"
| "start_event_loop sv listenfd (ios # rounds) w =
     and_then (handle_events sv listenfd ios w) (start_event_loop sv listenfd rounds)"

section \<open>Requests\<close>

definition received :: "'c mangosteen_client \<Rightarrow> byte list" where
  "received cl = take (bytes_read cl) (req cl)"

definition buffer_ok :: "'c mangosteen_client \<Rightarrow> bool" where
  "buffer_ok cl \<longleftrightarrow> length (req cl) = MAX_REQUEST_SIZE \<and> bytes_read cl \<le> MAX_REQUEST_SIZE"

lemma receive_ok:
  assumes "buffer_ok cl" "bytes_read cl + length bs \<le> MAX_REQUEST_SIZE"
  shows "buffer_ok (receive bs cl)" "received (receive bs cl) = received cl @ bs"
    "bytes_read (receive bs cl) = bytes_read cl + length bs" "status (receive bs cl) = status cl"
    "applicationSpecificStruct (receive bs cl) = applicationSpecificStruct cl"
  using assms by (auto simp: buffer_ok_def receive_def received_def)

text \<open>Chunks that fit are appended.\<close>

lemma read_loop_chunks:
  "buffer_ok cl \<Longrightarrow> bytes_read cl + length (concat chunks) < MAX_REQUEST_SIZE \<Longrightarrow> [] \<notin> set chunks \<Longrightarrow>
   \<exists>cl'. read_loop cl (map Queued chunks @ rest) = read_loop cl' rest
     \<and> buffer_ok cl' \<and> received cl' = received cl @ concat chunks
     \<and> bytes_read cl' = bytes_read cl + length (concat chunks) \<and> status cl' = status cl
     \<and> applicationSpecificStruct cl' = applicationSpecificStruct cl"
proof (induction chunks arbitrary: cl)
  case Nil
  then show ?case by auto
next
  case (Cons bs chunks)
  let ?c = "receive bs cl"
  have fit: "bytes_read cl + length bs \<le> MAX_REQUEST_SIZE" "bytes_read cl < MAX_REQUEST_SIZE" "bs \<noteq> []"
    using Cons.prems by auto
  then have room: "\<not> MAX_REQUEST_SIZE - bytes_read cl < length bs" by linarith
  note r = receive_ok [OF Cons.prems(1) fit(1)]
  have "read_loop cl (map Queued (bs # chunks) @ rest) = read_loop ?c (map Queued chunks @ rest)"
    using fit r(3) room by (subst read_loop.simps) (simp add: Let_def)
  then show ?case using Cons.IH [OF r(1)] Cons.prems r by auto
qed

lemma read_loop_overflows:
  "buffer_ok cl \<Longrightarrow> bytes_read cl + length (concat chunks) \<ge> MAX_REQUEST_SIZE \<Longrightarrow> [] \<notin> set chunks \<Longrightarrow>
   read_loop cl (map Queued chunks @ rest) = Inl AssertFail"
proof (induction chunks arbitrary: cl)
  case Nil
  then show ?case by (simp add: read_loop.simps)
next
  case (Cons bs chunks)
  show ?case
  proof (cases "bytes_read cl + length bs \<ge> MAX_REQUEST_SIZE")
    case True
    let ?room = "MAX_REQUEST_SIZE - bytes_read cl"
    have "bytes_read cl + length (take ?room bs) = MAX_REQUEST_SIZE"
      using True Cons.prems(1) by (auto simp: buffer_ok_def min_def)
    then have "bytes_read (receive (take ?room bs) cl) = MAX_REQUEST_SIZE" by (simp add: receive_def)
    moreover have "bs \<noteq> []" using Cons.prems(3) by auto
    ultimately show ?thesis
      by (subst read_loop.simps) (simp add: Let_def read_loop.simps [of "receive (take ?room bs) cl"])
  next
    case False
    then have fit: "bytes_read cl + length bs \<le> MAX_REQUEST_SIZE" by simp
    note r = receive_ok [OF Cons.prems(1) fit]
    have "bs \<noteq> []" "\<not> MAX_REQUEST_SIZE - bytes_read cl < length bs" using Cons.prems(3) False by auto
    then have "read_loop cl (map Queued (bs # chunks) @ rest) = read_loop (receive bs cl) (map Queued chunks @ rest)"
      using False r(3) by (subst read_loop.simps) (simp add: Let_def)
    then show ?thesis using Cons.IH [OF r(1)] Cons.prems r(3) by simp
  qed
qed

lemma ends_request_iff:
  assumes "buffer_ok cl"
  shows "ends_request cl \<longleftrightarrow> (\<exists>body. body \<noteq> [] \<and> received cl = body @ [13, 10])"
proof -
  let ?n = "bytes_read cl"
  have l: "length (received cl) = ?n" using assms by (simp add: buffer_ok_def received_def)
  have nth: "i < ?n \<Longrightarrow> received cl ! i = req cl ! i" for i by (simp add: received_def)
  show ?thesis
  proof
    assume e: "ends_request cl"
    then have n: "?n > 2" by (simp add: ends_request_def)
    have "received cl = take (?n - 2) (received cl) @ [13, 10]"
    proof (rule nth_equalityI)
      show "received cl ! i = (take (?n - 2) (received cl) @ [13, 10]) ! i" if "i < length (received cl)" for i
      proof -
        have "i < ?n" using that l by simp
        then consider "i < ?n - 2" | "i = ?n - 2" | "i = ?n - 1" using n by linarith
        then show ?thesis using e n l nth by cases (auto simp: ends_request_def nth_append)
      qed
    qed (use n l in simp)
    moreover have "take (?n - 2) (received cl) \<noteq> []" using n l by auto
    ultimately show "\<exists>body. body \<noteq> [] \<and> received cl = body @ [13, 10]" by blast
  next
    assume "\<exists>body. body \<noteq> [] \<and> received cl = body @ [13, 10]"
    then obtain body where b: "body \<noteq> []" "received cl = body @ [13, 10]" by blast
    then have n: "?n = length body + 2" using l by simp
    then show "ends_request cl"
      using nth [of "?n - 2"] nth [of "?n - 1"] b by (auto simp: ends_request_def nth_append)
  qed
qed

text \<open>What one event with data does.\<close>

lemma assemble_request:
  assumes "buffer_ok cl" "status cl = Reading" "[] \<notin> set chunks"
    and "bytes_read cl + length (concat chunks) < MAX_REQUEST_SIZE"
    and "\<forall>c. unat (word_of_int (snd (getResponseInfo sv c)) :: u64) > 0"
  shows "if \<exists>body. body \<noteq> [] \<and> received cl @ concat chunks = body @ [13, 10]
    then \<exists>cl' buf c.
      do_event sv (map Queued chunks @ Read_again # rest) sends cl = Inr (cl', [])
      \<and> take (bytes_read cl + length (concat chunks)) buf = received cl @ concat chunks
      \<and> c = executeRequest sv (loadServiceRequest sv
              (case applicationSpecificStruct cl of None \<Rightarrow> allocateThreadLocalServiceRequestStruct sv | Some c \<Rightarrow> c) buf)
      \<and> applicationSpecificStruct cl' = Some c \<and> responce_buffer cl' = Some (fst (getResponseInfo sv c))
      \<and> left cl' = response_len cl' \<and> 0 < left cl' \<and> bytes_read cl' = 0 \<and> status cl' = Writing
      \<and> response_len cl' = unat (word_of_int (snd (getResponseInfo sv c)) :: u64)
    else \<exists>cl'. do_event sv (map Queued chunks @ Read_again # rest) sends cl = Inr (cl', [])
      \<and> received cl' = received cl @ concat chunks \<and> status cl' = Reading \<and> buffer_ok cl'
      \<and> applicationSpecificStruct cl' = applicationSpecificStruct cl"
proof -
  obtain c1 where c1: "read_loop cl (map Queued chunks @ Read_again # rest) = Inr (c1, Some (ends_request c1))"
      "buffer_ok c1" "received c1 = received cl @ concat chunks"
      "bytes_read c1 = bytes_read cl + length (concat chunks)" "status c1 = Reading"
      "applicationSpecificStruct c1 = applicationSpecificStruct cl"
    using read_loop_chunks [OF assms(1,4,3), of "Read_again # rest"] assms(2,4) by (auto simp: read_loop.simps)
  note e = ends_request_iff [OF c1(2)]
  show ?thesis
  proof (cases "ends_request c1")
    case False
    then have "do_event sv (map Queued chunks @ Read_again # rest) sends cl = Inr (c1, [])"
      using c1(1) assms(2) by (simp add: do_event_def)
    with False show ?thesis using c1 e by auto
  next
    case True
    let ?c0 = "case applicationSpecificStruct cl of None \<Rightarrow> allocateThreadLocalServiceRequestStruct sv | Some c \<Rightarrow> c"
    let ?c = "executeRequest sv (loadServiceRequest sv ?c0 (req c1))"
    let ?n = "unat (word_of_int (snd (getResponseInfo sv ?c)) :: u64)"
    have n: "?n > 0" using assms(5) by blast
    define c2 where "c2 = c1\<lparr>applicationSpecificStruct := Some ?c, response_len := ?n, left := ?n,
        responce_buffer := Some (fst (getResponseInfo sv ?c)), bytes_read := 0, status := Writing\<rparr>"
    have "do_event sv (map Queued chunks @ Read_again # rest) sends cl = Inr (c2, [])"
      using c1(1,6) assms(2) True n
      by (simp add: do_event_def process_command_def prepare_client_response_def Let_def c2_def split_beta)
    moreover have "take (bytes_read cl + length (concat chunks)) (req c1) = received cl @ concat chunks"
      using c1(3,4) by (simp add: received_def)
    moreover have f: "applicationSpecificStruct c2 = Some ?c" "responce_buffer c2 = Some (fst (getResponseInfo sv ?c))"
        "left c2 = response_len c2" "left c2 = ?n" "bytes_read c2 = 0" "status c2 = Writing" "response_len c2 = ?n"
      by (simp_all add: c2_def)
    moreover have "0 < left c2" using n unfolding f(4) .
    ultimately show ?thesis
      using True e c1(3) unfolding if_P [OF e [unfolded c1(3), THEN iffD1, OF True]]
      by (intro exI [of _ c2] exI [of _ "req c1"] exI [of _ ?c] conjI) (assumption | rule refl)+
  qed
qed

text \<open>
  C17: However the bytes of a request are split, an event that receives less than
  \<open>MAX_REQUEST_SIZE\<close> bytes in all appends them to what the connection has received. If that now
  ends with CR LF after at least one byte, the application is run on a buffer that starts with exactly
  these bytes, and the client waits for its response, which starts unsent; otherwise the client goes
  on reading.
\<close>

theorem request_is_assembled:
  assumes "buffer_ok cl" "status cl = Reading" "[] \<notin> set chunks"
    and "bytes_read cl + length (concat chunks) < MAX_REQUEST_SIZE"
    and "\<forall>c. unat (word_of_int (snd (getResponseInfo sv c)) :: u64) > 0"
  shows "if \<exists>body. body \<noteq> [] \<and> received cl @ concat chunks = body @ [13, 10]
    then \<exists>cl' buf c.
      do_event sv (map Queued chunks @ Read_again # rest) sends cl = Inr (cl', [])
      \<and> take (bytes_read cl + length (concat chunks)) buf = received cl @ concat chunks
      \<and> c = executeRequest sv (loadServiceRequest sv
              (case applicationSpecificStruct cl of None \<Rightarrow> allocateThreadLocalServiceRequestStruct sv | Some c \<Rightarrow> c) buf)
      \<and> applicationSpecificStruct cl' = Some c \<and> responce_buffer cl' = Some (fst (getResponseInfo sv c))
      \<and> left cl' = response_len cl' \<and> 0 < left cl' \<and> bytes_read cl' = 0 \<and> status cl' = Writing
    else \<exists>cl'. do_event sv (map Queued chunks @ Read_again # rest) sends cl = Inr (cl', [])
      \<and> received cl' = received cl @ concat chunks \<and> status cl' = Reading \<and> buffer_ok cl'"
  using assemble_request [OF assms, of rest sends] by (simp split: if_splits) blast+

text \<open>
  C37: A client that sends \<open>MAX_REQUEST_SIZE\<close> bytes without a pause ends the server: the buffer
  is full, which the check for a request that is too big does not catch, and the assertion at the
  next turn of the loop fails.
\<close>

theorem oversized_request_aborts_server:
  assumes "buffer_ok cl" "status cl = Reading" "[] \<notin> set chunks"
    and "bytes_read cl + length (concat chunks) \<ge> MAX_REQUEST_SIZE"
  shows "do_event sv (map Queued chunks @ rest) sends cl = Inl AssertFail"
  using read_loop_overflows [OF assms(1,4,3)] assms(2) by (simp add: do_event_def)

section \<open>Responses\<close>

text \<open>Successive events of a connection that is writing.\<close>

fun send_events :: "'c service \<Rightarrow> send_result list list \<Rightarrow> 'c mangosteen_client \<Rightarrow> ('c mangosteen_client \<times> byte list) result" where
  "send_events sv [] cl = Inr (cl, [])"
| "send_events sv (rs # rss) cl =
     (if status cl = Writing
      then and_then (do_event sv [] rs cl) (\<lambda>(cl', out).
             and_then (send_events sv rss cl') (\<lambda>(cl'', out'). Inr (cl'', out @ out')))
      else Inr (cl, []))"

lemma send_loop_ok:
  "lft \<le> n \<Longrightarrow> n \<le> length buf \<Longrightarrow> Send_again \<in> set rs \<or> Send_error \<in> set rs \<Longrightarrow>
   \<exists>out st l. send_loop buf n lft rs = Inr (out, st, l) \<and> l \<le> lft
     \<and> out = take (lft - l) (drop (n - lft) buf)
     \<and> (st = Reading \<longleftrightarrow> l = 0) \<and> st \<noteq> Actively_reading"
proof (induction rs arbitrary: lft)
  case Nil
  then show ?case by simp
next
  case (Cons r rs)
  show ?case
  proof (cases "lft = 0")
    case True
    then show ?thesis by (simp add: send_loop.simps)
  next
    case False
    show ?thesis
    proof (cases r)
      case (Sent k)
      show ?thesis
      proof (cases "k = 0")
        case True
        with Sent False show ?thesis by (simp add: send_loop.simps)
      next
        case k: False
        let ?m = "min k lft" and ?todo = "drop (n - lft) buf"
        have m: "lft - ?m \<le> n" "n \<le> length buf" "Send_again \<in> set rs \<or> Send_error \<in> set rs"
          using Cons.prems Sent by auto
        obtain out st l where IH: "send_loop buf n (lft - ?m) rs = Inr (out, st, l)" "l \<le> lft - ?m"
            "out = take (lft - ?m - l) (drop (n - (lft - ?m)) buf)" "st = Reading \<longleftrightarrow> l = 0"
            "st \<noteq> Actively_reading"
          using Cons.IH [OF m] by blast
        have "n - (lft - ?m) = (n - lft) + ?m" using Cons.prems(1) by simp
        then have "out = take (lft - ?m - l) (drop ?m ?todo)"
          using IH(3) by (simp add: drop_drop add.commute)
        then have "take ?m ?todo @ out = take (?m + (lft - ?m - l)) ?todo" by (simp add: take_add)
        moreover have "?m + (lft - ?m - l) = lft - l" using IH(2) by simp
        ultimately have "take ?m ?todo @ out = take (lft - l) ?todo" by simp
        moreover have "send_loop buf n lft (r # rs) = Inr (take ?m ?todo @ out, st, l)"
          using Sent k False IH(1) Cons.prems(1,2) by (subst send_loop.simps) (auto simp: min_def)
        ultimately show ?thesis using IH(2,4,5) by auto
      qed
    qed (use False in \<open>simp_all add: send_loop.simps\<close>)
  qed
qed

text \<open>What is left of a response.\<close>

definition unsent :: "'c mangosteen_client \<Rightarrow> byte list" where
  "unsent cl = take (left cl) (drop (response_len cl - left cl) (case responce_buffer cl of None \<Rightarrow> [] | Some buf \<Rightarrow> buf))"

text \<open>The bytes one event's \<open>send\<close> calls are willing to take.\<close>

fun takes :: "send_result list \<Rightarrow> nat" where
  "takes (Sent k # rs) = k + takes rs"
| "takes _ = 0"

definition no_failure :: "send_result list \<Rightarrow> bool" where
  "no_failure rs \<longleftrightarrow> Send_error \<notin> set rs \<and> Sent 0 \<notin> set rs"

lemma send_loop_takes:
  assumes "no_failure rs" "lft \<noteq> 0" "send_loop buf n lft rs = Inr (out, st, l)"
  shows "st \<noteq> Ended \<and> l = lft - takes rs"
  using assms
proof (induction rs arbitrary: lft out)
  case Nil
  then show ?case by (simp add: send_loop.simps)
next
  case (Cons r rs)
  have nf: "no_failure rs" using Cons.prems(1) by (simp add: no_failure_def)
  show ?case
  proof (cases r)
    case (Sent k)
    then have k: "k \<noteq> 0" using Cons.prems(1) by (auto simp: no_failure_def)
    with Sent obtain out' where r: "send_loop buf n (lft - min k lft) rs = Inr (out', st, l)"
      using Cons.prems(2,3) by (subst (asm) send_loop.simps) (auto simp: and_then_Inr split: if_splits)
    show ?thesis
    proof (cases "lft \<le> k")
      case True
      then show ?thesis using r Sent by (simp add: send_loop.simps)
    next
      case False
      then show ?thesis using Cons.IH [OF nf _ r] Sent by (simp add: min_def)
    qed
  qed (use Cons.prems in \<open>auto simp: send_loop.simps no_failure_def\<close>)
qed

text \<open>One event of a connection that writes.\<close>

lemma write_event:
  assumes "status cl = Writing" "responce_buffer cl = Some buf" "response_len cl \<le> length buf"
    and "left cl \<le> response_len cl" "0 < left cl" "Send_again \<in> set rs \<or> Send_error \<in> set rs"
  obtains cl' out where "do_event sv [] rs cl = Inr (cl', out)"
    and "(\<exists>l\<le>left cl. 0 < l \<and> cl' = cl\<lparr>left := l\<rparr> \<and> unsent cl = out @ unsent cl' \<and> (no_failure rs \<longrightarrow> l = left cl - takes rs))
      \<or> cl' = cl\<lparr>response_len := 0, responce_buffer := None, status := Reading\<rparr> \<and> out = unsent cl
      \<or> status cl' = Ended \<and> \<not> no_failure rs \<and> (\<exists>rest. rest \<noteq> [] \<and> unsent cl = out @ rest)"
proof -
  let ?n = "response_len cl"
  obtain out st l where o: "send_loop buf ?n (left cl) rs = Inr (out, st, l)" "l \<le> left cl"
      "out = take (left cl - l) (drop (?n - left cl) buf)" "st = Reading \<longleftrightarrow> l = 0" "st \<noteq> Actively_reading"
    using send_loop_ok [OF assms(4,3), of rs] assms(6) by auto
  have "?n - l = (left cl - l) + (?n - left cl)" using o(2) assms(4) by simp
  then have "take l (drop (?n - l) buf) = take l (drop (left cl - l) (drop (?n - left cl) buf))" by simp
  moreover have "left cl = (left cl - l) + l" using o(2) by simp
  moreover have "unsent cl = take (left cl) (drop (?n - left cl) buf)" using assms(2) by (simp add: unsent_def)
  ultimately have split: "unsent cl = out @ take l (drop (?n - l) buf)"
    unfolding o(3) by (metis take_add)
  let ?c = "if st = Reading then cl\<lparr>response_len := 0, responce_buffer := None, status := Reading\<rparr>
      else if st = Writing then cl\<lparr>left := l\<rparr> else cl\<lparr>status := Ended\<rparr>"
  have "do_event sv [] rs cl = Inr (?c, out)" using assms(1,2) o(1) by (simp add: do_event_def)
  moreover have "unsent (cl\<lparr>left := l\<rparr>) = take l (drop (?n - l) buf)" using assms(2) by (simp add: unsent_def)
  moreover have "take l (drop (?n - l) buf) \<noteq> []" if "l \<noteq> 0" using that o(2) assms(3,4) by simp
  moreover have "no_failure rs \<Longrightarrow> st \<noteq> Ended \<and> l = left cl - takes rs" using send_loop_takes [OF _ _ o(1)] assms(5) by simp
  ultimately show ?thesis using that [of ?c out] split o(2,4,5) assms(5) by (cases st) auto
qed

lemma send_events_in_order:
  assumes "status cl = Writing" "responce_buffer cl = Some buf" "response_len cl \<le> length buf"
    and "left cl \<le> response_len cl" "0 < left cl" "\<forall>rs\<in>set rss. Send_again \<in> set rs \<or> Send_error \<in> set rs"
  shows "\<exists>cl' out. send_events sv rss cl = Inr (cl', out)
    \<and> (status cl' = Reading \<longleftrightarrow> out = unsent cl)
    \<and> (status cl' = Reading \<longrightarrow> responce_buffer cl' = None)
    \<and> (status cl' = Writing \<longrightarrow> unsent cl = out @ unsent cl' \<and> responce_buffer cl' = Some buf)
    \<and> (status cl' = Ended \<longrightarrow> (\<exists>rest. unsent cl = out @ rest) \<and> (\<exists>rs\<in>set rss. \<not> no_failure rs))
    \<and> status cl' \<in> {Reading, Writing, Ended}
    \<and> ((\<forall>rs\<in>set rss. no_failure rs) \<longrightarrow> left cl \<le> sum_list (map takes rss) \<longrightarrow> status cl' = Reading)"
  using assms
proof (induction rss arbitrary: cl)
  case Nil
  then have "unsent cl \<noteq> []" by (simp add: unsent_def)
  then show ?case using Nil.prems by auto
next
  case (Cons rs rss)
  then have "Send_again \<in> set rs \<or> Send_error \<in> set rs" by simp
  from write_event [OF Cons.prems(1-5) this, of sv] obtain c out where
    e: "do_event sv [] rs cl = Inr (c, out)" and
    c: "(\<exists>l\<le>left cl. 0 < l \<and> c = cl\<lparr>left := l\<rparr> \<and> unsent cl = out @ unsent c \<and> (no_failure rs \<longrightarrow> l = left cl - takes rs))
      \<or> c = cl\<lparr>response_len := 0, responce_buffer := None, status := Reading\<rparr> \<and> out = unsent cl
      \<or> status c = Ended \<and> \<not> no_failure rs \<and> (\<exists>rest. rest \<noteq> [] \<and> unsent cl = out @ rest)" .
  have stop: "send_events sv rss c = Inr (c, [])" if "status c \<noteq> Writing" using that by (cases rss) auto
  from c show ?case
  proof (elim disjE exE conjE)
    fix l
    assume w: "l \<le> left cl" "0 < l" "c = cl\<lparr>left := l\<rparr>" "unsent cl = out @ unsent c" "no_failure rs \<longrightarrow> l = left cl - takes rs"
    have p: "status c = Writing" "responce_buffer c = Some buf" "response_len c \<le> length buf" "left c \<le> response_len c" "0 < left c"
      using Cons.prems(1-4) w(1,2) by (simp_all add: w(3))
    have l: "left c = l" by (simp add: w(3))
    have "\<forall>rs\<in>set rss. Send_again \<in> set rs \<or> Send_error \<in> set rs" using Cons.prems(6) by simp
    from Cons.IH [OF p this] obtain c' out' where r: "send_events sv rss c = Inr (c', out')"
        "status c' = Reading \<longleftrightarrow> out' = unsent c" "status c' = Reading \<longrightarrow> responce_buffer c' = None"
        "status c' = Writing \<longrightarrow> unsent c = out' @ unsent c' \<and> responce_buffer c' = Some buf"
        "status c' = Ended \<longrightarrow> (\<exists>rest. unsent c = out' @ rest) \<and> (\<exists>rs\<in>set rss. \<not> no_failure rs)"
        "status c' \<in> {Reading, Writing, Ended}"
        "(\<forall>rs\<in>set rss. no_failure rs) \<longrightarrow> left c \<le> sum_list (map takes rss) \<longrightarrow> status c' = Reading"
      by blast
    have s: "send_events sv (rs # rss) cl = Inr (c', out @ out')" using Cons.prems(1) e r(1) by simp
    have "status c' = Reading" if "\<forall>x\<in>set (rs # rss). no_failure x" "left cl \<le> sum_list (map takes (rs # rss))"
      using that r(7) w(5) l by auto
    then show ?thesis using s r(2-6) unfolding w(4) by (intro exI [of _ c'] exI [of _ "out @ out'"]) auto
  qed (use Cons.prems(1) e stop in \<open>intro exI [of _ c] exI [of _ out]; auto\<close>)+
qed

text \<open>
  C18: A response reaches the connection in order, without gaps or repetitions, however the
  kernel splits it over \<open>send\<close> calls and events: what has been sent is always a prefix of what was
  left to send. The client goes back to reading, with the response buffer given up, exactly when all of
  it has been sent; while it is still writing, the rest is what is left; it ends only after a failed
  \<open>send\<close> or one that sent nothing, with bytes unsent. And when no \<open>send\<close> fails and the calls are willing to
  take as many bytes as are left, the whole response is sent and the client reads again.
\<close>

theorem response_is_sent_in_order:
  assumes "status cl = Writing" "responce_buffer cl = Some buf" "response_len cl \<le> length buf"
    and "left cl \<le> response_len cl" "0 < left cl" "\<forall>rs\<in>set rss. Send_again \<in> set rs \<or> Send_error \<in> set rs"
  shows "\<exists>cl' out. send_events sv rss cl = Inr (cl', out)
    \<and> (status cl' = Reading \<longleftrightarrow> out = unsent cl)
    \<and> (status cl' = Reading \<longrightarrow> responce_buffer cl' = None)
    \<and> (status cl' = Writing \<longrightarrow> unsent cl = out @ unsent cl' \<and> responce_buffer cl' = Some buf)
    \<and> (status cl' = Ended \<longrightarrow> (\<exists>rest. unsent cl = out @ rest) \<and> (\<exists>rs\<in>set rss. \<not> no_failure rs))
    \<and> status cl' \<in> {Reading, Writing, Ended}
    \<and> ((\<forall>rs\<in>set rss. no_failure rs) \<longrightarrow> left cl \<le> sum_list (map takes rss) \<longrightarrow> status cl' = Reading)"
  using send_events_in_order [OF assms] .

section \<open>Connections stay well-formed\<close>

text \<open>A connection between events, the responses an application may give, and a worker's connections.\<close>

definition conn_ok :: "'c mangosteen_client \<Rightarrow> bool" where
  "conn_ok cl \<longleftrightarrow> length (req cl) = MAX_REQUEST_SIZE \<and> bytes_read cl < MAX_REQUEST_SIZE \<and>
     (case status cl of
        Reading \<Rightarrow> True
      | Writing \<Rightarrow> applicationSpecificStruct cl \<noteq> None \<and> 0 < left cl \<and> left cl \<le> response_len cl \<and>
          (\<exists>buf. responce_buffer cl = Some buf \<and> response_len cl \<le> length buf)
      | Ended \<Rightarrow> True
      | Actively_reading \<Rightarrow> False)"

definition response_size :: "'c service \<Rightarrow> 'c \<Rightarrow> nat" where
  "response_size sv c = unat (word_of_int (snd (getResponseInfo sv c)) :: u64)"

definition service_ok :: "'c service \<Rightarrow> bool" where
  "service_ok sv \<longleftrightarrow> (\<forall>c. 0 < response_size sv c \<and> response_size sv c \<le> length (fst (getResponseInfo sv c)))"

definition worker_ok :: "'c worker \<Rightarrow> bool" where
  "worker_ok w \<longleftrightarrow> (\<forall>p cl. clients w p = Some cl \<longrightarrow> conn_ok cl
     \<and> (interest w p = Await_in \<longrightarrow> status cl = Reading) \<and> (interest w p = Await_out \<longrightarrow> status cl = Writing))"

text \<open>What one event finds: reads and sends that end, and less than a full buffer of data.\<close>

definition reads_ok :: "read_result list \<Rightarrow> 'c mangosteen_client \<Rightarrow> bool" where
  "reads_ok rs cl \<longleftrightarrow> (\<exists>chunks r rest. rs = map Queued chunks @ r # rest \<and> r \<in> {Read_again, Read_error, Read_eof}
     \<and> [] \<notin> set chunks \<and> bytes_read cl + length (concat chunks) < MAX_REQUEST_SIZE)"

definition sends_ok :: "send_result list \<Rightarrow> bool" where
  "sends_ok rs \<longleftrightarrow> Send_again \<in> set rs \<or> Send_error \<in> set rs"

fun accepts_ok :: "accept_result list \<Rightarrow> bool" where
  "accepts_ok [] \<longleftrightarrow> False"
| "accepts_ok (Accepted p buf _ # rs) \<longleftrightarrow> p \<noteq> None \<and> (\<exists>b. buf = Some b \<and> length b = MAX_REQUEST_SIZE) \<and> accepts_ok rs"
| "accepts_ok (_ # rs) \<longleftrightarrow> True"

definition io_ok :: "32 word \<Rightarrow> 'c worker \<Rightarrow> event_io \<Rightarrow> bool" where
  "io_ok listenfd w io \<longleftrightarrow>
     (if ucast (io_data io) = listenfd then accepts_ok (io_accepts io)
      else \<exists>cl. clients w (io_data io) = Some cl \<and> sends_ok (io_sends io)
        \<and> (status cl = Reading \<longrightarrow> reads_ok (io_reads io) cl)
        \<and> (interest w (io_data io) = Await_in \<and> ev_in (io_events io)
           \<or> interest w (io_data io) = Await_out \<and> ev_out (io_events io)))"

lemma process_command_ok:
  assumes "service_ok sv"
  shows "\<exists>c'. process_command sv cl = Inr c' \<and> req c' = req cl \<and> applicationSpecificStruct c' \<noteq> None
    \<and> 0 < left c' \<and> left c' = response_len c'
    \<and> (\<exists>buf. responce_buffer c' = Some buf \<and> response_len c' \<le> length buf)"
proof -
  let ?c = "executeRequest sv (loadServiceRequest sv (case applicationSpecificStruct cl of
      None \<Rightarrow> allocateThreadLocalServiceRequestStruct sv | Some c \<Rightarrow> c) (req cl))"
  have "0 < response_size sv ?c" "response_size sv ?c \<le> length (fst (getResponseInfo sv ?c))"
    using assms unfolding service_ok_def by blast+
  then show ?thesis
    by (simp add: process_command_def prepare_client_response_def Let_def split_beta response_size_def)
qed

lemma read_event_ok:
  assumes "conn_ok cl" "status cl = Reading" "reads_ok rs cl" "service_ok sv"
  shows "\<exists>cl'. do_event sv rs sends cl = Inr (cl', []) \<and> conn_ok cl' \<and> status cl' \<noteq> Actively_reading"
proof -
  obtain chunks r rest where c: "rs = map Queued chunks @ r # rest" "r \<in> {Read_again, Read_error, Read_eof}"
      "[] \<notin> set chunks" "bytes_read cl + length (concat chunks) < MAX_REQUEST_SIZE"
    using assms(3) by (auto simp: reads_ok_def)
  have "buffer_ok cl" using assms(1,2) by (simp add: conn_ok_def buffer_ok_def)
  then obtain c1 where c1: "read_loop cl rs = read_loop c1 (r # rest)" "buffer_ok c1"
      "bytes_read c1 < MAX_REQUEST_SIZE" "status c1 = Reading"
    using read_loop_chunks [OF _ c(4,3), of "r # rest"] c(1,4) assms(2) by metis
  have ok1: "conn_ok c1" "conn_ok (c1\<lparr>status := Ended\<rparr>)" using c1 by (simp_all add: conn_ok_def buffer_ok_def)
  consider "r = Read_eof" | "r = Read_error \<or> r = Read_again \<and> \<not> ends_request c1" | "r = Read_again" "ends_request c1"
    using c(2) by blast
  then show ?thesis
  proof cases
    case 1
    then have "do_event sv rs sends cl = Inr (c1\<lparr>status := Ended\<rparr>, [])"
      using c1 assms(2) by (simp add: do_event_def read_loop.simps)
    then show ?thesis using ok1(2) by simp
  next
    case 2
    then have "do_event sv rs sends cl = Inr (c1, [])"
      using c1 assms(2) by (auto simp: do_event_def read_loop.simps)
    then show ?thesis using ok1(1) c1(4) by simp
  next
    case 3
    then have r: "read_loop cl rs = Inr (c1, Some True)" using c1 by (simp add: read_loop.simps)
    obtain c2 where "process_command sv c1 = Inr c2" "req c2 = req c1" "applicationSpecificStruct c2 \<noteq> None"
        "0 < left c2" "left c2 = response_len c2"
        "\<exists>buf. responce_buffer c2 = Some buf \<and> response_len c2 \<le> length buf"
      using process_command_ok [OF assms(4)] by blast
    then show ?thesis
      using r c1(2) assms(2) by (simp add: do_event_def conn_ok_def buffer_ok_def MAX_REQUEST_SIZE_def)
  qed
qed

lemma write_event_ok:
  assumes "conn_ok cl" "status cl = Writing" "sends_ok sends"
  shows "\<exists>cl' out. do_event sv rs sends cl = Inr (cl', out) \<and> conn_ok cl' \<and> status cl' \<noteq> Actively_reading"
proof -
  obtain buf where b: "responce_buffer cl = Some buf" "response_len cl \<le> length buf" "left cl \<le> response_len cl"
      "applicationSpecificStruct cl \<noteq> None" "length (req cl) = MAX_REQUEST_SIZE" "bytes_read cl < MAX_REQUEST_SIZE"
    using assms(1,2) by (auto simp: conn_ok_def)
  obtain out st l where "send_loop buf (response_len cl) (left cl) sends = Inr (out, st, l)" "l \<le> left cl"
      "st = Reading \<longleftrightarrow> l = 0" "st \<noteq> Actively_reading"
    using send_loop_ok [OF b(3,2)] assms(3) unfolding sends_ok_def by blast
  then show ?thesis using b assms(2) by (cases st) (auto simp: do_event_def conn_ok_def)
qed

text \<open>An event that the connection waits for is handled without failing.\<close>

lemma request_event_ok:
  assumes "conn_ok cl" "service_ok sv" "sends_ok sends" "status cl = Reading \<longrightarrow> reads_ok rs cl"
    and "status cl = Reading \<and> ev_in ev \<or> status cl = Writing \<and> ev_out ev"
  shows "\<exists>cl' out a. handle_request_event sv ctl_ok ev rs sends cl = Inr (cl', out, a) \<and> conn_ok cl'
    \<and> (a = Await_in \<longrightarrow> status cl' = Reading) \<and> (a = Await_out \<longrightarrow> status cl' = Writing)"
proof (cases "ev_err ev")
  case True
  then show ?thesis using assms(1) by (simp add: handle_request_event_def)
next
  case False
  let ?cl = "mangosteenResetMemoryAllocator cl"
  have reset: "conn_ok ?cl" "status ?cl = status cl" "status cl = Reading \<longrightarrow> reads_ok rs ?cl"
    using assms(1,4)
    by (simp_all add: conn_ok_def reads_ok_def mangosteenResetMemoryAllocator_def split: req_status.splits)
  obtain cl' out where e: "do_event sv rs sends ?cl = Inr (cl', out)" "conn_ok cl'" "status cl' \<noteq> Actively_reading"
    using read_event_ok [OF reset(1) _ _ assms(2), of rs sends] write_event_ok [OF reset(1) _ assms(3), of sv rs]
      reset(2,3) assms(5) by metis
  have "handle_request_event sv ctl_ok ev rs sends cl = and_then (do_event sv rs sends ?cl) (\<lambda>(cl', out).
      case status cl' of
        Reading \<Rightarrow> Inr (cl', out, if ctl_ok then Await_in else Disarmed)
      | Writing \<Rightarrow> Inr (cl', out, if ctl_ok then Await_out else Disarmed)
      | Ended \<Rightarrow> Inr (cl', out, Released)
      | Actively_reading \<Rightarrow> Inl ExitFailure)"
    using False assms(5) by (auto simp: handle_request_event_def)
  then show ?thesis using e by (cases "status cl'") auto
qed

lemma accept_events_ok:
  "accepts_ok rs \<Longrightarrow> worker_ok w \<Longrightarrow> \<exists>w'. handle_accept_events rs w = Inr w' \<and> worker_ok w'"
proof (induction rs w rule: handle_accept_events.induct)
  case (4 p buf ctl_ok rs w)
  then obtain q b where q: "p = Some q" "buf = Some b" "length b = MAX_REQUEST_SIZE" "accepts_ok rs" by auto
  let ?w = "w\<lparr>clients := (clients w)(q \<mapsto> accepted_client b), interest := (interest w)(q := Disarmed)\<rparr>"
  let ?w' = "?w\<lparr>interest := (interest ?w)(q := Await_in), client_connections := client_connections ?w + 1\<rparr>"
  have "conn_ok (accepted_client b)" "status (accepted_client b) = Reading"
    using q(3) by (simp_all add: accepted_client_def conn_ok_def mangosteenResetMemoryAllocator_def MAX_REQUEST_SIZE_def)
  then have "worker_ok ?w" "worker_ok ?w'"
    using "4.prems"(2) by (simp_all add: worker_ok_def)
  then show ?case using "4.IH" q by (cases ctl_ok) (auto simp: Let_def)
qed auto

text \<open>The same whatever the calls return, for the events whose handler comes back.\<close>

lemma read_loop_Inr:
  "read_loop cl rs = Inr (cl', fin) \<Longrightarrow> buffer_ok cl \<Longrightarrow>
   buffer_ok cl' \<and> bytes_read cl' < MAX_REQUEST_SIZE \<and> status cl' = (if fin = None then Ended else status cl)"
proof (induction cl rs rule: read_loop.induct)
  case (1 cl rs)
  have room: "bytes_read cl < MAX_REQUEST_SIZE" using "1.prems"(1) by (subst (asm) read_loop.simps) (auto split: if_splits)
  have ended: "buffer_ok (cl\<lparr>status := Ended\<rparr>)" using "1.prems"(2) by (simp add: buffer_ok_def)
  show ?case
  proof (cases rs)
    case Nil
    then show ?thesis using "1.prems"(1) room by (simp add: read_loop.simps)
  next
    case (Cons r rs')
    show ?thesis
    proof (cases "\<exists>bs. r = Queued bs \<and> bs \<noteq> []")
      case False
      then show ?thesis using "1.prems" room Cons ended by (cases r) (auto simp: read_loop.simps)
    next
      case True
      then obtain bs where r: "r = Queued bs" "bs \<noteq> []" by blast
      let ?room = "MAX_REQUEST_SIZE - bytes_read cl"
      let ?c = "receive (take ?room bs) cl" and ?rs = "if ?room < length bs then Queued (drop ?room bs) # rs' else rs'"
      have fit: "bytes_read cl + length (take ?room bs) \<le> MAX_REQUEST_SIZE" using room by simp
      note k = receive_ok [OF "1.prems"(2) fit]
      have le: "\<not> MAX_REQUEST_SIZE < bytes_read ?c" using k(3) fit by simp
      have "read_loop ?c ?rs = Inr (cl', fin)"
        using "1.prems"(1) room r le Cons by (subst (asm) read_loop.simps) (simp add: Let_def)
      from "1.IH" [OF _ Cons r(1) r(2) refl refl le this k(1)] room k(4) show ?thesis by simp
    qed
  qed
qed

lemma send_loop_Inr:
  "send_loop buf n lft rs = Inr (out, st, l) \<Longrightarrow> l \<le> lft \<and> (st = Reading \<longleftrightarrow> l = 0) \<and> st \<noteq> Actively_reading"
proof (induction rs arbitrary: lft out)
  case Nil
  then show ?case by (simp add: send_loop.simps split: if_splits)
next
  case (Cons r rs)
  show ?case
  proof (cases "\<exists>k. r = Sent k \<and> k \<noteq> 0 \<and> lft \<noteq> 0")
    case False
    then show ?thesis using Cons.prems by (cases r) (auto simp: send_loop.simps split: if_splits)
  next
    case True
    then obtain k where "r = Sent k" "k \<noteq> 0" "lft \<noteq> 0" by blast
    then obtain out' where "send_loop buf n (lft - min k lft) rs = Inr (out', st, l)"
      using Cons.prems by (subst (asm) send_loop.simps) (auto simp: and_then_Inr split: if_splits)
    from Cons.IH [OF this] show ?thesis by (auto dest: le_trans [OF _ diff_le_self])
  qed
qed

lemma do_event_keeps:
  assumes "do_event sv rs sends cl = Inr (cl', out)" "conn_ok cl" "service_ok sv"
  shows "conn_ok cl'"
proof (cases "status cl")
  case Reading
  obtain c1 fin where c1: "read_loop cl rs = Inr (c1, fin)"
      "if fin = Some True then \<exists>c2. process_command sv c1 = Inr c2 \<and> cl' = c2\<lparr>bytes_read := 0, status := Writing\<rparr> else cl' = c1"
    using assms(1) Reading by (auto simp: do_event_def and_then_Inr split: if_splits)
  have "buffer_ok cl" using assms(2) by (simp add: conn_ok_def buffer_ok_def)
  then have ok: "buffer_ok c1" "bytes_read c1 < MAX_REQUEST_SIZE" "status c1 \<in> {Reading, Ended}"
    using read_loop_Inr [OF c1(1)] Reading by auto
  show ?thesis
  proof (cases "fin = Some True")
    case True
    obtain c2 where "process_command sv c1 = Inr c2" "req c2 = req c1" "applicationSpecificStruct c2 \<noteq> None"
        "0 < left c2" "left c2 = response_len c2" "\<exists>buf. responce_buffer c2 = Some buf \<and> response_len c2 \<le> length buf"
      using process_command_ok [OF assms(3)] by blast
    then show ?thesis using True c1(2) ok(1) by (auto simp: conn_ok_def buffer_ok_def MAX_REQUEST_SIZE_def)
  next
    case False
    then show ?thesis using c1(2) ok by (auto simp: conn_ok_def buffer_ok_def)
  qed
next
  case Writing
  then obtain buf where b: "responce_buffer cl = Some buf" "response_len cl \<le> length buf" "left cl \<le> response_len cl"
      "applicationSpecificStruct cl \<noteq> None" "length (req cl) = MAX_REQUEST_SIZE" "bytes_read cl < MAX_REQUEST_SIZE"
    using assms(2) by (auto simp: conn_ok_def)
  obtain st l where "send_loop buf (response_len cl) (left cl) sends = Inr (out, st, l)"
      "cl' = (if st = Reading then cl\<lparr>response_len := 0, responce_buffer := None, status := Reading\<rparr>
              else if st = Writing then cl\<lparr>left := l\<rparr> else cl\<lparr>status := Ended\<rparr>)"
    using assms(1) Writing b(1) by (auto simp: do_event_def and_then_Inr)
  then show ?thesis
    using send_loop_Inr [of buf "response_len cl" "left cl" sends out st l] b Writing by (cases st) (auto simp: conn_ok_def)
qed (use assms(1) in \<open>simp_all add: do_event_def\<close>)

lemma request_event_keeps:
  assumes "handle_request_event sv ctl_ok ev rs sends cl = Inr (cl', out, a)" "conn_ok cl" "service_ok sv"
  shows "conn_ok cl' \<and> (a = Await_in \<longrightarrow> status cl' = Reading) \<and> (a = Await_out \<longrightarrow> status cl' = Writing)"
proof (cases "ev_err ev")
  case True
  then show ?thesis using assms(1,2) by (auto simp: handle_request_event_def)
next
  case False
  let ?cl = "mangosteenResetMemoryAllocator cl"
  have reset: "conn_ok ?cl"
    using assms(2) by (simp add: conn_ok_def mangosteenResetMemoryAllocator_def split: req_status.splits)
  obtain c1 o1 where e: "do_event sv rs sends ?cl = Inr (c1, o1)" and
    r: "(case status c1 of
        Reading \<Rightarrow> Inr (c1, o1, if ctl_ok then Await_in else Disarmed)
      | Writing \<Rightarrow> Inr (c1, o1, if ctl_ok then Await_out else Disarmed)
      | Ended \<Rightarrow> Inr (c1, o1, Released)
      | Actively_reading \<Rightarrow> Inl ExitFailure) = Inr (cl', out, a)"
    using assms(1) False by (auto simp: handle_request_event_def and_then_Inr split: if_splits)
  from r have "cl' = c1 \<and> (a = Await_in \<longrightarrow> status c1 = Reading) \<and> (a = Await_out \<longrightarrow> status c1 = Writing)"
    by (cases "status c1") (auto split: if_splits)
  with do_event_keeps [OF e reset assms(3)] show ?thesis by simp
qed

text \<open>The request buffers of new connections have the size \<open>malloc\<close> was asked for.\<close>

definition buffers_sized :: "accept_result list \<Rightarrow> bool" where
  "buffers_sized rs \<longleftrightarrow> (\<forall>p buf ok. Accepted p (Some buf) ok \<in> set rs \<longrightarrow> length buf = MAX_REQUEST_SIZE)"

lemma new_connection_ok:
  assumes "worker_ok w" "length b = MAX_REQUEST_SIZE" "a \<in> {Disarmed, Await_in}"
  shows "worker_ok (w\<lparr>clients := (clients w)(q \<mapsto> accepted_client b), interest := (interest w)(q := a), client_connections := n\<rparr>)"
proof -
  have "conn_ok (accepted_client b)" "status (accepted_client b) = Reading"
    using assms(2) by (simp_all add: accepted_client_def conn_ok_def mangosteenResetMemoryAllocator_def MAX_REQUEST_SIZE_def)
  then show ?thesis using assms(1,3) by (auto simp: worker_ok_def)
qed

lemma accept_events_keep:
  "handle_accept_events rs w = Inr w' \<Longrightarrow> buffers_sized rs \<Longrightarrow> worker_ok w \<Longrightarrow> worker_ok w'"
proof (induction rs w rule: handle_accept_events.induct)
  case (4 p buf ctl_ok rs w)
  then obtain q b where q: "p = Some q" "buf = Some b" by (auto split: option.splits)
  then have b: "length b = MAX_REQUEST_SIZE" "buffers_sized rs" using "4.prems"(2) by (auto simp: buffers_sized_def)
  let ?w = "w\<lparr>clients := (clients w)(q \<mapsto> accepted_client b), interest := (interest w)(q := Disarmed)\<rparr>"
  let ?w' = "?w\<lparr>interest := (interest ?w)(q := Await_in), client_connections := client_connections ?w + 1\<rparr>"
  have "worker_ok ?w" "worker_ok ?w'"
    using new_connection_ok [OF "4.prems"(3) b(1), where a = Disarmed and q = q and n = "client_connections w"]
      new_connection_ok [OF "4.prems"(3) b(1), where a = Await_in and q = q and n = "client_connections w + 1"] by simp_all
  then show ?case using "4.IH" "4.prems"(1) q b(2) by (cases ctl_ok) (auto simp: Let_def)
qed auto

lemma event_keeps_worker:
  assumes "worker_ok w" "service_ok sv" "buffers_sized (io_accepts io)" "handle_event sv listenfd io w = Inr w'"
  shows "worker_ok w'"
proof (cases "ucast (io_data io) = listenfd")
  case True
  then show ?thesis using assms accept_events_keep by (simp add: handle_event_def)
next
  case False
  then obtain cl cl' out a where cl: "clients w (io_data io) = Some cl"
      "handle_request_event sv (io_ctl_ok io) (io_events io) (io_reads io) (io_sends io) cl = Inr (cl', out, a)"
      "w' = w\<lparr>clients := (clients w)(io_data io := if a = Released then None else Some cl'),
              interest := (interest w)(io_data io := a)\<rparr>"
    using assms(4) by (auto simp: handle_event_def and_then_Inr split: option.splits)
  have "conn_ok cl" using assms(1) cl(1) by (auto simp: worker_ok_def)
  from request_event_keeps [OF cl(2) this assms(2)] show ?thesis using assms(1) cl(3) by (auto simp: worker_ok_def)
qed

lemma event_is_handled:
  assumes "worker_ok w" "service_ok sv" "io_ok listenfd w io"
  shows "\<exists>w'. handle_event sv listenfd io w = Inr w'"
proof (cases "ucast (io_data io) = listenfd")
  case True
  then show ?thesis using assms accept_events_ok [of "io_accepts io" w] by (auto simp: handle_event_def io_ok_def)
next
  case False
  then obtain cl where cl: "clients w (io_data io) = Some cl" "sends_ok (io_sends io)"
      "status cl = Reading \<longrightarrow> reads_ok (io_reads io) cl"
      "interest w (io_data io) = Await_in \<and> ev_in (io_events io) \<or> interest w (io_data io) = Await_out \<and> ev_out (io_events io)"
    using assms(3) unfolding io_ok_def by auto
  have "conn_ok cl" "status cl = Reading \<and> ev_in (io_events io) \<or> status cl = Writing \<and> ev_out (io_events io)"
    using assms(1) cl(1,4) by (auto simp: worker_ok_def)
  then obtain cl' out a where
      "handle_request_event sv (io_ctl_ok io) (io_events io) (io_reads io) (io_sends io) cl = Inr (cl', out, a)"
    using request_event_ok [OF _ assms(2) cl(2,3)] by blast
  then show ?thesis using False cl(1) by (auto simp: handle_event_def)
qed

text \<open>
  C16: The connections of a worker stay well-formed. Whatever event is reported for whichever connection, and
  whatever its reads, sends, accepts and \<open>epoll_ctl\<close> calls return, if the handler comes back, then each
  connection that is still allocated either reads into a buffer with room or has a response with unsent bytes (or
  has ended), and it waits for the direction it is in. And the handler does come back, without a failed assertion
  or an exit, for new connections that get their memory, and for an event in the direction the connection waits
  for whose reads and sends end and whose reads do not fill the request buffer (a client that fills it aborts the
  server, as the claim on oversized requests says). The application is assumed to give responses of a
  positive size inside their buffer.
\<close>

theorem events_keep_connections:
  assumes "worker_ok w" "service_ok sv" "buffers_sized (io_accepts io)"
  shows "(\<forall>w'. handle_event sv listenfd io w = Inr w' \<longrightarrow> worker_ok w')
    \<and> (io_ok listenfd w io \<longrightarrow> (\<exists>w'. handle_event sv listenfd io w = Inr w'))"
  using event_keeps_worker [OF assms] event_is_handled [OF assms(1,2)] by blast

section \<open>Witnesses\<close>

definition echo_service :: "byte list service" where
  "echo_service =
     \<lparr>allocateThreadLocalServiceRequestStruct = [], loadServiceRequest = (\<lambda>_ buf. buf),
      executeRequest = (\<lambda>c. c), getResponseInfo = (\<lambda>c. (take 3 c, 3))\<rparr>"

definition example_client :: "byte list mangosteen_client" where
  "example_client = accepted_client (replicate 2048 0)"

lemma example_client_ok: "buffer_ok example_client" "status example_client = Reading"
  "bytes_read example_client = 0" "received example_client = []"
  by (simp_all add: example_client_def accepted_client_def mangosteenResetMemoryAllocator_def buffer_ok_def
      MAX_REQUEST_SIZE_def received_def)

theorem request_is_assembled_witness:
  "\<exists>cl'. do_event echo_service (map Queued [[65, 66], [13, 10]] @ Read_again # []) [] example_client = Inr (cl', [])
     \<and> status cl' = Writing \<and> bytes_read cl' = 0"
proof -
  have "unat (word_of_int (snd (getResponseInfo echo_service c)) :: u64) > 0" for c
    by (simp add: echo_service_def)
  moreover have "\<exists>body. body \<noteq> [] \<and> [65, 66, 13, 10] = body @ [13 :: byte, 10]"
    by (intro exI [of _ "[65, 66]"]) simp
  ultimately show ?thesis
    using request_is_assembled [of example_client "[[65, 66], [13, 10]]" echo_service "[]" "[]"] example_client_ok
    by (auto simp: MAX_REQUEST_SIZE_def)
qed

theorem oversized_request_aborts_server_witness:
  "do_event echo_service (map Queued [replicate 2048 65] @ []) [] example_client = Inl AssertFail"
  using oversized_request_aborts_server [of example_client "[replicate 2048 65]" echo_service "[]" "[]"] example_client_ok
  by (simp add: MAX_REQUEST_SIZE_def)

definition example_writing :: "byte list mangosteen_client" where
  "example_writing = example_client\<lparr>status := Writing, responce_buffer := Some [1, 2, 3], response_len := 3, left := 3\<rparr>"

theorem response_is_sent_in_order_witness:
  "\<exists>cl' out. send_events echo_service [[Sent 2, Send_again], [Sent 5, Send_again]] example_writing = Inr (cl', out)
     \<and> status cl' = Reading \<and> out = [1, 2, 3]"
proof -
  let ?rss = "[[Sent 2, Send_again], [Sent 5, Send_again]]"
  have c: "status example_writing = Writing" "responce_buffer example_writing = Some [1, 2, 3]"
      "response_len example_writing \<le> length [1, 2, 3 :: byte]" "left example_writing \<le> response_len example_writing"
      "0 < left example_writing" "\<forall>rs\<in>set ?rss. Send_again \<in> set rs \<or> Send_error \<in> set rs"
      "unsent example_writing = [1, 2, 3]" "left example_writing \<le> sum_list (map takes ?rss)"
    by (simp_all add: example_writing_def unsent_def)
  have "\<forall>rs\<in>set ?rss. no_failure rs" by (simp add: no_failure_def)
  then show ?thesis
    using response_is_sent_in_order [OF c(1-6), of echo_service] c(7,8) by metis
qed

definition example_worker :: "byte list worker" where
  "example_worker =
     \<lparr>clients = [4096 \<mapsto> example_client], interest = (\<lambda>_. Await_in), client_connections = 1\<rparr>"

definition example_event :: event_io where
  "example_event =
     \<lparr>io_data = 4096, io_events = \<lparr>ev_err = False, ev_in = True, ev_out = False\<rparr>, io_accepts = [],
      io_reads = [Queued [65, 13, 10], Read_again], io_sends = [Send_again], io_ctl_ok = True\<rparr>"

theorem events_keep_connections_witness:
  "\<exists>w'. handle_event (echo_service\<lparr>getResponseInfo := (\<lambda>c. (65 # c, 1))\<rparr>) 3 example_event example_worker = Inr w' \<and> worker_ok w'"
proof -
  let ?sv = "echo_service\<lparr>getResponseInfo := (\<lambda>c. (65 # c, 1))\<rparr>"
  have w: "worker_ok example_worker"
    using example_client_ok by (simp add: worker_ok_def example_worker_def conn_ok_def buffer_ok_def MAX_REQUEST_SIZE_def)
  have sv: "service_ok ?sv" by (simp add: service_ok_def response_size_def)
  have b: "buffers_sized (io_accepts example_event)" by (simp add: buffers_sized_def example_event_def)
  have "reads_ok [Queued [65, 13, 10], Read_again] example_client"
    unfolding reads_ok_def using example_client_ok
    by (intro exI [of _ "[[65, 13, 10]]"] exI [of _ Read_again] exI [of _ "[]"]) (simp add: MAX_REQUEST_SIZE_def)
  then have "io_ok 3 example_worker example_event"
    by (simp add: io_ok_def example_event_def example_worker_def sends_ok_def)
  then show ?thesis using events_keep_connections [OF w sv b, of 3] by blast
qed

end
