(* ===== verification/Address_Space.thy ===== *)
theory Address_Space
  imports Back_End
begin

text \<open>
  How a process's memory becomes persistent and comes back: \<open>should_replace\<close> and
  \<open>synchronize_address_space\<close> of \<^verbatim>\<open>instrumentation/instrument_front_end.c\<close> move the writable memory
  of the first back end into memory files, \<open>remap_address_space\<close> maps these files in a recovering
  back end, and \<open>restore_memory\<close> of \<^verbatim>\<open>front-end/front_end.c\<close> in a recovering front end. The regions
  DynamoRIO reports (\<open>dr_query_memory_ex\<close>) are a list of \<open>mem_info\<close>.
\<close>

section \<open>Choosing the memory to replace\<close>

record mem_info =
  base_pc :: addr
  mi_size :: u64
  dr_internal :: bool
  in_client :: bool
  memtype_free :: bool
  prot_read :: bool
  prot_write :: bool
  prot_vdso :: bool
  prot_stack :: bool
  prot_shared :: bool
  prot_pretend_write :: bool

definition should_replace :: "mem_info \<Rightarrow> bool result" where
  "should_replace info =
     (if dr_internal info then Inr False
      else if in_client info then Inr False
      else if memtype_free info then Inr False
      else if \<not> prot_write info then Inr False
      else if prot_vdso info then Inr False
      else if prot_stack info then Inr False
      else if prot_shared info then Inr False
      else if prot_pretend_write info then Inl AssertFail
      else if \<not> prot_read info then Inl AssertFail
      else Inr True)"

text \<open>Whether the table has a region that starts at \<open>pc\<close>; recording one it lacks.\<close>

definition missing_from_table :: "addr \<Rightarrow> region_table \<Rightarrow> bool" where
  "missing_from_table pc t \<longleftrightarrow>
     list_all (\<lambda>i. address (regionTable t (of_nat i)) \<noteq> pc) [0..<unat (number_of_entries t)]"

definition add_new_entry :: "addr \<Rightarrow> u64 \<Rightarrow> region_table \<Rightarrow> region_table result" where
  "add_new_entry pc sz t =
     (let n = unat (number_of_new_entries t)
      in if n < length (newEntries t)
         then Inr (t\<lparr>newEntries := (newEntries t)[n := (newEntries t ! n)\<lparr>address := pc, mmap_size := sz\<rparr>],
                     number_of_new_entries := number_of_new_entries t + 1\<rparr>)
         else Inl OutOfBounds)"

text \<open>The query loop; \<open>pc\<close> is the address it has reached.\<close>

fun scan_memory ::
    "bool \<Rightarrow> mem_info list \<Rightarrow> addr \<Rightarrow> mem_info list \<Rightarrow> region_table \<Rightarrow> (mem_info list \<times> region_table) result" where
  "scan_memory initial [] pc to_replace t = Inr (to_replace, t)"
| "scan_memory initial (info # infos) pc to_replace t =
     (if \<not> pc < 0xffffffffffffffff then Inr (to_replace, t)
      else and_then (should_replace info) (\<lambda>replace.
             if \<not> replace then scan_memory initial infos (base_pc info + mi_size info) to_replace t
             else if initial then scan_memory initial infos (base_pc info + mi_size info) (to_replace @ [info]) t
             else and_then (if missing_from_table pc t then add_new_entry pc (mi_size info) t else Inr t) (\<lambda>t'.
                    scan_memory initial infos (base_pc info + mi_size info) to_replace t')))"

section \<open>Moving memory into files\<close>

text \<open>\<open>memcpy\<close> of a region into its file, through a mapping that is removed again.\<close>

definition copy_region_to_file :: "addr \<Rightarrow> u64 \<Rightarrow> nat \<Rightarrow> proc_mem \<Rightarrow> proc_mem result" where
  "copy_region_to_file a sz f p =
     (if list_all (\<lambda>i. mapped p (a + of_nat i)) [0..<unat sz]
      then Inr (p\<lparr>files := (files p)(f \<mapsto> map (\<lambda>i. contents p (a + of_nat i)) [0..<unat sz])\<rparr>)
      else Inl SegFault)"

text \<open>The body of the replacing loop. The result of the second \<open>mmap\<close> is recorded unchecked.\<close>

definition replace_region :: "kernel \<Rightarrow> mem_info \<Rightarrow> rt_process \<Rightarrow> rt_process result" where
  "replace_region k info s =
     and_then (create_pmem_file k (mi_size info) s) (\<lambda>(fd, s1).
       if \<not> mmap_ok k 0 (mi_size info) then Inl ExitFailure
       else and_then (copy_region_to_file (base_pc info) (mi_size info) fd (pmem s1)) (\<lambda>p.
         let ok = mmap_ok k (base_pc info) (mi_size info);
             a = (if ok then base_pc info else -1);
             p' = (if ok then mmap_file (base_pc info) (mi_size info) fd p else p)
         in and_then (region_table_add_region_record a (mi_size info) (rt s1)) (\<lambda>t.
              Inr (s1\<lparr>rt := t, pmem := p'\<rparr>))))"

fun replace_regions :: "kernel \<Rightarrow> mem_info list \<Rightarrow> rt_process \<Rightarrow> rt_process result" where
  "replace_regions k [] s = Inr s"
| "replace_regions k (info # infos) s = and_then (replace_region k info s) (replace_regions k infos)"

definition synchronize_address_space ::
    "bool \<Rightarrow> kernel \<Rightarrow> mem_info list \<Rightarrow> rt_process \<Rightarrow> rt_process result" where
  "synchronize_address_space initial k infos s =
     and_then (scan_memory initial infos 0 [] (rt s)) (\<lambda>(to_replace, t).
       let s1 = s\<lparr>rt := t\<lparr>needsSync := False\<rparr>\<rparr>
       in if initial
          then and_then (replace_regions k to_replace s1) (\<lambda>s2. Inr (s2\<lparr>rt := region_table_commit (rt s2)\<rparr>))
          else Inr s1)"

section \<open>Mapping the files again\<close>

definition remap_address_space :: "kernel \<Rightarrow> rt_process \<Rightarrow> rt_process result" where
  "remap_address_space k s =
     (let t = rt s; is = [0..<unat (number_of_entries t)]
      in if list_all (\<lambda>i. mmap_size (regionTable t (of_nat i)) \<noteq> 2621472) is
         then and_then (remap_regions k t is (pmem s)) (\<lambda>p. Inr (s\<lparr>pmem := p\<rparr>))
         else Inl ExitFailure)"

text \<open>The loop of \<open>restore_memory\<close>: the destination is mapped onto the file, which is then copied
  over it from a second mapping.\<close>

fun restore_regions :: "kernel \<Rightarrow> region_table \<Rightarrow> nat list \<Rightarrow> proc_mem \<Rightarrow> proc_mem result" where
  "restore_regions k t [] p = Inr p"
| "restore_regions k t (i # is) p =
     (let r = regionTable t (of_nat i)
      in case files p i of
           None \<Rightarrow> Inl AssertFail
         | Some bs \<Rightarrow>
             if \<not> mmap_ok k (address r) (mmap_size r) then Inl AssertFail
             else if \<not> mmap_ok k 0 (mmap_size r) \<or> length bs < unat (mmap_size r) then Inl SegFault
             else and_then (memcpy_to (address r) (take (unat (mmap_size r)) bs)
                              (mmap_file (address r) (mmap_size r) i p)) (restore_regions k t is))"

definition restore_memory :: "kernel \<Rightarrow> region_table \<Rightarrow> proc_mem \<Rightarrow> proc_mem result" where
  "restore_memory k t p = restore_regions k t [0..<unat (number_of_entries t)] p"

text \<open>The annotation \<open>copyDataFromPersistentMemory\<close> runs the same loop inside the instrumented process.\<close>

definition copyDataFromPersistentMemory :: "kernel \<Rightarrow> rt_process \<Rightarrow> rt_process result" where
  "copyDataFromPersistentMemory k s =
     and_then (restore_regions k (rt s) [0..<unat (number_of_entries (rt s))] (pmem s))
       (\<lambda>p. Inr (s\<lparr>pmem := p\<rparr>))"

section \<open>Moving memory keeps its contents\<close>

lemma should_replace_chooses:
  "should_replace info = Inr True \<Longrightarrow> prot_write info \<and> prot_read info \<and> \<not> prot_stack info \<and> \<not> prot_shared info
     \<and> \<not> dr_internal info \<and> \<not> in_client info \<and> \<not> memtype_free info"
  by (auto simp: should_replace_def split: if_splits)

lemma scan_initial:
  "scan_memory True infos pc acc t = Inr (sel, t') \<Longrightarrow>
     t' = t \<and> (\<forall>info\<in>set sel. info \<in> set acc \<or> should_replace info = Inr True)"
proof (induction infos arbitrary: pc acc)
  case Nil
  then show ?case by auto
next
  case (Cons info infos)
  show ?case
  proof (cases "should_replace info")
    case (Inl e)
    then show ?thesis using Cons.prems by (auto split: if_splits)
  next
    case (Inr b)
    then show ?thesis
      using Cons.prems Cons.IH [of "base_pc info + mi_size info" acc]
        Cons.IH [of "base_pc info + mi_size info" "acc @ [info]"]
      by (cases b) (auto split: if_splits)
  qed
qed

lemma region_inv_contents:
  assumes "region_inv s" "\<forall>f. map_option length (fs f) = map_option length (files (pmem s) f)"
  shows "region_inv (s\<lparr>pmem := (pmem s)\<lparr>files := fs\<rparr>\<rparr>)"
proof -
  have "\<exists>bs. fs (unat i) = Some bs \<and> length bs = unat (mmap_size (regionTable (rt s) i))"
    if i: "unat i < sequenceNumber s" for i
  proof -
    obtain bs where "files (pmem s) (unat i) = Some bs" "length bs = unat (mmap_size (regionTable (rt s) i))"
      using assms(1) i unfolding region_inv_def files_match_def by blast
    then show ?thesis using spec [OF assms(2), of "unat i"] by auto
  qed
  then have "files_match (rt s) fs (sequenceNumber s)" by (simp add: files_match_def)
  then show ?thesis using assms(1) by (simp add: region_inv_def no_alias_def)
qed

text \<open>Replacing a region is creating it, with its old contents in the file.\<close>

lemma replace_region_ok:
  assumes inv: "region_inv s" and room: "sequenceNumber s < 65536"
    and ok: "ftruncate_ok k sz" "mmap_ok k 0 sz" "mmap_ok k a sz"
    and info: "base_pc info = a" "mi_size info = sz"
    and mp: "\<forall>x. in_range a (unat sz) x \<longrightarrow> mapped (pmem s) x"
    and dis: "\<forall>i x. unat i < sequenceNumber s \<longrightarrow> in_region (rt s) i x \<longrightarrow> \<not> in_range a (unat sz) x"
  shows "\<exists>s'. replace_region k info s = Inr s' \<and> region_inv s' \<and> load_byte (pmem s') = load_byte (pmem s)
    \<and> sequenceNumber s' = sequenceNumber s + 1
    \<and> (\<forall>x. vmap (pmem s') x = (if in_range a (unat sz) x then Some (File_byte (sequenceNumber s) (unat (x - a))) else vmap (pmem s) x))
    \<and> (\<forall>i x. unat i < sequenceNumber s' \<longrightarrow> in_region (rt s') i x \<longrightarrow>
         in_range a (unat sz) x \<or> (\<exists>j. unat j < sequenceNumber s \<and> in_region (rt s) j x))"
proof -
  let ?n = "sequenceNumber s" and ?p = "pmem s"
  let ?with = "\<lambda>bs. ?p\<lparr>files := (files ?p)(?n \<mapsto> bs)\<rparr>"
  let ?bytes = "map (\<lambda>i. contents ?p (a + of_nat i)) [0..<unat sz]"
  have fresh: "\<forall>x f j. vmap ?p x = Some (File_byte f j) \<longrightarrow> f < ?n" using inv by (simp add: region_inv_def)
  have ld: "load_byte (?with bs) = load_byte ?p" for bs
    using fresh by (auto simp: load_byte_def fun_eq_iff split: option.splits backing.splits)
  have off: "in_range a (unat sz) (a + of_nat i)" if "i < unat sz" for i
    using that unat_lt64 [of sz] by (simp add: in_range_def unat_of_nat)
  have tab: "uncommited_number_of_entries (rt s) < currentTableSize (rt s)"
    using inv room by (simp add: region_inv_def INITIAL_TABLE_SIZE_def word_less_nat_alt)
  then obtain t where t: "region_table_add_region_record a sz (rt s) = Inr t"
    using add_record_result by blast
  define s0 where "s0 = s\<lparr>rt := t, sequenceNumber := ?n + 1, pmem := mmap_file a sz ?n (?with (replicate (unat sz) 0))\<rparr>"
  define s' where "s' = s\<lparr>rt := t, sequenceNumber := ?n + 1, pmem := mmap_file a sz ?n (?with ?bytes)\<rparr>"
  have cr: "region_table_create_memory_region k a sz s = Inr s0"
    unfolding create_region_result using t ok s0_def by blast
  have "region_inv (s0\<lparr>pmem := (pmem s0)\<lparr>files := (files ?p)(?n \<mapsto> ?bytes)\<rparr>\<rparr>)"
    by (rule region_inv_contents [OF create_region_keeps_inv [OF inv cr dis]]) (simp add: s0_def mmap_file_def)
  moreover have "s0\<lparr>pmem := (pmem s0)\<lparr>files := (files ?p)(?n \<mapsto> ?bytes)\<rparr>\<rparr> = s'"
    by (simp add: s0_def s'_def mmap_file_def cong: if_cong)
  ultimately have inv': "region_inv s'" by simp
  have "list_all (\<lambda>i. mapped ?p (a + of_nat i)) [0..<unat sz]"
    using mp off by (simp add: list_all_iff)
  then have "copy_region_to_file a sz ?n (?with (replicate (unat sz) 0)) = Inr (?with ?bytes)"
    using ld by (simp add: copy_region_to_file_def mapped_def contents_def)
  then have res: "replace_region k info s = Inr s'"
    using ok t by (simp add: replace_region_def create_pmem_file_def info s'_def Let_def)
  have "load_byte (pmem s') x = load_byte ?p x" for x
  proof (cases "in_range a (unat sz) x")
    case True
    then have "?bytes ! unat (x - a) = contents ?p x" by (simp add: in_range_def)
    moreover have "load_byte ?p x = Some (contents ?p x)"
      using mp True by (auto simp: mapped_def contents_def)
    ultimately show ?thesis
      using True load_mmap_file [of "?with ?bytes" ?n ?bytes sz a x] by (simp add: s'_def)
  next
    case False
    then show ?thesis
      using load_mmap_file [of "?with ?bytes" ?n ?bytes sz a x] ld by (simp add: s'_def)
  qed
  moreover have "in_range a (unat sz) x \<or> (\<exists>j. unat j < ?n \<and> in_region (rt s) j x)"
    if "unat i < sequenceNumber s'" "in_region (rt s') i x" for i x
  proof (cases "i = uncommited_number_of_entries (rt s)")
    case True
    then show ?thesis using that(2) t by (simp add: s'_def add_record_result in_region_def)
  next
    case False
    then have "in_region (rt s) i x" using that(2) t by (simp add: s'_def add_record_result in_region_def)
    moreover have "unat i \<noteq> ?n" using False inv by (auto simp: region_inv_def word_unat_eq_iff)
    ultimately show ?thesis using that(1) by (intro disjI2 exI [of _ i]) (simp add: s'_def)
  qed
  ultimately show ?thesis
    using res inv' by (intro exI [of _ s']) (auto simp: s'_def mmap_file_def fun_eq_iff)
qed

definition disjoint_infos :: "mem_info list \<Rightarrow> bool" where
  "disjoint_infos infos \<longleftrightarrow>
     (\<forall>i<length infos. \<forall>j<length infos. \<forall>x. in_range (base_pc (infos ! i)) (unat (mi_size (infos ! i))) x \<longrightarrow>
        in_range (base_pc (infos ! j)) (unat (mi_size (infos ! j))) x \<longrightarrow> i = j)"

lemma disjoint_infos_Cons:
  assumes "disjoint_infos (info # infos)"
  shows "disjoint_infos infos"
    "i \<in> set infos \<Longrightarrow> in_range (base_pc info) (unat (mi_size info)) x \<Longrightarrow> \<not> in_range (base_pc i) (unat (mi_size i)) x"
proof -
  show "disjoint_infos infos"
    unfolding disjoint_infos_def
  proof (intro allI impI)
    fix i j x
    assume "i < length infos" "j < length infos" "in_range (base_pc (infos ! i)) (unat (mi_size (infos ! i))) x"
      "in_range (base_pc (infos ! j)) (unat (mi_size (infos ! j))) x"
    then show "i = j"
      using assms [unfolded disjoint_infos_def, rule_format, of "Suc i" "Suc j" x] by simp
  qed
  assume i: "i \<in> set infos" "in_range (base_pc info) (unat (mi_size info)) x"
  then obtain n where "n < length infos" "infos ! n = i" by (auto simp: in_set_conv_nth)
  then show "\<not> in_range (base_pc i) (unat (mi_size i)) x"
    using assms [unfolded disjoint_infos_def, rule_format, of 0 "Suc n" x] i(2) by auto
qed

text \<open>The kernel accepts what replacing the region asks of it, the region is mapped, and no memory file
  holds it yet.\<close>

definition replaceable :: "kernel \<Rightarrow> rt_process \<Rightarrow> mem_info \<Rightarrow> bool" where
  "replaceable k s info \<longleftrightarrow>
     ftruncate_ok k (mi_size info) \<and> mmap_ok k 0 (mi_size info) \<and> mmap_ok k (base_pc info) (mi_size info)
     \<and> (\<forall>x. in_range (base_pc info) (unat (mi_size info)) x \<longrightarrow> mapped (pmem s) x)
     \<and> (\<forall>i x. unat i < sequenceNumber s \<longrightarrow> in_region (rt s) i x \<longrightarrow> \<not> in_range (base_pc info) (unat (mi_size info)) x)"

lemma replace_regions_ok:
  "region_inv s \<Longrightarrow> sequenceNumber s + length infos \<le> 65536 \<Longrightarrow>
   \<forall>info\<in>set infos. replaceable k s info \<Longrightarrow>
   disjoint_infos infos \<Longrightarrow>
   \<exists>s'. replace_regions k infos s = Inr s' \<and> region_inv s' \<and> load_byte (pmem s') = load_byte (pmem s)
     \<and> sequenceNumber s' = sequenceNumber s + length infos
     \<and> (\<forall>x. (\<exists>f j. vmap (pmem s) x = Some (File_byte f j)) \<or>
            (\<exists>info\<in>set infos. in_range (base_pc info) (unat (mi_size info)) x) \<longrightarrow>
          (\<exists>f j. vmap (pmem s') x = Some (File_byte f j)))"
proof (induction infos arbitrary: s)
  case Nil
  then show ?case by auto
next
  case (Cons info infos)
  let ?a = "base_pc info" and ?sz = "mi_size info"
  have "replaceable k s info" using Cons.prems(3) by simp
  then have here: "ftruncate_ok k ?sz" "mmap_ok k 0 ?sz" "mmap_ok k ?a ?sz"
      "\<forall>x. in_range ?a (unat ?sz) x \<longrightarrow> mapped (pmem s) x"
      "\<forall>i x. unat i < sequenceNumber s \<longrightarrow> in_region (rt s) i x \<longrightarrow> \<not> in_range ?a (unat ?sz) x"
    unfolding replaceable_def by blast+
  have room: "sequenceNumber s < 65536" using Cons.prems(2) by simp
  obtain s1 where s1: "replace_region k info s = Inr s1" "region_inv s1" "load_byte (pmem s1) = load_byte (pmem s)"
      "sequenceNumber s1 = sequenceNumber s + 1"
      "\<forall>x. vmap (pmem s1) x = (if in_range ?a (unat ?sz) x then Some (File_byte (sequenceNumber s) (unat (x - ?a))) else vmap (pmem s) x)"
      "\<forall>i x. unat i < sequenceNumber s1 \<longrightarrow> in_region (rt s1) i x \<longrightarrow>
         in_range ?a (unat ?sz) x \<or> (\<exists>j. unat j < sequenceNumber s \<and> in_region (rt s) j x)"
    using replace_region_ok [OF Cons.prems(1) room here(1-3) refl refl here(4,5)] by blast
  have m1: "mapped (pmem s1) = mapped (pmem s)" using s1(3) by (simp add: mapped_def fun_eq_iff)
  have "replaceable k s1 i" if i: "i \<in> set infos" for i
  proof -
    have old: "replaceable k s i" using Cons.prems(3) i by simp
    have "\<not> in_range (base_pc i) (unat (mi_size i)) x"
      if "unat n < sequenceNumber s1" "in_region (rt s1) n x" for n x
      using s1(6) that old disjoint_infos_Cons(2) [OF Cons.prems(4) i] unfolding replaceable_def by blast
    with old show ?thesis unfolding replaceable_def m1 by blast
  qed
  then have all: "\<forall>i\<in>set infos. replaceable k s1 i" by blast
  have len: "sequenceNumber s1 + length infos \<le> 65536" using Cons.prems(2) s1(4) by simp
  obtain s2 where s2: "replace_regions k infos s1 = Inr s2" "region_inv s2" "load_byte (pmem s2) = load_byte (pmem s1)"
      "sequenceNumber s2 = sequenceNumber s1 + length infos"
      "\<forall>x. (\<exists>f j. vmap (pmem s1) x = Some (File_byte f j)) \<or>
            (\<exists>info\<in>set infos. in_range (base_pc info) (unat (mi_size info)) x) \<longrightarrow>
          (\<exists>f j. vmap (pmem s2) x = Some (File_byte f j))"
    using Cons.IH [OF s1(2) len all disjoint_infos_Cons(1) [OF Cons.prems(4)]] by blast
  have "\<exists>f j. vmap (pmem s2) x = Some (File_byte f j)"
    if "(\<exists>f j. vmap (pmem s) x = Some (File_byte f j)) \<or>
            (\<exists>i\<in>set (info # infos). in_range (base_pc i) (unat (mi_size i)) x)" for x
    using that s1(5) s2(5) by (cases "in_range ?a (unat ?sz) x") auto
  then show ?case using s1 s2 by simp
qed

section \<open>Making a process persistent\<close>

lemma synchronize_result:
  assumes "region_inv s" "scan_memory True infos 0 [] (rt s) = Inr (sel, t)"
    and "sequenceNumber s + length sel \<le> 65536" "disjoint_infos sel"
    and "\<forall>info\<in>set sel. replaceable k s info"
  shows "\<exists>s'. synchronize_address_space True k infos s = Inr s' \<and> region_inv s'
    \<and> load_byte (pmem s') = load_byte (pmem s)
    \<and> unat (number_of_entries (rt s')) = sequenceNumber s + length sel
    \<and> number_of_entries (rt s') = uncommited_number_of_entries (rt s')
    \<and> (\<forall>info\<in>set sel. prot_write info \<and> prot_read info \<and> \<not> prot_stack info \<and> \<not> prot_shared info
         \<and> (\<forall>x. in_range (base_pc info) (unat (mi_size info)) x \<longrightarrow> (\<exists>f j. vmap (pmem s') x = Some (File_byte f j))))"
proof -
  have t: "t = rt s" "\<forall>info\<in>set sel. should_replace info = Inr True" using scan_initial [OF assms(2)] by simp_all
  define s1 where "s1 = s\<lparr>rt := (rt s)\<lparr>needsSync := False\<rparr>\<rparr>"
  have f1: "pmem s1 = pmem s" "sequenceNumber s1 = sequenceNumber s" "in_region (rt s1) = in_region (rt s)"
    by (simp_all add: s1_def in_region_def fun_eq_iff)
  have i1: "region_inv s1"
    using assms(1) by (simp add: region_inv_def s1_def files_match_def in_region_def)
  obtain s2 where s2: "replace_regions k sel s1 = Inr s2" "region_inv s2" "load_byte (pmem s2) = load_byte (pmem s)"
      "sequenceNumber s2 = sequenceNumber s + length sel"
      "\<forall>x. (\<exists>f j. vmap (pmem s) x = Some (File_byte f j)) \<or>
            (\<exists>info\<in>set sel. in_range (base_pc info) (unat (mi_size info)) x) \<longrightarrow>
          (\<exists>f j. vmap (pmem s2) x = Some (File_byte f j))"
    using replace_regions_ok [OF i1, of sel k] assms(3-5) unfolding f1 replaceable_def by blast
  define s' where "s' = s2\<lparr>rt := region_table_commit (rt s2)\<rparr>"
  have "synchronize_address_space True k infos s = Inr s'"
    using assms(2) s2(1) t(1) by (simp add: synchronize_address_space_def s'_def s1_def [symmetric])
  moreover have "region_inv s'"
    using s2(2) by (simp add: region_inv_def s'_def region_table_commit_def files_match_def in_region_def)
  moreover have "unat (number_of_entries (rt s')) = sequenceNumber s + length sel"
    using s2(2,4) by (simp add: s'_def region_table_commit_def region_inv_def)
  moreover have "pmem s' = pmem s2" "number_of_entries (rt s') = uncommited_number_of_entries (rt s')"
    by (simp_all add: s'_def region_table_commit_def)
  ultimately show ?thesis using s2(3,5) t(2) should_replace_chooses by metis
qed

text \<open>
  C14: Making the first back end persistent does not change what it sees. The regions that the
  query loop selects are writable, readable, not stacks and not shared; when they do not overlap
  and the kernel accepts the mappings, every address reads as before, every selected address is now
  backed by a memory file, and the table describes exactly these files and is committed.
\<close>

theorem synchronize_keeps_memory:
  assumes "region_inv s" "scan_memory True infos 0 [] (rt s) = Inr (sel, t)"
    and "sequenceNumber s + length sel \<le> 65536" "disjoint_infos sel"
    and "\<forall>info\<in>set sel. replaceable k s info"
  shows "\<exists>s'. synchronize_address_space True k infos s = Inr s' \<and> region_inv s'
    \<and> load_byte (pmem s') = load_byte (pmem s)
    \<and> unat (number_of_entries (rt s')) = sequenceNumber s + length sel
    \<and> (\<forall>info\<in>set sel. prot_write info \<and> prot_read info \<and> \<not> prot_stack info \<and> \<not> prot_shared info
         \<and> (\<forall>x. in_range (base_pc info) (unat (mi_size info)) x \<longrightarrow> (\<exists>f j. vmap (pmem s') x = Some (File_byte f j))))"
  using synchronize_result [OF assms] by blast

section \<open>Restoring the memory of the front end\<close>

lemma store_same:
  assumes "load_byte p x = Some b"
  shows "store_byte x b p = Inr p"
  using assms
  by (cases p) (auto simp: load_byte_def store_byte_def fun_upd_idem split: option.splits backing.splits if_splits)

lemma memcpy_same: "\<forall>i<length bs. load_byte p (a + of_nat i) = Some (bs ! i) \<Longrightarrow> memcpy_to a bs p = Inr p"
proof (induction bs arbitrary: a)
  case Nil
  then show ?case by simp
next
  case (Cons b bs)
  have "load_byte p (a + 1 + of_nat i) = Some (bs ! i)" if "i < length bs" for i
    using Cons.prems [rule_format, of "Suc i"] that by (simp add: add.assoc)
  then have "memcpy_to (a + 1) bs p = Inr p" using Cons.IH by blast
  then show ?case using Cons.prems [rule_format, of 0] by (simp add: store_same)
qed

text \<open>The copy over a mapping of the same file changes nothing, so restoring is remapping.\<close>

lemma restore_is_remap:
  "\<forall>i\<in>set is. mmap_ok k 0 (mmap_size (regionTable t (of_nat i)))
     \<and> mmap_ok k (address (regionTable t (of_nat i))) (mmap_size (regionTable t (of_nat i)))
     \<and> (\<exists>bs. files p i = Some bs \<and> length bs = unat (mmap_size (regionTable t (of_nat i)))) \<Longrightarrow>
   restore_regions k t is p = remap_regions k t is p"
proof (induction "is" arbitrary: p)
  case Nil
  then show ?case by simp
next
  case (Cons i "is")
  let ?r = "regionTable t (of_nat i)"
  let ?p = "mmap_file (address ?r) (mmap_size ?r) i p"
  obtain bs where bs: "files p i = Some bs" "length bs = unat (mmap_size ?r)" using Cons.prems by auto
  have "load_byte ?p (address ?r + of_nat n) = Some (bs ! n)" if "n < length bs" for n
  proof -
    have "unat (of_nat n :: u64) = n" using that bs(2) unat_lt64 [of "mmap_size ?r"] by (simp add: unat_of_nat)
    then show ?thesis using load_mmap_file [OF bs] that bs(2) by (simp add: in_range_def)
  qed
  then have "memcpy_to (address ?r) bs ?p = Inr ?p" by (intro memcpy_same) blast
  moreover have "files ?p = files p" by (simp add: mmap_file_def)
  ultimately show ?case using Cons bs by (simp add: Let_def)
qed

lemma restore_memory_ok:
  assumes inv: "region_inv s" and n: "number_of_entries (rt s) = uncommited_number_of_entries (rt s)"
    and ok: "\<forall>i. unat i < unat (number_of_entries (rt s)) \<longrightarrow> mmap_ok k 0 (mmap_size (regionTable (rt s) i))
      \<and> mmap_ok k (address (regionTable (rt s) i)) (mmap_size (regionTable (rt s) i))"
  shows "restore_memory k (rt s) (fresh_mem (files (pmem s))) =
    remap_regions k (rt s) [0..<unat (number_of_entries (rt s))] (fresh_mem (files (pmem s)))"
  unfolding restore_memory_def
proof (rule restore_is_remap, rule ballI)
  fix i
  assume i: "i \<in> set [0..<unat (number_of_entries (rt s))]"
  have "unat (number_of_entries (rt s)) = sequenceNumber s" using inv n by (simp add: region_inv_def)
  moreover have u: "unat (of_nat i :: u64) = i" using i inv n by (simp add: unat_of_nat region_inv_def)
  moreover have "files_match (rt s) (files (pmem s)) (sequenceNumber s)" using inv by (simp add: region_inv_def)
  ultimately have "\<exists>bs. files (pmem s) i = Some bs \<and> length bs = unat (mmap_size (regionTable (rt s) (of_nat i)))"
    using i unfolding files_match_def by (metis atLeastLessThan_iff set_upt)
  then show "mmap_ok k 0 (mmap_size (regionTable (rt s) (of_nat i)))
     \<and> mmap_ok k (address (regionTable (rt s) (of_nat i))) (mmap_size (regionTable (rt s) (of_nat i)))
     \<and> (\<exists>bs. files (fresh_mem (files (pmem s))) i = Some bs \<and> length bs = unat (mmap_size (regionTable (rt s) (of_nat i))))"
    using ok i u by (simp add: fresh_mem_def)
qed

lemma restore_fresh:
  assumes "region_inv s" "number_of_entries (rt s) = uncommited_number_of_entries (rt s)"
    and "\<forall>i. unat i < unat (number_of_entries (rt s)) \<longrightarrow> mmap_ok k 0 (mmap_size (regionTable (rt s) i))
      \<and> mmap_ok k (address (regionTable (rt s) i)) (mmap_size (regionTable (rt s) i))"
  shows "\<exists>q. restore_memory k (rt s) (fresh_mem (files (pmem s))) = Inr q
    \<and> files q = files (pmem s) \<and> (\<forall>x. mapped q x = in_table (rt s) x)
    \<and> (\<forall>x. in_table (rt s) x \<longrightarrow> load_byte q x = load_byte (pmem s) x \<and> vmap q x = vmap (pmem s) x)"
proof -
  have ok: "\<forall>i. unat i < unat (number_of_entries (rt s)) \<longrightarrow>
      mmap_ok k (address (regionTable (rt s) i)) (mmap_size (regionTable (rt s) i))" using assms(3) by blast
  from remap_fresh [OF assms(1,2) ok] show ?thesis unfolding restore_memory_ok [OF assms] by blast
qed

lemma copyDataFromPersistentMemory_ok:
  assumes "region_inv s" "number_of_entries (rt s) = uncommited_number_of_entries (rt s)"
    and "\<forall>i. unat i < unat (number_of_entries (rt s)) \<longrightarrow> mmap_ok k 0 (mmap_size (regionTable (rt s) i))
      \<and> mmap_ok k (address (regionTable (rt s) i)) (mmap_size (regionTable (rt s) i))"
  shows "\<exists>s'. copyDataFromPersistentMemory k (s\<lparr>pmem := fresh_mem (files (pmem s))\<rparr>) = Inr s'
    \<and> rt s' = rt s \<and> (\<forall>x. in_table (rt s) x \<longrightarrow> load_byte (pmem s') x = load_byte (pmem s) x)"
  using restore_fresh [OF assms] unfolding restore_memory_def copyDataFromPersistentMemory_def by auto

text \<open>
  C34: A recovering front end gets back every byte of the recorded regions, but by mapping the
  memory files themselves, shared, where a first front end runs on memory of its own: a store
  of the recovered application changes the memory file, and with it what the back end reads, at once and
  without an entry in the log.
\<close>

theorem restored_front_end_writes_files:
  assumes "region_inv s" "number_of_entries (rt s) = uncommited_number_of_entries (rt s)"
    and "\<forall>i. unat i < unat (number_of_entries (rt s)) \<longrightarrow> mmap_ok k 0 (mmap_size (regionTable (rt s) i))
      \<and> mmap_ok k (address (regionTable (rt s) i)) (mmap_size (regionTable (rt s) i))"
  shows "\<exists>q. restore_memory k (rt s) (fresh_mem (files (pmem s))) = Inr q
    \<and> (\<forall>x. in_table (rt s) x \<longrightarrow> load_byte q x = load_byte (pmem s) x
         \<and> (\<forall>b. \<exists>q'. store_byte x b q = Inr q' \<and> load_byte ((pmem s)\<lparr>files := files q'\<rparr>) x = Some b))"
proof -
  obtain q where q: "restore_memory k (rt s) (fresh_mem (files (pmem s))) = Inr q"
      "\<forall>x. in_table (rt s) x \<longrightarrow> load_byte q x = load_byte (pmem s) x"
      "files q = files (pmem s)" "\<forall>x. in_table (rt s) x \<longrightarrow> vmap q x = vmap (pmem s) x"
      "\<forall>x. mapped q x = in_table (rt s) x"
    using restore_fresh [OF assms] by blast
  have sq: "unat (number_of_entries (rt s)) = sequenceNumber s" using assms(1,2) by (simp add: region_inv_def)
  have "\<exists>q'. store_byte x b q = Inr q' \<and> load_byte ((pmem s)\<lparr>files := files q'\<rparr>) x = Some b"
    if x: "in_table (rt s) x" for x b
  proof -
    obtain f i where v: "vmap (pmem s) x = Some (File_byte f i)"
      using x assms(1) sq unfolding region_inv_def by auto
    moreover have "vmap q x = Some (File_byte f i)" using q(4) x v by simp
    moreover have "load_byte q x \<noteq> None" using q(5) x by (metis mapped_def)
    ultimately show ?thesis by (auto simp: load_byte_def store_byte_def split: option.splits if_splits)
  qed
  then show ?thesis using q(1,2) by blast
qed

section \<open>Witnesses\<close>

definition heap_info :: mem_info where
  "heap_info = \<lparr>base_pc = 4096, mi_size = 64, dr_internal = False, in_client = False, memtype_free = False,
     prot_read = True, prot_write = True, prot_vdso = False, prot_stack = False, prot_shared = False,
     prot_pretend_write = False\<rparr>"

definition private_process :: rt_process where
  "private_process = empty_process\<lparr>pmem := \<lparr>vmap = (\<lambda>_. Some Anon_byte), anon = (\<lambda>_. 7), files = (\<lambda>_. None)\<rparr>\<rparr>"

lemma private_process_inv: "region_inv private_process"
  by (simp add: region_inv_def private_process_def empty_process_def zero_region_table_def files_match_def no_alias_def)

lemma heap_scan:
  "scan_memory True [heap_info, heap_info\<lparr>prot_stack := True, base_pc := 8192\<rparr>] 0 [] t = Inr ([heap_info], t)"
  by (simp add: heap_info_def should_replace_def)

theorem synchronize_keeps_memory_witness:
  "\<exists>s'. synchronize_address_space True accepting_kernel [heap_info, heap_info\<lparr>prot_stack := True, base_pc := 8192\<rparr>] private_process = Inr s'
     \<and> load_byte (pmem s') 4100 = Some 7 \<and> unat (number_of_entries (rt s')) = 1"
proof -
  have "sequenceNumber private_process = 0" "load_byte (pmem private_process) = (\<lambda>_. Some 7)"
    by (simp_all add: private_process_def empty_process_def load_byte_def fun_eq_iff)
  moreover have "replaceable accepting_kernel private_process heap_info"
    by (simp add: replaceable_def accepting_kernel_def mapped_def calculation)
  ultimately show ?thesis
    using synchronize_keeps_memory [OF private_process_inv heap_scan, of accepting_kernel] by (auto simp: disjoint_infos_def)
qed

theorem restored_front_end_writes_files_witness:
  "\<exists>q. restore_memory accepting_kernel (rt example_proc) (fresh_mem (files (pmem example_proc))) = Inr q
     \<and> load_byte q 4100 = Some 0
     \<and> (\<exists>q'. store_byte 4100 9 q = Inr q' \<and> load_byte ((pmem example_proc)\<lparr>files := files q'\<rparr>) 4100 = Some 9)"
proof -
  note inv = example_proc_inv
  have n: "number_of_entries (rt example_proc) = 1" "uncommited_number_of_entries (rt example_proc) = 1"
    by (simp_all add: example_proc_def)
  have x: "in_table (rt example_proc) 4100"
    by (intro exI [of _ 0]) (simp add: example_region n in_range_def)
  then show ?thesis
    using restored_front_end_writes_files [OF inv, of accepting_kernel] n example_load [of 4100]
    by (auto simp: accepting_kernel_def in_range_def)
qed

end
