(* ===== verification/Transient_Allocator.thy ===== *)
theory Transient_Allocator
  imports Mangosteen_Prelude
begin

text \<open>
  The size-class allocator of \<^verbatim>\<open>transient_allocator/transient_allocator.c\<close>. Its free lists are chains
  of \<open>memory_node\<close> structures in byte memory: \<open>size\<close> at offset 0, \<open>next\<close> at 8, \<open>usable_space\<close> at 16.
  An entry is only 12 bytes longer than its block, so the last field, and for small blocks the next
  entry, lie over the block that is handed out; the byte memory makes this visible. The address that
  \<open>mmap\<close> returns is an argument (\<open>None\<close> where it fails). Loops over a chain may not end: they are partial
  functions to \<open>option\<close>.

  The locale \<open>block_pool\<close> is the contract of a free list as a first-in first-out pool of blocks; the list
  operations interpret it.
\<close>

section \<open>Data\<close>

definition MMAP_BLOCK_SIZE :: nat where "MMAP_BLOCK_SIZE = 65536"
definition MAX_BLOCK_POW :: nat where "MAX_BLOCK_POW = 16"

record memory_node_list =
  block_size :: nat
  first :: addr

record transient_allocator =
  pMemoryNodeList :: "memory_node_list list"

text \<open>The 4-byte field \<open>size\<close>, and the fields of the node at an address.\<close>

definition ld32 :: "mem \<Rightarrow> addr \<Rightarrow> u32" where
  "ld32 m a = ucast (of_le_bytes (read_bytes m a 4))"

definition st32 :: "mem \<Rightarrow> addr \<Rightarrow> u32 \<Rightarrow> mem" where
  "st32 m a w = write_bytes m a (take 4 (le_bytes (ucast w)))"

abbreviation node_next :: "mem \<Rightarrow> addr \<Rightarrow> addr" where
  "node_next m p \<equiv> ld64 m (p + 8)"

abbreviation node_usable_space :: "mem \<Rightarrow> addr \<Rightarrow> addr" where
  "node_usable_space m p \<equiv> ld64 m (p + 16)"

section \<open>Operations\<close>

text \<open>The allocator and the value of \<open>MAX_ALLOC\<close>.\<close>

definition initialise_allocator :: "transient_allocator \<times> nat" where
  "initialise_allocator =
     (\<lparr>pMemoryNodeList = map (\<lambda>i. \<lparr>block_size = 2 ^ i, first = 0\<rparr>) [0..<MAX_BLOCK_POW]\<rparr>, 2 ^ MAX_BLOCK_POW)"

text \<open>The loop of \<open>get_block_index\<close>; \<open>size_aligned_to_block_size\<close> is \<open>2 ^ index\<close> at each turn.\<close>

function block_index_loop :: "nat \<Rightarrow> nat \<Rightarrow> nat" where
  "block_index_loop sz index = (if 2 ^ index < sz then block_index_loop sz (Suc index) else index)"
  by pat_completeness auto

termination block_index_loop
  by (relation "measure (\<lambda>(sz, index). sz - index)") (auto intro: diff_less_mono2 less_trans [OF less_exp])

declare block_index_loop.simps [simp del]

definition get_block_index :: "nat \<Rightarrow> nat \<Rightarrow> nat result" where
  "get_block_index MAX_ALLOC sz = (if sz < MAX_ALLOC then Inr (block_index_loop sz 0) else Inl AssertFail)"

text \<open>
  The loop that chains the nodes after the first one, and the stores of one turn. A store past the end
  of the mapping is out of bounds.
\<close>

definition link_node :: "nat \<Rightarrow> addr \<Rightarrow> nat \<Rightarrow> mem \<Rightarrow> mem" where
  "link_node block addr offset m =
     (let entrySize = block + 12;
          iterator = addr + of_nat offset;
          m1 = st32 m iterator (of_nat block);
          m2 = st64 m1 (iterator + 8) (addr + of_nat (offset + entrySize));
          m3 = st64 m2 (addr + of_nat (offset + entrySize) + 8) 0;
          m4 = st64 m3 (iterator + 16) (iterator + 12)
      in if offset + entrySize + entrySize > MMAP_BLOCK_SIZE then st64 m4 (iterator + 8) 0 else m4)"

function chain_nodes :: "nat \<Rightarrow> addr \<Rightarrow> nat \<Rightarrow> mem \<Rightarrow> mem result" where
  "chain_nodes block addr offset m =
     (let entrySize = block + 12
      in if offset + entrySize < MMAP_BLOCK_SIZE
         then if offset + 24 > MMAP_BLOCK_SIZE \<or> offset + entrySize + 16 > MMAP_BLOCK_SIZE then Inl OutOfBounds
              else chain_nodes block addr (offset + entrySize) (link_node block addr offset m)
         else Inr m)"
  by pat_completeness auto

termination chain_nodes
  by (relation "measure (\<lambda>(block, addr, offset, m). MMAP_BLOCK_SIZE - offset)") auto

declare chain_nodes.simps [simp del]

text \<open>Walking a chain: its length and its last node.\<close>

partial_function (option) count_nodes :: "mem \<Rightarrow> addr \<Rightarrow> nat \<Rightarrow> nat option" where
  "count_nodes m p n = (if p = 0 then Some n else count_nodes m (node_next m p) (n + 1))"

partial_function (option) last_node :: "mem \<Rightarrow> addr \<Rightarrow> addr option" where
  "last_node m p = (if node_next m p = 0 then Some p else last_node m (node_next m p))"

text \<open>The new mapping with the first node in it.\<close>

definition first_entry :: "nat \<Rightarrow> addr \<Rightarrow> mem \<Rightarrow> mem" where
  "first_entry block addr m =
     (let m0 = (\<lambda>x. if in_range addr MMAP_BLOCK_SIZE x then 0 else m x);
          m1 = write_bytes m0 addr [97, 98, 99, 0];
          m2 = st32 m1 addr (of_nat block);
          m3 = st64 m2 (addr + 8) (addr + of_nat (12 + block))
      in st64 m3 (addr + 16) (addr + 12))"

text \<open>The final walk prints the nodes (\<open>DEBUG\<close> is defined).\<close>

definition add_memory_blocks_to_list ::
    "addr option \<Rightarrow> memory_node_list \<Rightarrow> mem \<Rightarrow> (memory_node_list \<times> mem) result option" where
  "add_memory_blocks_to_list mmapped l m =
     (case mmapped of
        None \<Rightarrow> Some (Inl SegFault)
      | Some addr \<Rightarrow>
          (case chain_nodes (block_size l) addr (12 + block_size l) (first_entry (block_size l) addr m) of
             Inl e \<Rightarrow> Some (Inl e)
           | Inr m' \<Rightarrow> map_option (\<lambda>_. Inr (l\<lparr>first := addr\<rparr>, m')) (count_nodes m' addr 0)))"

definition list_is_empty :: "memory_node_list \<Rightarrow> bool" where
  "list_is_empty l \<longleftrightarrow> first l = 0"

definition pop_memory_block :: "memory_node_list \<Rightarrow> mem \<Rightarrow> (addr \<times> memory_node_list) result" where
  "pop_memory_block l m =
     (if first l = 0 then Inl SegFault
      else Inr (node_usable_space m (first l), l\<lparr>first := node_next m (first l)\<rparr>))"

definition ta_alloc ::
    "addr option \<Rightarrow> nat \<Rightarrow> nat \<Rightarrow> transient_allocator \<Rightarrow> mem \<Rightarrow> (addr \<times> transient_allocator \<times> mem) result option" where
  "ta_alloc mmapped MAX_ALLOC sz ta m =
     (case get_block_index MAX_ALLOC sz of
        Inl e \<Rightarrow> Some (Inl e)
      | Inr listIndex \<Rightarrow>
          if \<not> listIndex < length (pMemoryNodeList ta) then Some (Inl OutOfBounds)
          else
            (let l = pMemoryNodeList ta ! listIndex
             in case (if list_is_empty l then add_memory_blocks_to_list mmapped l m else Some (Inr (l, m))) of
                  None \<Rightarrow> None
                | Some (Inl e) \<Rightarrow> Some (Inl e)
                | Some (Inr (l', m')) \<Rightarrow>
                    Some (and_then (pop_memory_block l' m') (\<lambda>(p, l'').
                      Inr (p, ta\<lparr>pMemoryNodeList := (pMemoryNodeList ta)[listIndex := l'']\<rparr>, m')))))"

definition push_block :: "memory_node_list \<Rightarrow> addr \<Rightarrow> mem \<Rightarrow> (memory_node_list \<times> mem) option" where
  "push_block l ptr m =
     (let node = ptr - 12
      in if list_is_empty l then Some (l\<lparr>first := node\<rparr>, st64 m (node + 8) 0)
         else map_option (\<lambda>iterator. (l, st64 (st64 m (iterator + 8) node) (node + 8) 0)) (last_node m (first l)))"

definition ta_free ::
    "nat \<Rightarrow> addr \<Rightarrow> transient_allocator \<Rightarrow> mem \<Rightarrow> (transient_allocator \<times> mem) result option" where
  "ta_free MAX_ALLOC ptr ta m =
     (case get_block_index MAX_ALLOC (unat (scast (ld32 m (ptr - 12)) :: u64)) of
        Inl e \<Rightarrow> Some (Inl e)
      | Inr listIndex \<Rightarrow>
          if \<not> listIndex < length (pMemoryNodeList ta) then Some (Inl OutOfBounds)
          else map_option (\<lambda>(l, m'). Inr (ta\<lparr>pMemoryNodeList := (pMemoryNodeList ta)[listIndex := l]\<rparr>, m'))
                 (push_block (pMemoryNodeList ta ! listIndex) ptr m))"

definition get_list_length :: "memory_node_list \<Rightarrow> mem \<Rightarrow> nat option" where
  "get_list_length l m = (if list_is_empty l then Some 0 else count_nodes m (first l) 0)"

section \<open>Size classes\<close>

lemma block_index_loop_least:
  "index \<le> n \<Longrightarrow> sz \<le> 2 ^ n \<Longrightarrow> (\<forall>i. index \<le> i \<and> i < n \<longrightarrow> 2 ^ i < sz) \<Longrightarrow> block_index_loop sz index = n"
proof (induction sz index rule: block_index_loop.induct)
  case (1 sz index)
  show ?case
  proof (cases "index = n")
    case True
    then show ?thesis using "1.prems" by (simp add: block_index_loop.simps)
  next
    case False
    then have "2 ^ index < sz" using "1.prems"(1,3) by auto
    then show ?thesis using 1 False by (subst block_index_loop.simps) auto
  qed
qed

lemma block_index_loop_eq:
  assumes "sz \<le> 2 ^ n" "n = 0 \<or> 2 ^ (n - 1) < sz"
  shows "block_index_loop sz 0 = n"
proof (rule block_index_loop_least)
  show "\<forall>i. 0 \<le> i \<and> i < n \<longrightarrow> 2 ^ i < sz"
  proof (intro allI impI, elim conjE)
    fix i assume "i < n"
    then have "(2::nat) ^ i \<le> 2 ^ (n - 1)" by (intro power_increasing) auto
    moreover have "2 ^ (n - 1) < sz" using assms(2) \<open>i < n\<close> by simp
    ultimately show "2 ^ i < sz" by (rule le_less_trans)
  qed
qed (use assms in simp_all)

section \<open>Fields of nodes\<close>

text \<open>Writes and reads at offsets from a base address.\<close>

lemma write_at_offset:
  assumes "i + length bs \<le> 2 ^ 64"
  shows "write_bytes m (a + of_nat i) bs x =
    (if i \<le> unat (x - a) \<and> unat (x - a) < i + length bs then bs ! (unat (x - a) - i) else m x)"
proof (cases "length bs = 0")
  case True
  then show ?thesis by (auto simp: write_bytes_def)
next
  case False
  then have i: "unat (of_nat i :: u64) = i"
    unfolding unat_of_nat using assms by (intro mod_less) (cases bs; simp)
  have e: "x - (a + of_nat i) = (x - a) - of_nat i" by simp
  show ?thesis
  proof (cases "i \<le> unat (x - a)")
    case True
    then have "unat (x - (a + of_nat i)) = unat (x - a) - i"
      unfolding e using i by (simp add: unat_sub word_le_nat_alt)
    then show ?thesis using True by (auto simp: write_bytes_def)
  next
    case lt: False
    then have "unat (x - (a + of_nat i)) = 2 ^ 64 + unat (x - a) - i"
      unfolding e using i by (simp add: unat_sub_if_size word_size word_le_nat_alt)
    then have "\<not> unat (x - (a + of_nat i)) < length bs" using assms by simp
    then show ?thesis using lt by (simp add: write_bytes_def)
  qed
qed

lemma read_write_apart:
  assumes "i + length bs \<le> 2 ^ 64" "j + n \<le> 2 ^ 64" "i + length bs \<le> j \<or> j + n \<le> i"
  shows "read_bytes (write_bytes m (a + of_nat i) bs) (a + of_nat j) n = read_bytes m (a + of_nat j) n"
proof (rule nth_equalityI)
  fix k assume "k < length (read_bytes (write_bytes m (a + of_nat i) bs) (a + of_nat j) n)"
  then have k: "k < n" by simp
  have "unat (of_nat (j + k) :: u64) = j + k"
    unfolding unat_of_nat using k assms(2) by (intro mod_less) simp
  moreover have "a + of_nat j + of_nat k - a = (of_nat (j + k) :: u64)" by simp
  ultimately have "unat (a + of_nat j + of_nat k - a) = j + k" by (simp only:)
  then have "write_bytes m (a + of_nat i) bs (a + of_nat j + of_nat k) = m (a + of_nat j + of_nat k)"
    using k assms by (auto simp: write_at_offset)
  then show "read_bytes (write_bytes m (a + of_nat i) bs) (a + of_nat j) n ! k = read_bytes m (a + of_nat j) n ! k"
    using k by (simp add: nth_read_bytes)
qed simp

lemma ld_apart:
  assumes "i + 8 \<le> 2 ^ 64" "j + 8 \<le> 2 ^ 64"
  shows "i + 8 \<le> j \<or> j + 8 \<le> i \<Longrightarrow> ld64 (st64 m (a + of_nat i) w) (a + of_nat j) = ld64 m (a + of_nat j)"
    and "i + 4 \<le> j \<or> j + 8 \<le> i \<Longrightarrow> ld64 (st32 m (a + of_nat i) v) (a + of_nat j) = ld64 m (a + of_nat j)"
    and "i + 8 \<le> j \<or> j + 4 \<le> i \<Longrightarrow> ld32 (st64 m (a + of_nat i) w) (a + of_nat j) = ld32 m (a + of_nat j)"
  using read_write_apart [of i "le_bytes w" j 8 m a] read_write_apart [of i "take 4 (le_bytes (ucast v))" j 8 m a]
    read_write_apart [of i "le_bytes w" j 4 m a] assms
  by (simp_all add: ld64_def st64_def st32_def ld32_def)

lemma ld_cong:
  assumes "\<forall>k<n. m (p + of_nat k) = m' (p + of_nat k)"
  shows "8 \<le> n \<Longrightarrow> ld64 m p = ld64 m' p" "4 \<le> n \<Longrightarrow> ld32 m p = ld32 m' p"
proof -
  have "read_bytes m p i = read_bytes m' p i" if "i \<le> n" for i using assms that by (simp add: read_bytes_def)
  then show "8 \<le> n \<Longrightarrow> ld64 m p = ld64 m' p" "4 \<le> n \<Longrightarrow> ld32 m p = ld32 m' p"
    by (simp_all add: ld64_def ld32_def)
qed

lemma of_le_bytes_low: "ucast (of_le_bytes (take 4 (le_bytes (ucast (w :: u32))))) = w"
proof -
  have "(ucast (drop_bit k (ucast w :: u64)) :: byte) = 0" if "32 \<le> k" for k
    using that by (intro bit_word_eqI) (auto simp: bit_simps dest: bit_imp_le_length)
  then have "of_le_bytes (le_bytes (ucast w)) = of_le_bytes (take 4 (le_bytes (ucast w)))"
    by (simp add: le_bytes_def upt_8 of_le_bytes_def)
  moreover have "ucast (ucast w :: u64) = w" by (rule bit_word_eqI) (auto simp: bit_simps)
  ultimately show ?thesis by simp
qed

lemma ld32_st32: "ld32 (st32 m a w) a = w"
  using read_write_bytes [of "take 4 (le_bytes (ucast w))" m a] of_le_bytes_low
  by (simp add: ld32_def st32_def)

section \<open>A fresh chain\<close>

text \<open>The fields of the node at offset \<open>off\<close> from the start of a mapping.\<close>

definition node_at :: "mem \<Rightarrow> addr \<Rightarrow> nat \<Rightarrow> nat \<Rightarrow> addr \<Rightarrow> bool" where
  "node_at m a off block nxt \<longleftrightarrow>
     ld32 m (a + of_nat off) = of_nat block \<and> node_next m (a + of_nat off) = nxt
     \<and> node_usable_space m (a + of_nat off) = a + of_nat off + 12"

lemma offset_simps:
  "a + of_nat off + 8 = (a + of_nat (off + 8) :: addr)" "a + of_nat off + 16 = (a + of_nat (off + 16) :: addr)"
  by simp_all

lemma st_outside:
  assumes "i + 8 \<le> MMAP_BLOCK_SIZE" "\<not> (i \<le> unat (x - a) \<and> unat (x - a) < i + 8)"
  shows "st64 m (a + of_nat i) w x = m x" "st32 m (a + of_nat i) v x = m x"
  using assms write_at_offset [of i "le_bytes w" m a x] write_at_offset [of i "take 4 (le_bytes (ucast v))" m a x]
  by (auto simp: st64_def st32_def MMAP_BLOCK_SIZE_def)

lemma link_node_frame:
  assumes "off + 24 \<le> MMAP_BLOCK_SIZE" "off + (block + 12) + 16 \<le> MMAP_BLOCK_SIZE"
    and "unat (x - a) < off \<or> MMAP_BLOCK_SIZE \<le> unat (x - a)"
  shows "link_node block a off m x = m x"
proof -
  have st: "st64 q (a + of_nat i) w x = q x" "st32 q (a + of_nat i) v x = q x"
    if "off \<le> i" "i + 8 \<le> MMAP_BLOCK_SIZE" for q i w v
    using that assms(3) by (auto intro!: st_outside)
  show ?thesis
    using assms(1,2) unfolding link_node_def Let_def offset_simps by (simp add: st del: of_nat_add)
qed

lemma link_node_node:
  assumes "12 \<le> block" "off + (block + 12) + 16 \<le> MMAP_BLOCK_SIZE"
  shows "node_at (link_node block a off m) a off block
    (if off + (block + 12) + (block + 12) > MMAP_BLOCK_SIZE then 0 else a + of_nat (off + (block + 12)))"
proof -
  have "off + 24 \<le> off + (block + 12)" using assms(1) by simp
  then show ?thesis
    using assms unfolding node_at_def link_node_def Let_def offset_simps MMAP_BLOCK_SIZE_def
    by (auto simp: ld_apart ld64_st64_same ld32_st32 simp del: of_nat_add)
qed

lemma chain_nodes_frame:
  "chain_nodes block a off m = Inr m' \<Longrightarrow> unat (x - a) < off \<or> MMAP_BLOCK_SIZE \<le> unat (x - a) \<Longrightarrow> m' x = m x"
proof (induction block a off m rule: chain_nodes.induct)
  case (1 block a off m)
  then show ?case
    using link_node_frame [of off block x a m]
    by (subst (asm) chain_nodes.simps) (auto simp: Let_def split: if_splits)
qed

text \<open>Every node that fits is made, and the last one ends the chain.\<close>

lemma node_at_frame:
  assumes "node_at m a off block nxt" "\<forall>x. unat (x - a) < off + 24 \<longrightarrow> m' x = m x" "off + 24 \<le> MMAP_BLOCK_SIZE"
  shows "node_at m' a off block nxt"
proof -
  have "unat (a + of_nat (off + i) + of_nat k - a) < off + 24" if "i + k < 24" for i k
  proof -
    have "a + of_nat (off + i) + of_nat k - a = (of_nat (off + i + k) :: addr)" by simp
    moreover have "unat (of_nat (off + i + k) :: addr) = off + i + k"
      unfolding unat_of_nat using that assms(3) by (intro mod_less) (simp add: MMAP_BLOCK_SIZE_def)
    ultimately show ?thesis using that by (simp only:)
  qed
  then have eq: "\<forall>k<8. m' (a + of_nat (off + i) + of_nat k) = m (a + of_nat (off + i) + of_nat k)" if "i \<le> 16" for i
    using that assms(2) by auto
  show ?thesis
    using assms(1) ld_cong [OF eq [of 0]] ld_cong [OF eq [of 8]] ld_cong [OF eq [of 16]]
    unfolding node_at_def offset_simps by (simp del: of_nat_add)
qed

lemma chain_nodes_ok:
  assumes "12 \<le> block" "\<forall>j. j * (block + 12) < MMAP_BLOCK_SIZE \<longrightarrow> j * (block + 12) + 16 \<le> MMAP_BLOCK_SIZE"
  shows "off = k * (block + 12) \<Longrightarrow> \<exists>m'. chain_nodes block a off m = Inr m'
    \<and> (\<forall>j. k \<le> j \<and> (j + 1) * (block + 12) < MMAP_BLOCK_SIZE \<longrightarrow>
         node_at m' a (j * (block + 12)) block
           (if (j + 2) * (block + 12) > MMAP_BLOCK_SIZE then 0 else a + of_nat ((j + 1) * (block + 12))))"
proof (induction "MMAP_BLOCK_SIZE - off" arbitrary: off k m rule: less_induct)
  case less
  let ?E = "block + 12"
  show ?case
  proof (cases "off + ?E < MMAP_BLOCK_SIZE")
    case False
    then have "chain_nodes block a off m = Inr m" by (subst chain_nodes.simps) simp
    moreover have "\<not> (k \<le> j \<and> (j + 1) * ?E < MMAP_BLOCK_SIZE)" for j
    proof
      assume j: "k \<le> j \<and> (j + 1) * ?E < MMAP_BLOCK_SIZE"
      then have "k * ?E \<le> j * ?E" by (intro mult_right_mono) simp_all
      moreover have "(j + 1) * ?E = j * ?E + ?E" by simp
      ultimately show False using j False less.prems by linarith
    qed
    ultimately show ?thesis by blast
  next
    case True
    let ?m = "link_node block a off m"
    have off: "(k + 1) * ?E = off + ?E" using less.prems by simp
    have fit: "off + 24 \<le> MMAP_BLOCK_SIZE" "off + ?E + 16 \<le> MMAP_BLOCK_SIZE"
      using assms(1) spec [OF assms(2), of "k + 1"] True unfolding off by simp_all
    have sm: "MMAP_BLOCK_SIZE - (off + ?E) < MMAP_BLOCK_SIZE - off" using True by simp
    obtain m' where m': "chain_nodes block a (off + ?E) ?m = Inr m'"
        "\<forall>j. k + 1 \<le> j \<and> (j + 1) * ?E < MMAP_BLOCK_SIZE \<longrightarrow>
           node_at m' a (j * ?E) block (if (j + 2) * ?E > MMAP_BLOCK_SIZE then 0 else a + of_nat ((j + 1) * ?E))"
      using less.hyps [of "off + ?E" "k + 1" ?m] sm off by metis
    have c: "chain_nodes block a off m = Inr m'"
      using True fit m'(1) by (subst chain_nodes.simps) simp
    have "node_at m' a off block (if off + ?E + ?E > MMAP_BLOCK_SIZE then 0 else a + of_nat (off + ?E))"
    proof (rule node_at_frame [OF link_node_node [OF assms(1) fit(2)] _ fit(1)])
      show "\<forall>x. unat (x - a) < off + 24 \<longrightarrow> m' x = link_node block a off m x"
        using chain_nodes_frame [OF m'(1)] assms(1) by auto
    qed
    moreover have off2: "(k + 2) * ?E = off + ?E + ?E" using less.prems by simp
    ultimately have "node_at m' a (k * ?E) block (if (k + 2) * ?E > MMAP_BLOCK_SIZE then 0 else a + of_nat ((k + 1) * ?E))"
      unfolding off off2 by (simp only: less.prems)
    then show ?thesis using c m'(2) by (metis Suc_eq_plus1 le_antisym not_less_eq_eq)
  qed
qed

section \<open>Chains\<close>

text \<open>The nodes a chain visits.\<close>

fun free_nodes :: "mem \<Rightarrow> addr \<Rightarrow> addr list \<Rightarrow> bool" where
  "free_nodes m p [] \<longleftrightarrow> p = 0"
| "free_nodes m p (x # xs) \<longleftrightarrow> p = x \<and> x \<noteq> 0 \<and> free_nodes m (node_next m x) xs"

lemma count_nodes_ok: "free_nodes m p xs \<Longrightarrow> count_nodes m p n = Some (n + length xs)"
  by (induction xs arbitrary: p n) (simp_all add: count_nodes.simps)

lemma last_node_ok: "free_nodes m p xs \<Longrightarrow> xs \<noteq> [] \<Longrightarrow> last_node m p = Some (last xs)"
proof (induction xs arbitrary: p)
  case (Cons x xs)
  then show ?case by (cases xs) (simp_all add: last_node.simps)
qed simp

lemma free_nodes_cong:
  "\<forall>x\<in>set xs. node_next m' x = node_next m x \<Longrightarrow> free_nodes m' p xs \<longleftrightarrow> free_nodes m p xs"
  by (induction xs arbitrary: p) auto

lemma free_nodes_snoc:
  "free_nodes m p xs \<Longrightarrow> xs \<noteq> [] \<Longrightarrow> y \<noteq> 0 \<Longrightarrow> node_next m' y = 0 \<Longrightarrow> node_next m' (last xs) = y \<Longrightarrow>
   \<forall>x\<in>set (butlast xs). node_next m' x = node_next m x \<Longrightarrow> free_nodes m' p (xs @ [y])"
proof (induction xs arbitrary: p)
  case (Cons x xs)
  then show ?case by (cases xs) auto
qed simp

text \<open>A pool: the free blocks in order, and the blocks handed out. Nodes do not share their fields.\<close>

definition node_ok :: "mem \<Rightarrow> nat \<Rightarrow> addr \<Rightarrow> bool" where
  "node_ok m block x \<longleftrightarrow> x \<noteq> 0 \<and> ld32 m x = of_nat block \<and> node_usable_space m x = x + 12"

definition nodes_apart :: "addr \<Rightarrow> addr \<Rightarrow> bool" where
  "nodes_apart x y \<longleftrightarrow> 24 \<le> unat (x - y) \<and> 24 \<le> unat (y - x)"

definition pool :: "memory_node_list \<times> mem \<Rightarrow> addr list \<Rightarrow> addr set \<Rightarrow> bool" where
  "pool s free held \<longleftrightarrow> (case s of (l, m) \<Rightarrow>
     free_nodes m (first l) free \<and> distinct free \<and> set free \<inter> held = {}
     \<and> (\<forall>x\<in>set free \<union> held. node_ok m (block_size l) x)
     \<and> (\<forall>x\<in>set free \<union> held. \<forall>y\<in>set free \<union> held. x \<noteq> y \<longrightarrow> nodes_apart x y))"

definition pop_node :: "memory_node_list \<times> mem \<Rightarrow> (addr \<times> memory_node_list \<times> mem) result" where
  "pop_node s = (case s of (l, m) \<Rightarrow> and_then (pop_memory_block l m) (\<lambda>(p, l'). Inr (p, l', m)))"

definition push_node :: "addr \<Rightarrow> memory_node_list \<times> mem \<Rightarrow> (memory_node_list \<times> mem) option" where
  "push_node p s = (case s of (l, m) \<Rightarrow> push_block l p m)"

lemma pool_pop:
  assumes "pool s (x # xs) held"
  shows "\<exists>s'. pop_node s = Inr (x + 12, s') \<and> pool s' xs (insert x held)"
  using assms
  by (cases s) (auto simp: pool_def pop_node_def pop_memory_block_def node_ok_def)

lemma ld_next_update:
  assumes "x = y \<or> nodes_apart x y"
  shows "ld32 (st64 m (y + 8) w) x = ld32 m x" "node_usable_space (st64 m (y + 8) w) x = node_usable_space m x"
    "x \<noteq> y \<Longrightarrow> node_next (st64 m (y + 8) w) x = node_next m x"
proof -
  let ?d = "unat (x - y)"
  have x: "x + of_nat i = y + of_nat (?d + i)" for i by simp
  have d: "?d = 0 \<or> 24 \<le> ?d" "?d + 24 \<le> 2 ^ 64"
  proof -
    show "?d = 0 \<or> 24 \<le> ?d" using assms by (auto simp: nodes_apart_def)
    show "?d + 24 \<le> 2 ^ 64"
    proof (cases "x = y")
      case False
      then show ?thesis using assms unat_lt64 [of x] unat_lt64 [of y]
        by (auto simp: nodes_apart_def unat_sub_if_size word_size split: if_splits)
    qed simp
  qed
  have r: "read_bytes (st64 m (y + 8) w) (x + of_nat i) n = read_bytes m (x + of_nat i) n"
    if "i + n \<le> 24" "?d = 0 \<longrightarrow> i + n \<le> 8 \<or> 16 \<le> i" for i n
    using read_write_apart [of 8 "le_bytes w" "?d + i" n m y] that d unfolding x st64_def by auto
  show "ld32 (st64 m (y + 8) w) x = ld32 m x" using r [of 0 4] by (simp add: ld32_def)
  show "node_usable_space (st64 m (y + 8) w) x = node_usable_space m x" using r [of 16 8] by (simp add: ld64_def)
  show "node_next (st64 m (y + 8) w) x = node_next m x" if "x \<noteq> y"
    using r [of 8 8] that by (simp add: ld64_def unat_eq_zero)
qed

lemma pool_push:
  assumes "pool s xs held" "y \<in> held"
  shows "\<exists>s'. push_node (y + 12) s = Some s' \<and> pool s' (xs @ [y]) (held - {y})"
proof -
  obtain l m where s: "s = (l, m)" by (cases s)
  let ?A = "set xs \<union> held"
  have p: "free_nodes m (first l) xs" "distinct xs" "y \<notin> set xs" "set xs \<inter> held = {}"
      "\<forall>x\<in>?A. node_ok m (block_size l) x" "\<forall>x\<in>?A. \<forall>y\<in>?A. x \<noteq> y \<longrightarrow> nodes_apart x y"
    using assms unfolding pool_def s by auto
  have A: "set (xs @ [y]) \<union> (held - {y}) = ?A" using assms(2) by auto
  have y0: "y \<noteq> 0" using p(5) assms(2) by (auto simp: node_ok_def)
  have keep: "node_ok (st64 q (z + 8) w) (block_size l) x"
    if "node_ok q (block_size l) x" "x \<in> ?A" "z \<in> ?A" for q x z w
    using that p(6) ld_next_update [of x z q w] by (auto simp: node_ok_def)
  have other: "node_next (st64 q (z + 8) w) x = node_next q x" if "x \<in> ?A" "z \<in> ?A" "x \<noteq> z" for q x z w
    using that p(6) ld_next_update(3) [of x z q w] by auto
  show ?thesis
  proof (cases "xs = []")
    case True
    let ?m = "st64 m (y + 8) 0"
    have "push_node (y + 12) s = Some (l\<lparr>first := y\<rparr>, ?m)"
      using True p(1) by (simp add: push_node_def push_block_def list_is_empty_def s)
    moreover have "pool (l\<lparr>first := y\<rparr>, ?m) (xs @ [y]) (held - {y})"
      unfolding pool_def A using True y0 p keep assms(2) by (auto simp: ld64_st64_same)
    ultimately show ?thesis by blast
  next
    case False
    let ?z = "last xs"
    let ?m1 = "st64 m (?z + 8) y" and ?m = "st64 (st64 m (last xs + 8) y) (y + 8) 0"
    have z: "?z \<in> set xs" "?z \<noteq> y" using False p(3) last_in_set by blast+
    have f: "first l \<noteq> 0" using False p(1) by (cases xs) auto
    have "push_node (y + 12) s = Some (l, ?m)"
      using f last_node_ok [OF p(1) False] by (simp add: push_node_def push_block_def list_is_empty_def s)
    moreover have "free_nodes ?m (first l) (xs @ [y])"
    proof (rule free_nodes_snoc [OF p(1) False y0])
      show "node_next ?m (last xs) = y" using z assms(2) other [of ?z y ?m1 0] by (simp add: ld64_st64_same)
      show "\<forall>x\<in>set (butlast xs). node_next ?m x = node_next m x"
      proof
        fix x assume x: "x \<in> set (butlast xs)"
        have "distinct (butlast xs @ [last xs])" using p(2) False by simp
        then have "x \<in> set xs" "x \<noteq> ?z" "x \<noteq> y"
          using x p(3) by (auto dest: in_set_butlastD)
        then show "node_next ?m x = node_next m x"
          using z assms(2) other [of x y ?m1 0] other [of x ?z m y] by simp
      qed
    qed (simp add: ld64_st64_same)
    moreover have "\<forall>x\<in>?A. node_ok ?m (block_size l) x" using p(5) keep z(1) assms(2) by blast
    ultimately show ?thesis unfolding pool_def A using p by auto
  qed
qed

section \<open>The contract of a free list\<close>

text \<open>Taking and returning several blocks.\<close>

fun take_blocks :: "('s \<Rightarrow> ('p \<times> 's) result) \<Rightarrow> nat \<Rightarrow> 's \<Rightarrow> ('p list \<times> 's) result" where
  "take_blocks pop 0 s = Inr ([], s)"
| "take_blocks pop (Suc n) s =
     and_then (pop s) (\<lambda>(p, s'). and_then (take_blocks pop n s') (\<lambda>(ps, s''). Inr (p # ps, s'')))"

fun return_blocks :: "('p \<Rightarrow> 's \<Rightarrow> 's option) \<Rightarrow> 'p list \<Rightarrow> 's \<Rightarrow> 's option" where
  "return_blocks push [] s = Some s"
| "return_blocks push (p # ps) s = Option.bind (push p s) (return_blocks push ps)"

locale block_pool =
  fixes rep :: "'s \<Rightarrow> 'b list \<Rightarrow> 'b set \<Rightarrow> bool"
    and ptr :: "'b \<Rightarrow> 'p"
    and pop :: "'s \<Rightarrow> ('p \<times> 's) result"
    and push :: "'p \<Rightarrow> 's \<Rightarrow> 's option"
  assumes pop_law: "rep s (x # xs) held \<Longrightarrow> \<exists>s'. pop s = Inr (ptr x, s') \<and> rep s' xs (insert x held)"
    and push_law: "rep s xs held \<Longrightarrow> y \<in> held \<Longrightarrow> \<exists>s'. push (ptr y) s = Some s' \<and> rep s' (xs @ [y]) (held - {y})"
begin

lemma take_law:
  "rep s (xs @ ys) held \<Longrightarrow> \<exists>s'. take_blocks pop (length xs) s = Inr (map ptr xs, s') \<and> rep s' ys (held \<union> set xs)"
proof (induction xs arbitrary: s held)
  case (Cons x xs)
  then obtain s1 where s1: "pop s = Inr (ptr x, s1)" "rep s1 (xs @ ys) (insert x held)"
    using pop_law [of s x "xs @ ys" held] by auto
  then obtain s' where "take_blocks pop (length xs) s1 = Inr (map ptr xs, s')" "rep s' ys (insert x held \<union> set xs)"
    using Cons.IH by blast
  then show ?case using s1(1) by simp
qed simp

lemma return_law:
  "rep s xs held \<Longrightarrow> distinct ys \<Longrightarrow> set ys \<subseteq> held \<Longrightarrow>
   \<exists>s'. return_blocks push (map ptr ys) s = Some s' \<and> rep s' (xs @ ys) (held - set ys)"
proof (induction ys arbitrary: s xs held)
  case (Cons y ys)
  then obtain s1 where s1: "push (ptr y) s = Some s1" "rep s1 (xs @ [y]) (held - {y})"
    using push_law [of s xs held y] by auto
  then obtain s' where "return_blocks push (map ptr ys) s1 = Some s'" "rep s' ((xs @ [y]) @ ys) (held - {y} - set ys)"
    using Cons.IH [of s1 "xs @ [y]" "held - {y}"] Cons.prems(2,3) by auto
  moreover have "held - {y} - set ys = held - set (y # ys)" by auto
  ultimately show ?case using s1(1) by simp
qed simp

text \<open>A drained pool can be refilled in any order, and hands the blocks out in that order again.\<close>

lemma drain_and_refill:
  assumes "rep s xs held" "distinct ys" "set ys = set xs" "length ys = length xs" "set xs \<inter> held = {}"
  shows "\<exists>s1 s2 s3. take_blocks pop (length xs) s = Inr (map ptr xs, s1) \<and> return_blocks push (map ptr ys) s1 = Some s2
    \<and> rep s2 ys held \<and> take_blocks pop (length ys) s2 = Inr (map ptr ys, s3)"
proof -
  obtain s1 where s1: "take_blocks pop (length xs) s = Inr (map ptr xs, s1)" "rep s1 [] (held \<union> set xs)"
    using take_law [of s xs "[]"] assms(1) by auto
  obtain s2 where s2: "return_blocks push (map ptr ys) s1 = Some s2" "rep s2 ([] @ ys) (held \<union> set xs - set ys)"
    using return_law [OF s1(2) assms(2)] assms(3) by auto
  moreover have "held \<union> set xs - set ys = held" using assms(3,5) by auto
  ultimately have r: "rep s2 ys held" by simp
  then show ?thesis using s1(1) s2(1) take_law [of s2 ys "[]"] by auto
qed

end

interpretation tap: block_pool pool "\<lambda>x. x + 12" pop_node push_node
  by unfold_locales (rule pool_pop pool_push; assumption)+

section \<open>A fresh list is a pool\<close>

definition fresh_nodes :: "addr \<Rightarrow> nat \<Rightarrow> addr list" where
  "fresh_nodes a block = map (\<lambda>j. a + of_nat (j * (block + 12))) [0..<65535 div (block + 12)]"

text \<open>The size classes whose entries are chained properly: 16 to 16384 bytes.\<close>

definition good_class :: "nat \<Rightarrow> bool" where
  "good_class block \<longleftrightarrow> (\<exists>i. 4 \<le> i \<and> i \<le> 14 \<and> block = 2 ^ i)"

lemma good_class_cases:
  assumes "good_class block"
  shows "block \<in> {16, 32, 64, 128, 256, 512, 1024, 2048, 4096, 8192, 16384}"
proof -
  have "block \<in> (\<lambda>i. 2 ^ i) ` {4..14}" using assms by (auto simp: good_class_def)
  also have "{4..14} = set [4..<15 :: nat]" by (simp only: set_upt) force
  finally show ?thesis by (simp add: upt_rec)
qed

lemma good_class_fits:
  assumes "good_class block"
  shows "12 \<le> block" "2 \<le> 65535 div (block + 12)"
    "j * (block + 12) < MMAP_BLOCK_SIZE \<Longrightarrow> j * (block + 12) + 16 \<le> MMAP_BLOCK_SIZE"
    "\<not> (block + 12) dvd MMAP_BLOCK_SIZE"
proof -
  note cases = good_class_cases [OF assms, unfolded insert_iff empty_iff]
  show "12 \<le> block" "2 \<le> 65535 div (block + 12)" "\<not> (block + 12) dvd MMAP_BLOCK_SIZE"
    using cases by (auto simp: MMAP_BLOCK_SIZE_def)
  have top: "65535 div (block + 12) * (block + 12) + 16 \<le> MMAP_BLOCK_SIZE"
    using cases by (auto simp: MMAP_BLOCK_SIZE_def)
  show "j * (block + 12) + 16 \<le> MMAP_BLOCK_SIZE" if "j * (block + 12) < MMAP_BLOCK_SIZE"
  proof -
    have "j \<le> 65535 div (block + 12)" using that by (simp add: less_eq_div_iff_mult_less_eq MMAP_BLOCK_SIZE_def)
    then have "j * (block + 12) \<le> 65535 div (block + 12) * (block + 12)" by (rule mult_right_mono) simp
    with top show ?thesis by linarith
  qed
qed

lemma node_at_ok: "node_at m a off block nxt \<Longrightarrow> a + of_nat off \<noteq> 0 \<Longrightarrow> node_ok m block (a + of_nat off)"
  by (simp add: node_at_def node_ok_def)

lemma first_entry_node: "node_at (first_entry block a m) a 0 block (a + of_nat (12 + block))"
proof -
  have "a + 8 = a + of_nat 8" "a + 16 = a + of_nat 16" by simp_all
  then show ?thesis
    using ld_apart [of 8 0 _ a] ld_apart [of 16 0 _ a] ld_apart [of 16 8 _ a]
    by (auto simp: first_entry_def Let_def node_at_def ld64_st64_same ld32_st32 simp del: of_nat_numeral of_nat_add)
qed

lemma first_entry_frame: "MMAP_BLOCK_SIZE \<le> unat (x - a) \<Longrightarrow> first_entry block a m x = m x"
  using st_outside [of 0 x a] st_outside [of 8 x a] st_outside [of 16 x a]
  by (simp add: first_entry_def Let_def write_bytes_def in_range_def MMAP_BLOCK_SIZE_def)

lemma first_entry_rest:
  assumes "24 \<le> i" "i + 8 \<le> MMAP_BLOCK_SIZE"
  shows "ld64 (first_entry block a m) (a + of_nat i) = 0"
proof -
  let ?m0 = "\<lambda>x. if in_range a MMAP_BLOCK_SIZE x then 0 else m x"
  have a: "a + 8 = a + of_nat 8" "a + 16 = a + of_nat 16" by simp_all
  have i: "i + 8 \<le> 2 ^ 64" using assms(2) by (simp add: MMAP_BLOCK_SIZE_def)
  have "a + of_nat i + of_nat k - a = (of_nat (i + k) :: addr)" for k by simp
  moreover have "unat (of_nat (i + k) :: addr) < MMAP_BLOCK_SIZE" if "k < 8" for k
    unfolding unat_of_nat using that assms(2) by (auto intro: le_less_trans [OF mod_less_eq_dividend])
  ultimately have "in_range a MMAP_BLOCK_SIZE (a + of_nat i + of_nat k)" if "k < 8" for k
    unfolding in_range_def using that by (simp only:)
  then have "read_bytes ?m0 (a + of_nat i) 8 = replicate 8 0"
    unfolding read_bytes_def by (intro nth_equalityI) simp_all
  moreover have "of_le_bytes (replicate 8 0) = 0" by (simp add: of_le_bytes_def numeral_eq_Suc)
  ultimately have "ld64 ?m0 (a + of_nat i) = 0" by (simp add: ld64_def)
  moreover have "ld64 (write_bytes ?m0 (a + of_nat 0) [97, 98, 99, 0]) (a + of_nat i) = ld64 ?m0 (a + of_nat i)"
    unfolding ld64_def using i assms(1) by (subst read_write_apart) simp_all
  ultimately show ?thesis
    using assms(1) i ld_apart(1) [of 8 i _ a] ld_apart(1) [of 16 i _ a] ld_apart(2) [of 0 i _ a]
    unfolding first_entry_def Let_def a by (simp del: of_nat_numeral of_nat_add)
qed

lemma chained_nodes:
  assumes "\<forall>j<n. ld64 m (f j + 8) = (if Suc j = n then 0 else f (Suc j))" "\<forall>j<n. f j \<noteq> 0" "k < n"
  shows "free_nodes m (f k) (map f [k..<n])"
  using assms(3)
proof (induction "n - k" arbitrary: k)
  case (Suc d)
  have u: "[k..<n] = k # [Suc k..<n]" using Suc.prems by (simp add: upt_rec)
  show ?case
  proof (cases "Suc k = n")
    case True
    then show ?thesis using assms(1,2) Suc.prems u by simp
  next
    case False
    then have "free_nodes m (f (Suc k)) (map f [Suc k..<n])" using Suc by simp
    then show ?thesis using assms(1,2) Suc.prems u False by simp
  qed
qed simp

lemma offset_diff:
  assumes "i \<le> MMAP_BLOCK_SIZE" "j \<le> MMAP_BLOCK_SIZE"
  shows "unat (a + of_nat i - (a + of_nat j) :: addr) = (if j \<le> i then i - j else i + 2 ^ 64 - j)"
proof -
  have "unat (of_nat i :: addr) = i" "unat (of_nat j :: addr) = j"
    using assms by (simp_all add: unat_of_nat MMAP_BLOCK_SIZE_def)
  then show ?thesis by (simp add: unat_sub_if_size word_size)
qed

lemma offset_nonzero:
  assumes "a \<noteq> 0" "unat a + MMAP_BLOCK_SIZE \<le> 2 ^ 64" "i < MMAP_BLOCK_SIZE"
  shows "a + of_nat i \<noteq> (0 :: addr)"
proof
  assume "a + of_nat i = 0"
  moreover have "unat (a + of_nat i) = unat a + i"
    using assms(2,3) by (simp add: unat_word_ariths unat_of_nat MMAP_BLOCK_SIZE_def)
  ultimately show False using assms(1) by (simp add: unat_eq_zero)
qed

lemma fresh_nodes_apart:
  assumes "12 \<le> block" "i * (block + 12) < MMAP_BLOCK_SIZE" "j * (block + 12) < MMAP_BLOCK_SIZE" "i \<noteq> j"
  shows "nodes_apart (a + of_nat (i * (block + 12))) (a + of_nat (j * (block + 12)))"
proof -
  have step: "v * (block + 12) + 24 \<le> w * (block + 12)" if "v < w" for v w
  proof -
    have "(v + 1) * (block + 12) \<le> w * (block + 12)" using that by (intro mult_right_mono) simp_all
    then show ?thesis using assms(1) by simp
  qed
  have "i < j \<or> j < i" using assms(4) by auto
  then show ?thesis
    unfolding nodes_apart_def
    using offset_diff [of "i * (block + 12)" "j * (block + 12)" a] offset_diff [of "j * (block + 12)" "i * (block + 12)" a]
      step [of i j] step [of j i] assms(2,3) by (auto simp: MMAP_BLOCK_SIZE_def)
qed

lemma node_offset_bounds:
  assumes "good_class block" "j < 65535 div (block + 12)"
  shows "(j + 1) * (block + 12) < MMAP_BLOCK_SIZE" "j * (block + 12) < MMAP_BLOCK_SIZE"
    "(j + 2) * (block + 12) > MMAP_BLOCK_SIZE \<longleftrightarrow> Suc j = 65535 div (block + 12)"
proof -
  let ?E = "block + 12"
  have j: "(j + 1) * ?E \<le> 65535" using assms(2) by (simp add: less_eq_div_iff_mult_less_eq flip: Suc_le_eq)
  then show *: "(j + 1) * ?E < MMAP_BLOCK_SIZE" "j * ?E < MMAP_BLOCK_SIZE"
    by (simp_all add: MMAP_BLOCK_SIZE_def)
  have "(j + 2) * ?E \<noteq> MMAP_BLOCK_SIZE" using good_class_fits(4) [OF assms(1)] by (metis dvd_triv_right)
  moreover have "(j + 2) * ?E \<le> 65535 \<longleftrightarrow> j + 2 \<le> 65535 div ?E" by (simp add: less_eq_div_iff_mult_less_eq)
  ultimately show "(j + 2) * ?E > MMAP_BLOCK_SIZE \<longleftrightarrow> Suc j = 65535 div ?E"
    using assms(2) by (auto simp: MMAP_BLOCK_SIZE_def)
qed

lemma pool_mapI:
  assumes "free_nodes m (first l) (map f [0..<n])" "\<forall>j<n. node_ok m (block_size l) (f j)"
    and "\<forall>i<n. \<forall>j<n. i \<noteq> j \<longrightarrow> nodes_apart (f i) (f j)"
  shows "pool (l, m) (map f [0..<n]) {}"
proof -
  have "inj_on f {0..<n}"
  proof (rule inj_onI)
    fix i j assume "i \<in> {0..<n}" "j \<in> {0..<n}" "f i = f j"
    moreover have "\<not> nodes_apart (f j) (f j)" by (simp add: nodes_apart_def)
    ultimately show "i = j" using assms(3) by (metis atLeastLessThan_iff)
  qed
  then show ?thesis using assms by (simp add: pool_def distinct_map) (metis atLeastLessThan_iff)
qed

lemma fresh_chain:
  assumes "good_class block"
  shows "\<exists>m'. chain_nodes block a (12 + block) (first_entry block a m) = Inr m'
    \<and> (\<forall>x. MMAP_BLOCK_SIZE \<le> unat (x - a) \<longrightarrow> m' x = m x)
    \<and> (\<forall>j<65535 div (block + 12). node_at m' a (j * (block + 12)) block
         (if Suc j = 65535 div (block + 12) then 0 else a + of_nat (Suc j * (block + 12))))"
proof -
  let ?E = "block + 12" and ?n = "65535 div (block + 12)" and ?m = "first_entry block a m"
  note fits = good_class_fits [OF assms] and bounds = node_offset_bounds [OF assms]
  have room: "\<forall>j. j * ?E < MMAP_BLOCK_SIZE \<longrightarrow> j * ?E + 16 \<le> MMAP_BLOCK_SIZE" using fits(3) by blast
  obtain m' where m': "chain_nodes block a ?E ?m = Inr m'"
      "\<forall>j. 1 \<le> j \<and> (j + 1) * ?E < MMAP_BLOCK_SIZE \<longrightarrow>
         node_at m' a (j * ?E) block (if (j + 2) * ?E > MMAP_BLOCK_SIZE then 0 else a + of_nat ((j + 1) * ?E))"
    using chain_nodes_ok [OF fits(1) room, of ?E 1 a ?m] by auto
  have first: "node_at m' a 0 block (a + of_nat (12 + block))"
    using node_at_frame [OF first_entry_node, of a m' block m] chain_nodes_frame [OF m'(1)] fits(1)
    by (simp add: MMAP_BLOCK_SIZE_def)
  have "node_at m' a (j * ?E) block (if Suc j = ?n then 0 else a + of_nat (Suc j * ?E))" if j: "j < ?n" for j
  proof (cases "j = 0")
    case True
    then show ?thesis using first fits(2) by (simp add: add.commute)
  next
    case False
    then have "1 \<le> j \<and> (j + 1) * ?E < MMAP_BLOCK_SIZE" using bounds(1) [OF j] by simp
    from mp [OF spec [OF m'(2)] this] show ?thesis unfolding bounds(3) [OF j] Suc_eq_plus1 .
  qed
  moreover have "m' x = m x" if "MMAP_BLOCK_SIZE \<le> unat (x - a)" for x
    using chain_nodes_frame [OF m'(1)] first_entry_frame that by simp
  ultimately show ?thesis using m'(1) by (simp add: add.commute)
qed

text \<open>
  A size class of 16 to 16384 bytes that is empty gets a new mapping: the list then holds every entry
  that fits into it, in address order, the blocks lie inside the mapping, and nothing outside changes.
\<close>

lemma fresh_pool:
  assumes "good_class (block_size l)" "a \<noteq> 0" "unat a + MMAP_BLOCK_SIZE \<le> 2 ^ 64"
  shows "\<exists>m'. add_memory_blocks_to_list (Some a) l m = Some (Inr (l\<lparr>first := a\<rparr>, m'))
    \<and> pool (l\<lparr>first := a\<rparr>, m') (fresh_nodes a (block_size l)) {}
    \<and> (\<forall>x\<in>set (fresh_nodes a (block_size l)). unat (x - a) + 12 + block_size l \<le> MMAP_BLOCK_SIZE)
    \<and> (\<forall>x. MMAP_BLOCK_SIZE \<le> unat (x - a) \<longrightarrow> m' x = m x)"
proof -
  let ?b = "block_size l" and ?n = "65535 div (block_size l + 12)"
  let ?f = "\<lambda>j. a + of_nat (j * (?b + 12)) :: addr"
  note fits = good_class_fits [OF assms(1)] and bounds = node_offset_bounds [OF assms(1)]
  obtain m' where m': "chain_nodes ?b a (12 + ?b) (first_entry ?b a m) = Inr m'"
      "\<forall>x. MMAP_BLOCK_SIZE \<le> unat (x - a) \<longrightarrow> m' x = m x"
      "\<forall>j<?n. node_at m' a (j * (?b + 12)) ?b (if Suc j = ?n then 0 else ?f (Suc j))"
    using fresh_chain [OF assms(1), of a m] by blast
  have nz: "\<forall>j<?n. ?f j \<noteq> 0" using offset_nonzero [OF assms(2,3) bounds(2)] by blast
  have "0 < ?n" using fits(2) by linarith
  then have chain: "free_nodes m' a (fresh_nodes a ?b)"
    using chained_nodes [of ?n m' ?f 0] m'(3) nz unfolding fresh_nodes_def node_at_def by simp
  have "pool (l\<lparr>first := a\<rparr>, m') (map ?f [0..<?n]) {}"
  proof (rule pool_mapI)
    show "\<forall>i<?n. \<forall>j<?n. i \<noteq> j \<longrightarrow> nodes_apart (?f i) (?f j)"
      using fresh_nodes_apart [OF fits(1) bounds(2) bounds(2)] by blast
    show "\<forall>j<?n. node_ok m' (block_size (l\<lparr>first := a\<rparr>)) (?f j)"
      using m'(3) nz node_at_ok [of m' a] by (simp del: of_nat_mult of_nat_add) blast
  qed (use chain in \<open>simp add: fresh_nodes_def\<close>)
  then have "pool (l\<lparr>first := a\<rparr>, m') (fresh_nodes a ?b) {}" unfolding fresh_nodes_def .
  moreover have "\<forall>x\<in>set (fresh_nodes a ?b). unat (x - a) + 12 + ?b \<le> MMAP_BLOCK_SIZE"
  proof
    fix x assume "x \<in> set (fresh_nodes a ?b)"
    then obtain j where j: "j < ?n" "x = ?f j" by (auto simp: fresh_nodes_def)
    then have "unat (x - a) = j * (?b + 12)"
      using offset_diff [of "j * (?b + 12)" 0 a] bounds(2) by (simp add: less_imp_le)
    then show "unat (x - a) + 12 + ?b \<le> MMAP_BLOCK_SIZE" using bounds(1) [OF j(1)] by simp
  qed
  moreover have "add_memory_blocks_to_list (Some a) l m = Some (Inr (l\<lparr>first := a\<rparr>, m'))"
    using m'(1) count_nodes_ok [OF chain] by (simp add: add_memory_blocks_to_list_def)
  ultimately show ?thesis using m'(2) by blast
qed

section \<open>Allocating and freeing\<close>

lemma class_index:
  assumes "good_class (2 ^ i)" "2 ^ (i - 1) < sz" "sz \<le> 2 ^ i"
  shows "get_block_index 65536 sz = Inr i" "i < 16"
    "get_block_index 65536 (unat (scast (of_nat (2 ^ i) :: u32) :: u64)) = Inr i"
proof -
  have "unat (scast (of_nat b :: u32) :: u64) = b" if "good_class b" for b
    using good_class_cases [OF that] by (elim insertE emptyE) (simp_all add: unsigned_of_nat)
  then have "unat (scast (of_nat (2 ^ i) :: u32) :: u64) = 2 ^ i" using assms(1) by blast
  moreover obtain k where "4 \<le> k" "k \<le> 14" "(2::nat) ^ i = 2 ^ k" using assms(1) by (auto simp: good_class_def)
  then have i: "4 \<le> i" "i \<le> 14" by simp_all
  moreover have "block_index_loop sz 0 = i" "block_index_loop (2 ^ i) 0 = i"
    using assms(2,3) i(1) by (auto intro!: block_index_loop_eq power_strict_increasing)
  moreover have "(2::nat) ^ i \<le> 2 ^ 14" using i(2) by (intro power_increasing) simp_all
  then have "(2::nat) ^ i < 65536" "sz < 65536" using assms(3) by simp_all
  ultimately show "get_block_index 65536 sz = Inr i" "i < 16"
      "get_block_index 65536 (unat (scast (of_nat (2 ^ i) :: u32) :: u64)) = Inr i"
    using assms(3) by (auto simp: get_block_index_def)
qed

text \<open>
  Allocating a block of a class whose list is not empty takes the first entry, and
  freeing the block right away finds the same class through the size in the node and appends it at
  the end of the list. The other classes are not touched.
\<close>

lemma alloc_then_free:
  assumes "length (pMemoryNodeList ta) = 16" "good_class (2 ^ i)" "2 ^ (i - 1) < sz" "sz \<le> 2 ^ i"
    and "block_size (pMemoryNodeList ta ! i) = 2 ^ i" "pool (pMemoryNodeList ta ! i, m) (x # xs) held"
  shows "\<exists>ta1 ta2 m2. ta_alloc mm 65536 sz ta m = Some (Inr (x + 12, ta1, m))
    \<and> ta_free 65536 (x + 12) ta1 m = Some (Inr (ta2, m2))
    \<and> pool (pMemoryNodeList ta2 ! i, m2) (xs @ [x]) held
    \<and> (\<forall>j. j \<noteq> i \<longrightarrow> pMemoryNodeList ta2 ! j = pMemoryNodeList ta ! j)"
proof -
  let ?l = "pMemoryNodeList ta ! i"
  note idx = class_index [OF assms(2-4)]
  have ne: "\<not> list_is_empty ?l" "x \<notin> held" using assms(6) by (auto simp: pool_def list_is_empty_def)
  obtain l1 where l1: "pop_memory_block ?l m = Inr (x + 12, l1)" "pool (l1, m) xs (insert x held)"
    using pool_pop [OF assms(6)] by (auto simp: pop_node_def and_then_Inr)
  have b1: "block_size l1 = 2 ^ i" using l1(1) assms(5) by (auto simp: pop_memory_block_def split: if_splits)
  obtain l2 m2 where l2: "push_block l1 (x + 12) m = Some (l2, m2)" "pool (l2, m2) (xs @ [x]) (insert x held - {x})"
    using pool_push [OF l1(2), of x] by (auto simp: push_node_def)
  have "ld32 m x = of_nat (2 ^ i)" using l1(2) b1 by (simp add: pool_def node_ok_def)
  then show ?thesis
    using idx l1(1) l2 ne assms(1) by (simp add: ta_alloc_def ta_free_def Let_def)
qed

section \<open>Blocks in use\<close>

text \<open>
  The owners of the blocks write to them. What they must leave alone are the fields of the nodes: the size
  in front of every block, the pointer \<open>usable_space\<close>, which lies over bytes 4 to 11 of the block,
  and the links of the free nodes. The link of a node that is handed out lies over bytes 0 to 3 of its block and
  may be overwritten.
\<close>

definition owners_write :: "addr list \<Rightarrow> addr set \<Rightarrow> memory_node_list \<times> mem \<Rightarrow> memory_node_list \<times> mem \<Rightarrow> bool" where
  "owners_write free held s s' \<longleftrightarrow> fst s' = fst s
     \<and> (\<forall>x\<in>set free \<union> held. ld32 (snd s') x = ld32 (snd s) x \<and> node_usable_space (snd s') x = node_usable_space (snd s) x)
     \<and> (\<forall>x\<in>set free. node_next (snd s') x = node_next (snd s) x)"

lemma pool_write: "pool s xs held \<Longrightarrow> owners_write xs held s s' \<Longrightarrow> pool s' xs held"
  using free_nodes_cong [of xs "snd s'" "snd s" "first (fst s)"]
  by (cases s; cases s') (auto simp: pool_def owners_write_def node_ok_def)

text \<open>
  A block in use: allocations, frees of blocks that are handed out, and writes of the owners, in any order. The free
  nodes and the nodes handed out go along as ghost state.
\<close>

inductive use_step ::
    "(memory_node_list \<times> mem) \<times> addr list \<times> addr set \<Rightarrow> (memory_node_list \<times> mem) \<times> addr list \<times> addr set \<Rightarrow> bool" where
  use_alloc: "pop_node s = Inr (p, s') \<Longrightarrow> use_step (s, xs, held) (s', tl xs, insert (p - 12) held)"
| use_free: "y \<in> held \<Longrightarrow> push_node (y + 12) s = Some s' \<Longrightarrow> use_step (s, xs, held) (s', xs @ [y], held - {y})"
| use_write: "owners_write xs held s s' \<Longrightarrow> use_step (s, xs, held) (s', xs, held)"

definition pool_of :: "addr set \<Rightarrow> (memory_node_list \<times> mem) \<times> addr list \<times> addr set \<Rightarrow> bool" where
  "pool_of nodes u \<longleftrightarrow> (case u of (s, xs, held) \<Rightarrow> pool s xs held \<and> set xs \<union> held = nodes)"

lemma pool_of_step:
  assumes "pool_of nodes u" "use_step u u'"
  shows "pool_of nodes u'"
  using assms(2)
proof (cases rule: use_step.cases)
  case (use_alloc s p s' xs held)
  then have pl: "pool s xs held" "set xs \<union> held = nodes" using assms(1) by (simp_all add: pool_of_def)
  have "xs \<noteq> []"
  proof
    assume "xs = []"
    then have "pop_node s = Inl SegFault" using pl(1) by (cases s) (simp add: pool_def pop_node_def pop_memory_block_def)
    then show False using use_alloc(3) by simp
  qed
  then obtain x zs where xs: "xs = x # zs" by (cases xs) auto
  from pool_pop [OF pl(1) [unfolded xs]] have "p = x + 12" "pool s' zs (insert x held)" using use_alloc(3) by auto
  then show ?thesis using use_alloc(2) pl(2) xs by (auto simp: pool_of_def)
next
  case (use_free y held s s' xs)
  then have "pool s xs held" "set xs \<union> held = nodes" using assms(1) by (simp_all add: pool_of_def)
  with pool_push [of s xs held y] use_free show ?thesis by (auto simp: pool_of_def)
next
  case (use_write xs held s s')
  then show ?thesis using assms(1) pool_write [of s xs held s'] by (auto simp: pool_of_def)
qed

interpretation use: invariant_system "pool_of nodes" use_step "pool_of nodes"
  by unfold_locales (auto intro: pool_of_step)


text \<open>In particular a drained list can be refilled in any order.\<close>

lemma drained_list_refills:
  assumes "pool s xs held" "distinct ys" "set ys = set xs"
  shows "\<exists>s1 s2 s3. take_blocks pop_node (length xs) s = Inr (map (\<lambda>x. x + 12) xs, s1)
    \<and> return_blocks push_node (map (\<lambda>x. x + 12) ys) s1 = Some s2
    \<and> pool s2 ys held \<and> take_blocks pop_node (length ys) s2 = Inr (map (\<lambda>x. x + 12) ys, s3)"
proof -
  have d: "distinct xs" "set xs \<inter> held = {}" using assms(1) by (auto simp: pool_def split: prod.splits)
  then have "length ys = length xs" using assms(2,3) by (metis distinct_card)
  then show ?thesis using tap.drain_and_refill [OF assms(1-3) _ d(2)] by blast
qed

section \<open>What the layout breaks\<close>

text \<open>
  The pointer \<open>usable_space\<close> of a node lies in the block it hands out. If the owner of a
  block stores eight bytes at offset 4 of it and frees it into an empty list, the next allocation
  from this list returns the stored bytes as its pointer.
\<close>

lemma block_contents_become_pointer:
  assumes "first l = 0" "p \<noteq> 12"
  shows "\<exists>l' m'. push_block l p (st64 m (p + 4) w) = Some (l', m') \<and> (\<exists>l''. pop_memory_block l' m' = Inr (w, l''))"
proof -
  have e: "p + 4 = (p - 12) + of_nat 16" "p - 4 = (p - 12) + of_nat 8" by simp_all
  have "ld64 (st64 (st64 m (p + 4) w) (p - 4) 0) (p + 4) = w"
    unfolding e by (subst ld_apart(1)) (simp_all add: ld64_st64_same)
  then show ?thesis using assms by (simp add: push_block_def list_is_empty_def pop_memory_block_def algebra_simps)
qed

text \<open>
  Requests of more than 32768 bytes that pass the assertion of \<open>get_block_index\<close> index one
  past the last list.
\<close>

lemma large_request_out_of_bounds:
  assumes "32768 < sz" "sz < 65536"
  shows "ta_alloc mm (snd initialise_allocator) sz (fst initialise_allocator) m = Some (Inl OutOfBounds)"
proof -
  have "block_index_loop sz 0 = 16" using assms by (intro block_index_loop_eq) simp_all
  then show ?thesis
    using assms by (simp add: ta_alloc_def get_block_index_def initialise_allocator_def MAX_BLOCK_POW_def)
qed

text \<open>
  The class of 32768 bytes has room for one block in a mapping, but its list gets a second
  entry that was never filled in: the second allocation returns a null pointer.
\<close>

lemma second_big_block_is_null:
  assumes "block_size l = 32768" "a \<noteq> 0" "unat a + MMAP_BLOCK_SIZE \<le> 2 ^ 64"
  shows "\<exists>m' l1 l2. add_memory_blocks_to_list (Some a) l m = Some (Inr (l\<lparr>first := a\<rparr>, m'))
    \<and> pop_memory_block (l\<lparr>first := a\<rparr>) m' = Inr (a + 12, l1) \<and> pop_memory_block l1 m' = Inr (0, l2)"
proof -
  let ?m = "first_entry 32768 a m" and ?x = "a + of_nat 32780 :: addr"
  have c: "chain_nodes 32768 a 32780 ?m = Inr ?m" by (subst chain_nodes.simps) (simp add: MMAP_BLOCK_SIZE_def)
  note n = first_entry_node [of 32768 a m, unfolded node_at_def]
  have zero: "node_next ?m ?x = 0" "node_usable_space ?m ?x = 0"
    unfolding offset_simps by (rule first_entry_rest; simp add: MMAP_BLOCK_SIZE_def)+
  have x: "?x \<noteq> 0" using offset_nonzero [OF assms(2,3), of 32780] by (simp add: MMAP_BLOCK_SIZE_def)
  have "free_nodes ?m a [a, ?x]" using n zero(1) assms(2) x by simp
  from count_nodes_ok [OF this] have "add_memory_blocks_to_list (Some a) l m = Some (Inr (l\<lparr>first := a\<rparr>, ?m))"
    using assms(1) c by (simp add: add_memory_blocks_to_list_def)
  then show ?thesis using n zero(2) assms(2) x by (simp add: pop_memory_block_def)
qed

section \<open>Witnesses\<close>

text \<open>The list of 16384-byte blocks of the program's own test.\<close>

definition example_list :: memory_node_list where
  "example_list = \<lparr>block_size = 16384, first = 0\<rparr>"

lemma example_class: "good_class 16384" "good_class (2 ^ 14)"
  unfolding good_class_def by (intro exI [of _ 14], simp)+

lemma example_nodes: "fresh_nodes 4096 16384 = [4096, 20492, 36888]"
  by (simp add: fresh_nodes_def upt_rec)

lemma example_pool:
  "\<exists>m. pool (example_list\<lparr>first := 4096\<rparr>, m) [4096, 20492, 36888] {}"
  using fresh_pool [of example_list 4096 "\<lambda>_. 0"] example_class example_nodes
  by (auto simp: example_list_def MMAP_BLOCK_SIZE_def)


definition example_allocator :: transient_allocator where
  "example_allocator =
     (fst initialise_allocator)\<lparr>pMemoryNodeList :=
        (pMemoryNodeList (fst initialise_allocator))[14 := example_list\<lparr>first := 4096\<rparr>]\<rparr>"

lemma alloc_then_free_witness:
  "\<exists>m ta1 ta2 m2. ta_alloc None 65536 10000 example_allocator m = Some (Inr (4108, ta1, m))
     \<and> ta_free 65536 4108 ta1 m = Some (Inr (ta2, m2))
     \<and> pool (pMemoryNodeList ta2 ! 14, m2) [20492, 36888, 4096] {}"
proof -
  obtain m where m: "pool (example_list\<lparr>first := 4096\<rparr>, m) [4096, 20492, 36888] {}" using example_pool by blast
  have "length (pMemoryNodeList example_allocator) = 16" "pMemoryNodeList example_allocator ! 14 = example_list\<lparr>first := 4096\<rparr>"
    by (simp_all add: example_allocator_def initialise_allocator_def MAX_BLOCK_POW_def)
  then show ?thesis
    using alloc_then_free [of example_allocator 14 10000 m 4096 "[20492, 36888]" "{}" None] m example_class
    by (auto simp: example_list_def)
qed

lemma block_contents_become_pointer_witness:
  "\<exists>l' m'. push_block example_list 4108 (st64 (\<lambda>_. 0) (4108 + 4) 0xdead) = Some (l', m')
     \<and> (\<exists>l''. pop_memory_block l' m' = Inr (0xdead, l''))"
  by (rule block_contents_become_pointer) (simp_all add: example_list_def)

lemma large_request_out_of_bounds_witness:
  "ta_alloc (Some 4096) (snd initialise_allocator) 40000 (fst initialise_allocator) (\<lambda>_. 0) = Some (Inl OutOfBounds)"
  by (rule large_request_out_of_bounds) simp_all

lemma second_big_block_is_null_witness:
  "\<exists>m' l1 l2. add_memory_blocks_to_list (Some 4096) (example_list\<lparr>block_size := 32768\<rparr>) (\<lambda>_. 0)
       = Some (Inr (example_list\<lparr>block_size := 32768, first := 4096\<rparr>, m'))
     \<and> pop_memory_block (example_list\<lparr>block_size := 32768, first := 4096\<rparr>) m' = Inr (4096 + 12, l1)
     \<and> pop_memory_block l1 m' = Inr (0, l2)"
  using second_big_block_is_null [of "example_list\<lparr>block_size := 32768\<rparr>" 4096 "\<lambda>_. 0"]
  by (simp add: example_list_def MMAP_BLOCK_SIZE_def)

end
