(* ===== verification/Startup.thy ===== *)
theory Startup
  imports Address_Space Flat_Combining
begin

text \<open>
  Starting a process: \<open>initialise_mangosteen\<close> and \<open>launch_mangosteen\<close> of
  \<^verbatim>\<open>mangosteen_instrumentation.c\<close>, \<open>start_front_end\<close>, \<open>start_worker_threads\<close> and
  \<open>mangosteen_initialize_thread\<close> of \<^verbatim>\<open>front-end/front_end.c\<close>, \<open>start_back_end\<close> of
  \<^verbatim>\<open>back-end/back_end.c\<close> and the dispatch of \<open>dr_client_main\<close>. After the fork the two processes share
  the ring buffer, the region table, the memory files and a named semaphore; the relation
  \<open>startup_step\<close> interleaves their steps up to the point where the front end serves requests and the
  back end waits for entries. The checkpoint that CRIU takes first is in \<open>Launch\<close>.
\<close>

section \<open>Callbacks\<close>

definition SINGLE_THREAD :: int where "SINGLE_THREAD = 0"
definition MULTI_THREAD :: int where "MULTI_THREAD = 1"
definition RPC :: int where "RPC = 2"

text \<open>A function pointer: null, the empty function of the library, or a function of the application.\<close>

datatype fptr = Null | Blank_method | App_function addr

record callback_table =
  cb_isReadOnly :: fptr
  cb_loadServiceRequest :: fptr
  cb_processRequest :: fptr
  cb_allocateThreadLocalServiceRequestStruct :: fptr
  cb_freeThreadLocalServiceRequestStruct :: fptr
  cb_getResponseInfo :: fptr
  cb_enableCombiner :: fptr
  cb_disableCombiner :: fptr
  cb_resetAllocator :: fptr
  cb_setPerThreadLocalThreadData :: fptr

record mangosteen_args = callback_table +
  mode :: int

record globals =
  imangosteen_initialized :: bool
  callbacks_set :: callback_table

text \<open>
  Returns the globals and the argument \<open>rpc_mode\<close> of the call of \<open>launch_mangosteen\<close>, if there is one.
  The second call of a process exits.
\<close>

definition initialise_mangosteen :: "mangosteen_args option \<Rightarrow> globals \<Rightarrow> (globals \<times> bool option) result" where
  "initialise_mangosteen args g =
     (if imangosteen_initialized g then Inl ExitFailure
      else case args of
        None \<Rightarrow> Inl AssertFail
      | Some a \<Rightarrow>
          (let blank = (callbacks_set g)\<lparr>cb_enableCombiner := Blank_method, cb_disableCombiner := Blank_method,
                         cb_resetAllocator := Blank_method, cb_setPerThreadLocalThreadData := Blank_method\<rparr>;
               g1 = g\<lparr>imangosteen_initialized := True, callbacks_set := blank\<rparr>
           in if mode a = SINGLE_THREAD then Inr (g1, Some False)
              else if mode a = MULTI_THREAD then
                if cb_isReadOnly a = Null \<or> cb_processRequest a = Null then Inl AssertFail
                else Inr (g1\<lparr>callbacks_set := blank\<lparr>cb_isReadOnly := cb_isReadOnly a,
                                cb_processRequest := cb_processRequest a\<rparr>\<rparr>, Some False)
              else if mode a = RPC then Inr (g1\<lparr>callbacks_set := callback_table.truncate a\<rparr>, Some True)
              else Inr (g1, None)))"

section \<open>Threads\<close>

definition CONNECTION_AVAILABLE :: int where "CONNECTION_AVAILABLE = 0"

record task =
  task_ready :: int
  connection_slot :: int
  thread_number :: nat
  task_listenfd :: int
  task_epollfd :: int
  is_recovering :: bool
  command_request :: "byte list"

text \<open>
  The caller's own entry of \<open>taskArray\<close>; the mutex makes the call atomic. Returns the index of the thread.
\<close>

definition mangosteen_initialize_thread :: "nat \<Rightarrow> task list \<Rightarrow> (nat \<times> nat \<times> task list) result" where
  "mangosteen_initialize_thread global_thread_count tasks =
     (let i = global_thread_count
      in if i < length tasks
         then Inr (i, global_thread_count + 1,
                   tasks[i := (tasks ! i)\<lparr>task_ready := NONE, connection_slot := CONNECTION_AVAILABLE,
                                 thread_number := i, command_request := replicate 2048 0\<rparr>])
         else Inl OutOfBounds)"

fun initialize_threads :: "nat \<Rightarrow> nat \<Rightarrow> task list \<Rightarrow> (nat list \<times> nat \<times> task list) result" where
  "initialize_threads 0 count tasks = Inr ([], count, tasks)"
| "initialize_threads (Suc n) count tasks =
     and_then (mangosteen_initialize_thread count tasks) (\<lambda>(i, count', tasks').
       and_then (initialize_threads n count' tasks') (\<lambda>(is, r). Inr (i # is, r)))"

definition start_worker_threads :: "int \<Rightarrow> int \<Rightarrow> task list \<Rightarrow> task list" where
  "start_worker_threads lfd efd tasks =
     map (\<lambda>(i, t). t\<lparr>connection_slot := CONNECTION_AVAILABLE, thread_number := i, task_listenfd := lfd,
                      task_epollfd := efd, command_request := replicate 2048 0, task_ready := NONE\<rparr>)
       (enumerate 0 tasks)"

section \<open>The two processes\<close>

definition BACK_END_INITIAL :: int where "BACK_END_INITIAL = 2"
definition BACK_END_RECOVERY :: int where "BACK_END_RECOVERY = 3"
definition INSTRUMENTATION_DEFAULT_STATE :: int where "INSTRUMENTATION_DEFAULT_STATE = 10"

lemmas state_defs = BACK_END_INITIAL_def BACK_END_RECOVERY_def INSTRUMENTATION_DEFAULT_STATE_def

text \<open>
  What attaching DynamoRIO does to the memory of a process, by the state it was given; in the other
  states it registers callbacks only.
\<close>

definition dr_client_main :: "int \<Rightarrow> kernel \<Rightarrow> mem_info list \<Rightarrow> rt_process \<Rightarrow> rt_process result" where
  "dr_client_main state k infos s =
     (if state = BACK_END_INITIAL then synchronize_address_space True k infos s
      else if state = BACK_END_RECOVERY then remap_address_space k s
      else Inr s)"

datatype be_pc = BE_start | BE_remap | BE_replay | BE_post | BE_wait | BE_attach | BE_consume

datatype fe_pc = FE_start | FE_wait | FE_restore | FE_attach | FE_post | FE_ready | FE_running

text \<open>
  The state after the fork. The semaphore is \<open>None\<close> while no file of its name exists. \<open>su_be\<close> holds the
  shared log and table and the memory of the back end, whose \<open>files\<close> are the files themselves; \<open>su_fe\<close> is
  the memory of the front end.
\<close>

record startup =
  su_new :: bool
  su_rpc :: bool
  su_sem :: "nat option"
  su_be :: backend
  su_fe :: proc_mem
  su_fe_g :: rb_globals
  su_tasks :: "task list"
  su_be_pc :: be_pc
  su_fe_pc :: fe_pc

definition new_process :: "region_table \<Rightarrow> bool" where
  "new_process t \<longleftrightarrow> number_of_entries t = 0"

definition launch_mangosteen ::
    "bool \<Rightarrow> ring_buffer option \<Rightarrow> addr option \<Rightarrow> region_table option \<Rightarrow> bool \<Rightarrow>
     nat option \<Rightarrow> proc_mem \<Rightarrow> task list \<Rightarrow> rb_globals \<Rightarrow> startup result" where
  "launch_mangosteen rpc_mode rb_file rb_mapped rt_file rt_mapped sem p tasks g0 =
     and_then (ring_buffer_create_and_initialise rb_file rb_mapped g0) (\<lambda>(rb, g).
       and_then (region_table_create_or_open rt_file rt_mapped rb) (\<lambda>t.
         Inr \<lparr>su_new = new_process t, su_rpc = rpc_mode, su_sem = sem,
              su_be = \<lparr>be_rb = rb, be_g = g, be_proc = \<lparr>rt = t, sequenceNumber = 0, pmem = p\<rparr>\<rparr>,
              su_fe = p, su_fe_g = g, su_tasks = tasks, su_be_pc = BE_start, su_fe_pc = FE_start\<rparr>))"

definition sem_open :: "nat option \<Rightarrow> nat option" where
  "sem_open v = Some (case v of None \<Rightarrow> 0 | Some n \<Rightarrow> n)"

definition sem_post :: "nat option \<Rightarrow> nat option" where
  "sem_post v = map_option Suc v"

text \<open>One step of \<open>start_back_end\<close>; \<open>Spinning\<close> means that it waits.\<close>

definition start_back_end_step :: "kernel \<Rightarrow> mem_info list \<Rightarrow> startup \<Rightarrow> startup result" where
  "start_back_end_step k infos s =
     (case su_be_pc s of
        BE_start \<Rightarrow> Inr (s\<lparr>su_sem := sem_open (su_sem s), su_be_pc := if su_new s then BE_wait else BE_remap\<rparr>)
      | BE_remap \<Rightarrow>
          and_then (remap_backend k (su_be s)) (\<lambda>b.
            Inr (s\<lparr>su_be := b\<lparr>be_proc := (be_proc b)\<lparr>rt := (rt (be_proc b))\<lparr>number_of_entries :=
                     ucast (numberOfRegions (commit_metadata (be_rb b)))\<rparr>\<rparr>\<rparr>, su_be_pc := BE_replay\<rparr>))
      | BE_replay \<Rightarrow>
          if remote_head (be_rb (su_be s)) = remote_tail (be_rb (su_be s)) then Inr (s\<lparr>su_be_pc := BE_post\<rparr>)
          else and_then (process_entry k (su_be s) [last_persisted_tail (be_rb (su_be s))]) (\<lambda>(b, _).
                 Inr (s\<lparr>su_be := b\<rparr>))
      | BE_post \<Rightarrow> Inr (s\<lparr>su_sem := sem_post (su_sem s), su_be_pc := BE_consume\<rparr>)
      | BE_wait \<Rightarrow>
          (case su_sem s of
             Some (Suc n) \<Rightarrow> Inr (s\<lparr>su_sem := None, su_be_pc := BE_attach\<rparr>)
           | _ \<Rightarrow> Inl Spinning)
      | BE_attach \<Rightarrow>
          and_then (dr_client_main BACK_END_INITIAL k infos (be_proc (su_be s))) (\<lambda>p.
            Inr (s\<lparr>su_be := (su_be s)\<lparr>be_proc := p\<rparr>, su_be_pc := BE_consume\<rparr>))
      | BE_consume \<Rightarrow> Inl Spinning)"

definition start_front_end_step :: "kernel \<Rightarrow> startup \<Rightarrow> startup result" where
  "start_front_end_step k s =
     (case su_fe_pc s of
        FE_start \<Rightarrow> Inr (s\<lparr>su_sem := sem_open (su_sem s), su_fe_pc := if su_new s then FE_attach else FE_wait\<rparr>)
      | FE_wait \<Rightarrow>
          (case su_sem s of
             Some (Suc n) \<Rightarrow> Inr (s\<lparr>su_sem := Some n, su_fe_pc := FE_restore\<rparr>)
           | _ \<Rightarrow> Inl Spinning)
      | FE_restore \<Rightarrow>
          and_then (restore_memory k (rt (be_proc (su_be s))) ((su_fe s)\<lparr>files := files (pmem (be_proc (su_be s)))\<rparr>))
            (\<lambda>p. Inr (s\<lparr>su_fe := p,
                        su_be := set_pmem ((pmem (be_proc (su_be s)))\<lparr>files := files p\<rparr>) (su_be s),
                        su_fe_g := reset_mmaped_regions_counter (su_fe_g s), su_fe_pc := FE_attach\<rparr>))
      | FE_attach \<Rightarrow>
          and_then (dr_client_main INSTRUMENTATION_DEFAULT_STATE k []
                      \<lparr>rt = rt (be_proc (su_be s)), sequenceNumber = 0, pmem = su_fe s\<rparr>) (\<lambda>p.
            Inr (s\<lparr>su_fe := pmem p,
                   su_tasks := if su_rpc s then start_worker_threads 0 0 (su_tasks s) else su_tasks s,
                   su_fe_pc := if su_new s then FE_post else FE_ready\<rparr>))
      | FE_post \<Rightarrow> Inr (s\<lparr>su_sem := sem_post (su_sem s), su_fe_pc := FE_ready\<rparr>)
      | FE_ready \<Rightarrow>
          Inr (s\<lparr>su_tasks := if su_rpc s
                   then map (\<lambda>t. t\<lparr>is_recovering := \<not> su_new s, task_ready := READY_TO_INTIALISE\<rparr>) (su_tasks s)
                   else su_tasks s,
                 su_fe_pc := FE_running\<rparr>)
      | FE_running \<Rightarrow> Inl Spinning)"

inductive startup_step :: "kernel \<Rightarrow> mem_info list \<Rightarrow> startup \<Rightarrow> startup \<Rightarrow> bool" for k infos where
  front_end: "start_front_end_step k s = Inr s' \<Longrightarrow> startup_step k infos s s'"
| back_end: "start_back_end_step k infos s = Inr s' \<Longrightarrow> startup_step k infos s s'"

inductive_cases startup_stepE: "startup_step k infos s s'"

section \<open>Recovery\<close>

text \<open>
  The processes start over the log, the table and the files that \<open>s0\<close> has left: \<open>es\<close> is the committed
  part of the log that is not released, redo and commit entries that write into the regions; all regions are
  committed, in the table and in the commit record of the log, and the kernel accepts the mappings.
\<close>

definition recoverable :: "kernel \<Rightarrow> ring_buffer_entry list \<Rightarrow> backend \<Rightarrow> bool" where
  "recoverable k es s0 \<longleftrightarrow>
     replaying es s0 \<and> Back_End.settled s0 \<and> (\<forall>x. log_writes es x \<longrightarrow> in_table (rt (be_proc s0)) x) \<and>
     (\<forall>i. unat i < unat (number_of_entries (rt (be_proc s0))) \<longrightarrow>
        mmap_ok k 0 (mmap_size (regionTable (rt (be_proc s0)) i)) \<and>
        mmap_ok k (address (regionTable (rt (be_proc s0)) i)) (mmap_size (regionTable (rt (be_proc s0)) i)))"

definition restarted :: "backend \<Rightarrow> backend" where
  "restarted s0 = s0\<lparr>be_proc := \<lparr>rt = rt (be_proc s0), sequenceNumber = 0,
     pmem = fresh_mem (files (pmem (be_proc s0)))\<rparr>\<rparr>"

definition recovery_from :: "nat option \<Rightarrow> backend \<Rightarrow> startup \<Rightarrow> bool" where
  "recovery_from sem s0 s \<longleftrightarrow>
     \<not> su_new s \<and> su_sem s = sem \<and> su_be s = restarted s0 \<and> su_fe s = fresh_mem (files (pmem (be_proc s0))) \<and>
     su_be_pc s = BE_start \<and> su_fe_pc s = FE_start"

text \<open>A back end that has replayed \<open>dn\<close> and has \<open>es\<close> ahead of it.\<close>

definition replayed :: "backend \<Rightarrow> ring_buffer_entry list \<Rightarrow> ring_buffer_entry list \<Rightarrow> backend \<Rightarrow> bool" where
  "replayed s0 dn es b \<longleftrightarrow>
     replaying es b \<and> Back_End.settled b \<and> rt (be_proc b) = rt (be_proc s0) \<and>
     (\<forall>x. in_table (rt (be_proc s0)) x \<longrightarrow> load_byte (pmem (be_proc b)) x = Some (apply_log dn (be_contents s0) x))"

text \<open>One entry of the replay.\<close>

lemma replayed_step:
  assumes "replayed s0 dn (e # es) b" "process_entry k b loads = Inr (b', loads')"
  shows "replayed s0 (dn @ [e]) es b'"
proof -
  let ?t = "rt (be_proc s0)"
  have r: "replaying (e # es) b" and st: "Back_End.settled b" and t: "rt (be_proc b) = ?t"
      and ld: "\<forall>x. in_table ?t x \<longrightarrow> load_byte (pmem (be_proc b)) x = Some (apply_log dn (be_contents s0) x)"
    using assms(1) unfolding replayed_def by blast+
  have hd: "global_local_head (be_g b) \<noteq> global_local_tail (be_g b)" "e = buffer (be_rb b) (global_local_head (be_g b))"
      "entry_type e \<in> {REDO_ENTRY, COMMIT_ENTRY}"
    using replaying_Cons [OF r] r by (auto simp: replaying_def redo_log_def)
  obtain b1 where b1: "process_entry k b loads = Inr (b1, loads)" "replaying es b1"
      "be_contents b1 = apply_entry e (be_contents b)" "be_mapped b1 = be_mapped b"
    using replay_step [OF r] by blast
  then have b': "b' = b1" using assms(2) by simp
  have s1: "Back_End.settled b1" "rt (be_proc b1) = ?t"
    using recorded_step [OF settled_recorded [OF st] hd b1(1)] st t by simp_all
  have "load_byte (pmem (be_proc b1)) x = Some (apply_log (dn @ [e]) (be_contents s0) x)" if x: "in_table ?t x" for x
  proof -
    have "be_contents b x = apply_log dn (be_contents s0) x" using ld x by (simp add: contents_def)
    then have "be_contents b1 x = apply_log [e] (apply_log dn (be_contents s0)) x"
      using apply_log_determined [of "be_contents b" x "apply_log dn (be_contents s0)" "[e]"] b1(3)
      by (simp add: apply_log_def)
    moreover have "be_mapped b1 x" using ld x b1(4) by (metis mapped_def option.distinct(1))
    ultimately show ?thesis by (auto simp: contents_def mapped_def apply_log_def split: option.splits)
  qed
  then show ?thesis unfolding replayed_def b' using b1(2) s1 by blast
qed

text \<open>Mapping the files again, in the back end and in the front end.\<close>

lemma recoverable_remap:
  assumes "recoverable k es s0"
  shows "\<exists>b. remap_backend k (restarted s0) = Inr b
    \<and> ucast (numberOfRegions (commit_metadata (be_rb b))) = number_of_entries (rt (be_proc b))
    \<and> replayed s0 [] es b"
proof -
  let ?s = "be_proc s0"
  let ?t = "rt ?s" and ?n = "unat (number_of_entries (rt ?s))"
  have r: "replaying es s0" and st: "Back_End.settled s0" and lw: "\<forall>x. log_writes es x \<longrightarrow> in_table ?t x"
      and ok: "\<forall>i. unat i < ?n \<longrightarrow> mmap_ok k (address (regionTable ?t i)) (mmap_size (regionTable ?t i))"
    using assms unfolding recoverable_def by blast+
  obtain q where q: "remap_regions k ?t [0..<?n] (fresh_mem (files (pmem ?s))) = Inr q" "no_alias q"
      "\<forall>x. mapped q x = in_table ?t x" "\<forall>x. in_table ?t x \<longrightarrow> load_byte q x = Some (be_contents s0 x)"
      "region_inv ((numbered ?s)\<lparr>pmem := q\<rparr>)"
    using recorded_remap [OF settled_recorded [OF st] ok] by blast
  let ?b = "set_pmem q (restarted s0)"
  have "region_inv (numbered (be_proc ?b))"
    by (rule region_inv_table [OF q(5)]) (simp_all add: set_pmem_def restarted_def)
  then have "Back_End.settled ?b"
    using st by (simp add: Back_End.settled_def regions_recorded_def set_pmem_def restarted_def)
  moreover have "replaying es ?b"
    using r q(2,3) lw by (simp add: replaying_def restarted_def set_pmem_def)
  ultimately have "replayed s0 [] es ?b"
    unfolding replayed_def using q(4) by (simp add: set_pmem_def restarted_def)
  moreover have "remap_backend k (restarted s0) = Inr ?b"
    using q(1) by (simp add: remap_backend_def restarted_def)
  ultimately show ?thesis
    using st by (intro exI [of _ ?b]) (simp add: Back_End.settled_def restarted_def set_pmem_def)
qed

lemma replayed_restore:
  assumes "recoverable k es s0" "replayed s0 es [] b"
  shows "\<exists>q. restore_memory k (rt (be_proc b)) (fresh_mem (files (pmem (be_proc b)))) = Inr q
    \<and> files q = files (pmem (be_proc b))
    \<and> (\<forall>x. in_table (rt (be_proc s0)) x \<longrightarrow> load_byte q x = Some (apply_log es (be_contents s0) x))"
proof -
  let ?s = "numbered (be_proc b)"
  have t: "rt ?s = rt (be_proc s0)" "pmem ?s = pmem (be_proc b)" using assms(2) by (simp_all add: replayed_def)
  have inv: "region_inv ?s" "number_of_entries (rt ?s) = uncommited_number_of_entries (rt ?s)"
    using assms(2) unfolding replayed_def Back_End.settled_def regions_recorded_def by auto
  have ok: "\<forall>i. unat i < unat (number_of_entries (rt ?s)) \<longrightarrow> mmap_ok k 0 (mmap_size (regionTable (rt ?s) i))
      \<and> mmap_ok k (address (regionTable (rt ?s) i)) (mmap_size (regionTable (rt ?s) i))"
    using assms(1) unfolding t recoverable_def by blast
  from restore_fresh [OF inv ok] show ?thesis using assms(2) unfolding t replayed_def by auto
qed

text \<open>What holds at each pair of control points.\<close>

definition seen_log :: "ring_buffer_entry list \<Rightarrow> backend \<Rightarrow> startup \<Rightarrow> bool" where
  "seen_log es s0 s \<longleftrightarrow>
     (\<forall>x. in_table (rt (be_proc s0)) x \<longrightarrow> load_byte (su_fe s) x = Some (apply_log es (be_contents s0) x))"

definition waiting :: "backend \<Rightarrow> startup \<Rightarrow> bool" where
  "waiting s0 s \<longleftrightarrow> su_fe_pc s \<in> {FE_start, FE_wait} \<and> su_fe s = fresh_mem (files (pmem (be_proc s0)))"

definition in_replay :: "ring_buffer_entry list \<Rightarrow> backend \<Rightarrow> backend \<Rightarrow> bool" where
  "in_replay es s0 b \<longleftrightarrow> (\<exists>dn es'. es = dn @ es' \<and> replayed s0 dn es' b)"

lemma in_replayI: "replayed s0 dn es' b \<Longrightarrow> es = dn @ es' \<Longrightarrow> in_replay es s0 b"
  by (auto simp: in_replay_def)

definition recovery_inv :: "kernel \<Rightarrow> ring_buffer_entry list \<Rightarrow> backend \<Rightarrow> startup \<Rightarrow> bool" where
  "recovery_inv k es s0 s \<longleftrightarrow> recoverable k es s0 \<and> \<not> su_new s \<and>
     (case su_be_pc s of
        BE_start \<Rightarrow> su_be s = restarted s0 \<and> su_sem s \<in> {None, Some 0} \<and> waiting s0 s
      | BE_remap \<Rightarrow> su_be s = restarted s0 \<and> su_sem s = Some 0 \<and> waiting s0 s
      | BE_replay \<Rightarrow> in_replay es s0 (su_be s) \<and> su_sem s = Some 0 \<and> waiting s0 s
      | BE_post \<Rightarrow> replayed s0 es [] (su_be s) \<and> su_sem s = Some 0 \<and> waiting s0 s
      | BE_consume \<Rightarrow> replayed s0 es [] (su_be s) \<and>
          (su_sem s = Some 1 \<and> waiting s0 s
           \<or> su_sem s = Some 0 \<and> su_fe_pc s = FE_restore \<and> su_fe s = fresh_mem (files (pmem (be_proc s0)))
           \<or> su_sem s = Some 0 \<and> su_fe_pc s \<in> {FE_attach, FE_ready, FE_running} \<and> seen_log es s0 s)
      | _ \<Rightarrow> False)"

lemma recovery_start: "recoverable k es s0 \<Longrightarrow> sem \<in> {None, Some 0} \<Longrightarrow> recovery_from sem s0 s \<Longrightarrow> recovery_inv k es s0 s"
  by (auto simp: recovery_from_def recovery_inv_def waiting_def)

lemma recovery_back_end:
  assumes "recovery_inv k es s0 s" "start_back_end_step k infos s = Inr s'"
  shows "recovery_inv k es s0 s'"
proof (cases "su_be_pc s")
  case BE_remap
  have "recoverable k es s0" using assms(1) by (simp add: recovery_inv_def)
  from recoverable_remap [OF this] obtain b where b: "remap_backend k (restarted s0) = Inr b"
      "ucast (numberOfRegions (commit_metadata (be_rb b))) = number_of_entries (rt (be_proc b))" "replayed s0 [] es b"
    by blast
  then have "s' = s\<lparr>su_be := b, su_be_pc := BE_replay\<rparr>"
    using assms BE_remap by (simp add: recovery_inv_def start_back_end_step_def)
  then show ?thesis using assms(1) BE_remap in_replayI [OF b(3)] by (simp add: recovery_inv_def waiting_def)
next
  case BE_replay
  then obtain dn es' where d: "es = dn @ es'" "replayed s0 dn es' (su_be s)" "su_sem s = Some 0" "waiting s0 s"
    using assms(1) by (auto simp: recovery_inv_def in_replay_def)
  show ?thesis
  proof (cases es')
    case Nil
    then have "s' = s\<lparr>su_be_pc := BE_post\<rparr>"
      using d(2) assms(2) BE_replay by (simp add: start_back_end_step_def replayed_def replaying_def)
    then show ?thesis using assms(1) d Nil by (simp add: recovery_inv_def waiting_def)
  next
    case (Cons e es'')
    then have "remote_head (be_rb (su_be s)) \<noteq> remote_tail (be_rb (su_be s))"
      using d(2) by (simp add: replayed_def replaying_def)
    then obtain b l where b: "process_entry k (su_be s) [last_persisted_tail (be_rb (su_be s))] = Inr (b, l)"
        "s' = s\<lparr>su_be := b\<rparr>"
      using assms(2) BE_replay by (auto simp: start_back_end_step_def and_then_Inr)
    then have "replayed s0 (dn @ [e]) es'' b" using replayed_step d(2) Cons by blast
    then have "in_replay es s0 b" by (rule in_replayI) (simp add: d(1) Cons)
    then show ?thesis using assms(1) d(3,4) b(2) BE_replay by (simp add: recovery_inv_def waiting_def)
  qed
qed (use assms in \<open>auto simp: recovery_inv_def start_back_end_step_def sem_open_def sem_post_def waiting_def seen_log_def\<close>)

lemma fresh_mem_files [simp]: "(fresh_mem fs)\<lparr>files := fs'\<rparr> = fresh_mem fs'"
  by (simp add: fresh_mem_def)

lemma files_fresh_mem: "files (fresh_mem fs) = fs"
  by (simp add: fresh_mem_def)

lemma recovery_front_end:
  assumes "recovery_inv k es s0 s" "start_front_end_step k s = Inr s'"
  shows "recovery_inv k es s0 s'"
proof (cases "su_fe_pc s")
  case FE_restore
  then have i: "recoverable k es s0" "su_be_pc s = BE_consume" "replayed s0 es [] (su_be s)" "su_sem s = Some 0"
      "su_fe s = fresh_mem (files (pmem (be_proc s0)))" "\<not> su_new s"
    using assms(1) by (auto simp: recovery_inv_def waiting_def split: be_pc.splits)
  obtain q where q: "restore_memory k (rt (be_proc (su_be s))) (fresh_mem (files (pmem (be_proc (su_be s))))) = Inr q"
      "files q = files (pmem (be_proc (su_be s)))"
      "\<forall>x. in_table (rt (be_proc s0)) x \<longrightarrow> load_byte q x = Some (apply_log es (be_contents s0) x)"
    using replayed_restore [OF i(1,3)] by blast
  have "set_pmem ((pmem (be_proc (su_be s)))\<lparr>files := files q\<rparr>) (su_be s) = su_be s"
    using q(2) by (simp add: set_pmem_def)
  then have "s' = s\<lparr>su_fe := q, su_fe_g := reset_mmaped_regions_counter (su_fe_g s), su_fe_pc := FE_attach\<rparr>"
    using assms(2) FE_restore i(5) q(1) by (simp add: start_front_end_step_def)
  then show ?thesis using i q(3) by (simp add: recovery_inv_def seen_log_def)
next
  case FE_start
  then have "s' = s\<lparr>su_sem := sem_open (su_sem s), su_fe_pc := FE_wait\<rparr>"
    using assms by (simp add: start_front_end_step_def recovery_inv_def)
  then show ?thesis
    using assms(1) FE_start by (cases "su_be_pc s") (auto simp: recovery_inv_def waiting_def sem_open_def)
next
  case FE_wait
  then obtain n where n: "su_sem s = Some (Suc n)" "s' = s\<lparr>su_sem := Some n, su_fe_pc := FE_restore\<rparr>"
    using assms(2) by (auto simp: start_front_end_step_def split: option.splits nat.splits)
  then show ?thesis
    using assms(1) FE_wait by (cases "su_be_pc s") (auto simp: recovery_inv_def waiting_def)
next
  case FE_post
  then show ?thesis using assms(1) by (cases "su_be_pc s") (auto simp: recovery_inv_def waiting_def)
next
  case FE_running
  then show ?thesis using assms(2) by (simp add: start_front_end_step_def)
next
  case FE_attach
  then have i: "su_be_pc s = BE_consume" using assms(1) by (cases "su_be_pc s") (auto simp: recovery_inv_def waiting_def)
  obtain ts where "s' = s\<lparr>su_tasks := ts, su_fe_pc := FE_ready\<rparr>"
    using assms FE_attach by (auto simp: start_front_end_step_def dr_client_main_def state_defs recovery_inv_def)
  then show ?thesis using assms(1) FE_attach i by (simp add: recovery_inv_def waiting_def seen_log_def)
next
  case FE_ready
  then have i: "su_be_pc s = BE_consume" using assms(1) by (cases "su_be_pc s") (auto simp: recovery_inv_def waiting_def)
  obtain ts where "s' = s\<lparr>su_tasks := ts, su_fe_pc := FE_running\<rparr>"
    using assms(2) FE_ready by (auto simp: start_front_end_step_def)
  then show ?thesis using assms(1) FE_ready i by (simp add: recovery_inv_def waiting_def seen_log_def)
qed

interpretation rcv: invariant_system "\<lambda>s. recoverable k es s0 \<and> (\<exists>sem\<in>{None, Some 0}. recovery_from sem s0 s)"
    "startup_step k infos" "recovery_inv k es s0"
  by unfold_locales (auto elim!: startup_stepE intro: recovery_start recovery_back_end recovery_front_end)

text \<open>Both processes get through: the back end replays the log, then the front end restores and runs.\<close>

lemma replay_runs:
  "su_be_pc s = BE_replay \<Longrightarrow> replayed s0 dn es (su_be s) \<Longrightarrow>
   \<exists>b. (startup_step k infos)\<^sup>*\<^sup>* s (s\<lparr>su_be := b, su_be_pc := BE_post\<rparr>)"
proof (induction es arbitrary: s dn)
  case Nil
  then have "start_back_end_step k infos s = Inr (s\<lparr>su_be_pc := BE_post\<rparr>)"
    by (simp add: start_back_end_step_def replayed_def replaying_def)
  then have "startup_step k infos s (s\<lparr>su_be := su_be s, su_be_pc := BE_post\<rparr>)" by (auto intro: back_end)
  then show ?case by blast
next
  case (Cons e es)
  then have r: "replaying (e # es) (su_be s)" by (simp add: replayed_def)
  let ?l = "[last_persisted_tail (be_rb (su_be s))]"
  obtain b where b: "process_entry k (su_be s) ?l = Inr (b, ?l)" using replay_step [OF r] by blast
  let ?s = "s\<lparr>su_be := b\<rparr>"
  have "startup_step k infos s ?s"
    using b r Cons.prems(1) by (intro back_end) (simp add: start_back_end_step_def replaying_def)
  moreover obtain b' where "(startup_step k infos)\<^sup>*\<^sup>* ?s (?s\<lparr>su_be := b', su_be_pc := BE_post\<rparr>)"
    using Cons.IH [of ?s] replayed_step [OF Cons.prems(2) b] Cons.prems(1) by auto
  ultimately have "(startup_step k infos)\<^sup>*\<^sup>* s (s\<lparr>su_be := b', su_be_pc := BE_post\<rparr>)"
    by (simp add: converse_rtranclp_into_rtranclp)
  then show ?case by blast
qed

lemma back_end_recovers:
  assumes "recovery_inv k es s0 s" "su_be_pc s = BE_start"
  shows "\<exists>t. (startup_step k infos)\<^sup>*\<^sup>* s t \<and> su_be_pc t = BE_consume \<and> su_fe_pc t = su_fe_pc s"
proof -
  let ?st = "startup_step k infos"
  have i: "recoverable k es s0" "\<not> su_new s" "su_be s = restarted s0"
    using assms by (simp_all add: recovery_inv_def)
  from recoverable_remap [OF i(1)] obtain b where b: "remap_backend k (restarted s0) = Inr b"
      "ucast (numberOfRegions (commit_metadata (be_rb b))) = number_of_entries (rt (be_proc b))" "replayed s0 [] es b"
    by blast
  define s1 where "s1 = s\<lparr>su_sem := sem_open (su_sem s), su_be_pc := BE_remap\<rparr>"
  define s2 where "s2 = s1\<lparr>su_be := b, su_be_pc := BE_replay\<rparr>"
  have "?st s s1" using assms(2) i by (intro back_end) (simp add: start_back_end_step_def s1_def)
  moreover have "?st s1 s2" using i b by (intro back_end) (simp add: start_back_end_step_def s1_def s2_def)
  moreover obtain b' where b': "?st\<^sup>*\<^sup>* s2 (s2\<lparr>su_be := b', su_be_pc := BE_post\<rparr>)"
    using replay_runs [of s2 s0 "[]" es k infos] b(3) by (auto simp: s2_def)
  moreover let ?s3 = "s2\<lparr>su_be := b', su_be_pc := BE_post\<rparr>"
  have "?st ?s3 (?s3\<lparr>su_sem := sem_post (su_sem ?s3), su_be_pc := BE_consume\<rparr>)"
    by (intro back_end) (simp add: start_back_end_step_def)
  ultimately have "?st\<^sup>*\<^sup>* s (?s3\<lparr>su_sem := sem_post (su_sem ?s3), su_be_pc := BE_consume\<rparr>)"
    by (meson converse_rtranclp_into_rtranclp rtranclp.rtrancl_into_rtrancl)
  then show ?thesis by (intro exI conjI, assumption) (simp_all add: s1_def s2_def)
qed

lemma front_end_step_runs:
  assumes "recovery_inv k es s0 s" "su_be_pc s = BE_consume" "su_fe_pc s \<noteq> FE_running"
  shows "\<exists>s'. startup_step k infos s s' \<and> su_be_pc s' = BE_consume \<and>
    (su_fe_pc s, su_fe_pc s') \<in> {(FE_start, FE_wait), (FE_wait, FE_restore), (FE_restore, FE_attach),
      (FE_attach, FE_ready), (FE_ready, FE_running)}"
proof -
  have "su_fe_pc s \<noteq> FE_post" using assms(1,2) by (auto simp: recovery_inv_def waiting_def)
  have i: "recoverable k es s0" "replayed s0 es [] (su_be s)" "\<not> su_new s"
    using assms by (simp_all add: recovery_inv_def)
  obtain q where q: "restore_memory k (rt (be_proc (su_be s))) (fresh_mem (files (pmem (be_proc (su_be s))))) = Inr q"
    using replayed_restore [OF i(1,2)] by blast
  have f: "su_fe_pc s = FE_restore \<Longrightarrow> su_fe s = fresh_mem (files (pmem (be_proc s0)))"
      "su_fe_pc s = FE_wait \<Longrightarrow> su_sem s = Some 1"
    using assms(1,2) by (auto simp: recovery_inv_def waiting_def)
  have "\<exists>s'. start_front_end_step k s = Inr s' \<and> su_be_pc s' = BE_consume \<and>
    (su_fe_pc s, su_fe_pc s') \<in> {(FE_start, FE_wait), (FE_wait, FE_restore), (FE_restore, FE_attach),
      (FE_attach, FE_ready), (FE_ready, FE_running)}"
    using assms(2,3) i(3) q f \<open>su_fe_pc s \<noteq> FE_post\<close>
    by (cases "su_fe_pc s") (auto simp: start_front_end_step_def dr_client_main_def state_defs)
  then show ?thesis by (blast intro: front_end)
qed

fun fe_rank :: "fe_pc \<Rightarrow> nat" where
  "fe_rank FE_start = 6" | "fe_rank FE_wait = 5" | "fe_rank FE_restore = 4" | "fe_rank FE_attach = 3"
| "fe_rank FE_post = 2" | "fe_rank FE_ready = 1" | "fe_rank FE_running = 0"

lemma front_end_recovers:
  "recovery_inv k es s0 s \<Longrightarrow> su_be_pc s = BE_consume \<Longrightarrow>
   \<exists>t. (startup_step k infos)\<^sup>*\<^sup>* s t \<and> su_fe_pc t = FE_running"
proof (induction "fe_rank (su_fe_pc s)" arbitrary: s rule: less_induct)
  case less
  show ?case
  proof (cases "su_fe_pc s = FE_running")
    case False
    obtain s' where s': "startup_step k infos s s'" "su_be_pc s' = BE_consume"
        "(su_fe_pc s, su_fe_pc s') \<in> {(FE_start, FE_wait), (FE_wait, FE_restore), (FE_restore, FE_attach),
          (FE_attach, FE_ready), (FE_ready, FE_running)}"
      using front_end_step_runs [OF less.prems False] by blast
    then have "fe_rank (su_fe_pc s') < fe_rank (su_fe_pc s)" by auto
    moreover have "recovery_inv k es s0 s'" using rcv.inv_step [OF less.prems(1) s'(1)] .
    ultimately obtain t where "(startup_step k infos)\<^sup>*\<^sup>* s' t" "su_fe_pc t = FE_running"
      using less.hyps s'(2) by blast
    then show ?thesis using s'(1) by (meson converse_rtranclp_into_rtranclp)
  qed blast
qed

lemma recovery_sees_log:
  assumes "recoverable k es s0" "sem \<in> {None, Some 0}" "recovery_from sem s0 s"
  shows "(\<forall>t. (startup_step k infos)\<^sup>*\<^sup>* s t \<longrightarrow> su_fe_pc t \<in> {FE_attach, FE_ready, FE_running} \<longrightarrow>
      (\<forall>x. in_table (rt (be_proc s0)) x \<longrightarrow> load_byte (su_fe t) x = Some (apply_log es (be_contents s0) x)))
    \<and> (\<exists>t. (startup_step k infos)\<^sup>*\<^sup>* s t \<and> su_fe_pc t = FE_running)"
proof -
  have start: "recoverable k es s0 \<and> (\<exists>sem\<in>{None, Some 0}. recovery_from sem s0 s)" using assms by blast
  note inv = rcv.inv_reachable [OF start]
  have "seen_log es s0 t" if "(startup_step k infos)\<^sup>*\<^sup>* s t" "su_fe_pc t \<in> {FE_attach, FE_ready, FE_running}" for t
    using inv [OF that(1)] that(2) by (auto simp: recovery_inv_def waiting_def split: be_pc.splits)
  moreover have "\<exists>t. (startup_step k infos)\<^sup>*\<^sup>* s t \<and> su_fe_pc t = FE_running"
  proof -
    have "su_be_pc s = BE_start" using assms(3) by (simp add: recovery_from_def)
    then obtain t1 where t1: "(startup_step k infos)\<^sup>*\<^sup>* s t1" "su_be_pc t1 = BE_consume"
      using back_end_recovers [OF inv [OF rtranclp.rtrancl_refl]] by blast
    then show ?thesis using front_end_recovers [OF inv [OF t1(1)] t1(2)] by (meson rtranclp_trans)
  qed
  ultimately show ?thesis unfolding seen_log_def by blast
qed

text \<open>
  C8: A recovering front end never runs on old data, when it starts from a state that can be recovered: the
  semaphore does not exist or is 0 (with a value that an earlier run has left the claim fails, see the next
  theorem), the commit record of the log names the recorded regions, and what is left of the log consists of
  redo and commit entries, with a commit last (the replay of a mapping entry would create its file again).
  Then, however the two processes interleave, once the front end has restored its memory, every byte of the
  recorded regions holds what that log makes of it: the semaphore keeps the front end waiting until the
  back end has replayed the log. And the start-up can always be completed, so the front end does get to
  serve requests.
\<close>

theorem recovered_front_end_sees_log:
  assumes "recoverable k es s0" "sem \<in> {None, Some 0}" "recovery_from sem s0 s"
  shows "(\<forall>t. (startup_step k infos)\<^sup>*\<^sup>* s t \<longrightarrow> su_fe_pc t \<in> {FE_attach, FE_ready, FE_running} \<longrightarrow>
      (\<forall>x. in_table (rt (be_proc s0)) x \<longrightarrow> load_byte (su_fe t) x = Some (apply_log es (be_contents s0) x)))
    \<and> (\<exists>t. (startup_step k infos)\<^sup>*\<^sup>* s t \<and> su_fe_pc t = FE_running)"
  using recovery_sees_log [OF assms] .

text \<open>
  C35: The semaphore outlives the processes, and nobody resets it: a recovery that died between the
  post of the back end and the wait of the front end leaves the value 1. In the next recovery the front
  end can restore its memory and serve requests while the back end has not started: it runs on the files
  as they were before the log is replayed.
\<close>

theorem stale_semaphore_restores_early:
  assumes "recoverable k es s0" "recovery_from (Some 1) s0 s"
  shows "\<exists>t. (startup_step k infos)\<^sup>*\<^sup>* s t \<and> su_fe_pc t = FE_running \<and> su_be_pc t = BE_start
    \<and> su_be t = restarted s0
    \<and> (\<forall>x. in_table (rt (be_proc s0)) x \<longrightarrow> load_byte (su_fe t) x = load_byte (pmem (be_proc s0)) x)"
proof -
  let ?s = "numbered (be_proc s0)" and ?st = "startup_step k infos"
  have inv: "region_inv ?s" "number_of_entries (rt ?s) = uncommited_number_of_entries (rt ?s)"
    using assms(1) by (simp_all add: recoverable_def Back_End.settled_def regions_recorded_def)
  have ok: "\<forall>i. unat i < unat (number_of_entries (rt ?s)) \<longrightarrow> mmap_ok k 0 (mmap_size (regionTable (rt ?s) i))
      \<and> mmap_ok k (address (regionTable (rt ?s) i)) (mmap_size (regionTable (rt ?s) i))"
    using assms(1) unfolding recoverable_def numbered_fields by blast
  obtain q where q: "restore_memory k (rt ?s) (fresh_mem (files (pmem ?s))) = Inr q" "files q = files (pmem ?s)"
      "\<forall>x. in_table (rt ?s) x \<longrightarrow> load_byte q x = load_byte (pmem ?s) x"
    using restore_fresh [OF inv ok] by blast
  have s: "\<not> su_new s" "su_sem s = Some 1" "su_be s = restarted s0" "su_fe s = fresh_mem (files (pmem (be_proc s0)))"
      "su_be_pc s = BE_start" "su_fe_pc s = FE_start"
    using assms(2) by (simp_all add: recovery_from_def)
  define s1 where "s1 = s\<lparr>su_fe_pc := FE_wait\<rparr>"
  define s2 where "s2 = s1\<lparr>su_sem := Some 0, su_fe_pc := FE_restore\<rparr>"
  define s3 where "s3 = s2\<lparr>su_fe := q, su_be := restarted s0, su_fe_g := reset_mmaped_regions_counter (su_fe_g s2), su_fe_pc := FE_attach\<rparr>"
  define s4 where "s4 = s3\<lparr>su_tasks := if su_rpc s3 then start_worker_threads 0 0 (su_tasks s3) else su_tasks s3,
      su_fe_pc := FE_ready\<rparr>"
  define s5 where "s5 = s4\<lparr>su_tasks := if su_rpc s4
      then map (\<lambda>t. t\<lparr>is_recovering := \<not> su_new s4, task_ready := READY_TO_INTIALISE\<rparr>) (su_tasks s4) else su_tasks s4,
      su_fe_pc := FE_running\<rparr>"
  have "?st s s1" using s by (intro front_end) (simp add: start_front_end_step_def s1_def sem_open_def)
  moreover have "?st s1 s2" using s by (intro front_end) (simp add: start_front_end_step_def s2_def s1_def)
  moreover have "?st s2 s3" using s q(1,2)
    by (intro front_end) (simp add: start_front_end_step_def s3_def s2_def s1_def restarted_def set_pmem_def
        files_fresh_mem)
  moreover have "?st s3 s4" using s
    by (intro front_end) (simp add: start_front_end_step_def s4_def s3_def s2_def s1_def dr_client_main_def state_defs)
  moreover have "?st s4 s5"
    by (intro front_end) (simp add: start_front_end_step_def s5_def s4_def)
  ultimately have "?st\<^sup>*\<^sup>* s s5" by (meson converse_rtranclp_into_rtranclp rtranclp.rtrancl_refl)
  moreover have "su_fe_pc s5 = FE_running" "su_be_pc s5 = BE_start" "su_be s5 = restarted s0" "su_fe s5 = q"
    using s by (simp_all add: s5_def s4_def s3_def s2_def s1_def)
  ultimately show ?thesis using q(3) unfolding numbered_fields by blast
qed

section \<open>Application programming interface\<close>

abbreviation registered_task :: "nat \<Rightarrow> task \<Rightarrow> task" where
  "registered_task i t \<equiv> t\<lparr>task_ready := NONE, connection_slot := CONNECTION_AVAILABLE, thread_number := i,
     command_request := replicate 2048 0\<rparr>"

lemma initialize_threads_from:
  "c \<le> length tasks \<Longrightarrow> initialize_threads n c tasks =
    (if c + n \<le> length tasks
     then Inr ([c..<c + n], c + n,
            map (\<lambda>(i, t). if c \<le> i \<and> i < c + n then registered_task i t else t) (enumerate 0 tasks))
     else Inl OutOfBounds)"
proof (induction n arbitrary: c tasks)
  case 0
  have "map (\<lambda>(i, t). if c \<le> i \<and> i < c + 0 then registered_task i t else t) (enumerate 0 tasks) = tasks"
    by (rule nth_equalityI) (auto simp: nth_enumerate_eq)
  then show ?case using 0 by simp
next
  case (Suc n)
  show ?case
  proof (cases "c < length tasks")
    case False
    then show ?thesis by (simp add: mangosteen_initialize_thread_def)
  next
    case True
    let ?ts = "tasks[c := registered_task c (tasks ! c)]"
    have "map (\<lambda>(i, t). if Suc c \<le> i \<and> i < Suc c + n then registered_task i t else t) (enumerate 0 ?ts) =
        map (\<lambda>(i, t). if c \<le> i \<and> i < c + Suc n then registered_task i t else t) (enumerate 0 tasks)"
      by (rule nth_equalityI) (auto simp: nth_enumerate_eq nth_list_update not_less_eq_eq)
    moreover have "[c..<c + Suc n] = c # [Suc c..<Suc c + n]" by (simp add: upt_rec)
    ultimately show ?thesis
      using True Suc.IH [of "Suc c" ?ts] by (simp add: mangosteen_initialize_thread_def del: upt_Suc)
  qed
qed

text \<open>
  The threads that register with \<open>mangosteen_initialize_thread\<close> get the indices 0, 1, 2, 3 in
  the order of their calls, each its own entry of \<open>taskArray\<close>, ready for requests; the fifth call writes
  past the array.
\<close>

lemma thread_indices_in_order:
  assumes "length tasks = NUMBER_OF_THREADS"
  shows "initialize_threads n 0 tasks =
    (if n \<le> NUMBER_OF_THREADS
     then Inr ([0..<n], n, map (\<lambda>(i, t). if i < n then registered_task i t else t) (enumerate 0 tasks))
     else Inl OutOfBounds)"
  using initialize_threads_from [of 0 tasks n] assms by (auto intro!: map_cong)

text \<open>
  \<open>initialise_mangosteen\<close> can be called once. The first call with a known mode launches the two
  processes, with the callbacks of the application installed; every further call, also the one each worker
  thread of the key-value example makes, ends the process.
\<close>

lemma second_initialise_exits:
  assumes "\<not> imangosteen_initialized g" "mode a \<in> {SINGLE_THREAD, RPC}
      \<or> mode a = MULTI_THREAD \<and> cb_isReadOnly a \<noteq> Null \<and> cb_processRequest a \<noteq> Null"
  shows "\<exists>g' rpc. initialise_mangosteen (Some a) g = Inr (g', Some rpc) \<and> (rpc \<longleftrightarrow> mode a = RPC)
    \<and> (mode a \<noteq> SINGLE_THREAD \<longrightarrow> cb_isReadOnly (callbacks_set g') = cb_isReadOnly a
         \<and> cb_processRequest (callbacks_set g') = cb_processRequest a)
    \<and> (\<forall>args. initialise_mangosteen args g' = Inl ExitFailure)"
  using assms
  by (auto simp: initialise_mangosteen_def Let_def SINGLE_THREAD_def MULTI_THREAD_def RPC_def callback_table.truncate_def)

section \<open>Witnesses\<close>

definition example_tasks :: "task list" where
  "example_tasks = replicate 4 \<lparr>task_ready = 0, connection_slot = 0, thread_number = 0, task_listenfd = 0,
     task_epollfd = 0, is_recovering = False, command_request = []\<rparr>"

definition example_startup :: "nat option \<Rightarrow> startup" where
  "example_startup sem =
     \<lparr>su_new = False, su_rpc = True, su_sem = sem, su_be = restarted example_backend,
      su_fe = fresh_mem (files (pmem (be_proc example_backend))), su_fe_g = be_g example_backend,
      su_tasks = example_tasks, su_be_pc = BE_start, su_fe_pc = FE_start\<rparr>"

lemma example_recoverable: "recoverable accepting_kernel [example_entry, example_commit] example_backend"
proof -
  have "in_table (rt example_proc) x" if "in_range 4096 32 x" for x
  proof (intro exI conjI)
    show "in_region (rt example_proc) 0 x" using that by (simp add: example_region in_range_def)
  qed (simp add: example_proc_def)
  then show ?thesis
    using example_replaying example_settled example_writes
    by (simp add: recoverable_def accepting_kernel_def example_backend_def)
qed

lemma example_recovery: "recovery_from sem example_backend (example_startup sem)"
  by (simp add: recovery_from_def example_startup_def)

lemma example_address: "in_table (rt (be_proc example_backend)) 4100"
  by (intro exI [of _ 0]) (simp add: example_backend_def example_region in_range_def, simp add: example_proc_def)

theorem recovered_front_end_sees_log_witness:
  "\<exists>t. (startup_step accepting_kernel [])\<^sup>*\<^sup>* (example_startup None) t \<and> su_fe_pc t = FE_running
     \<and> load_byte (su_fe t) 4100 = Some 7"
proof -
  have "apply_log [example_entry, example_commit] m 4100 = 7" for m
    by (simp add: apply_entry_def example_entry_def example_commit_def redo_entry_for_def entry_type_defs
        memcpy_apply PAYLOAD_SIZE_def in_range_def)
  moreover from recovered_front_end_sees_log [OF example_recoverable _ example_recovery, of None "[]"]
  obtain t where "(startup_step accepting_kernel [])\<^sup>*\<^sup>* (example_startup None) t" "su_fe_pc t = FE_running"
      "load_byte (su_fe t) 4100 = Some (apply_log [example_entry, example_commit] (be_contents example_backend) 4100)"
    using example_address by blast
  ultimately show ?thesis by auto
qed

theorem stale_semaphore_restores_early_witness:
  "\<exists>t. (startup_step accepting_kernel [])\<^sup>*\<^sup>* (example_startup (Some 1)) t \<and> su_fe_pc t = FE_running
     \<and> load_byte (su_fe t) 4100 = Some 0"
proof -
  have "load_byte (pmem (be_proc example_backend)) 4100 = Some 0"
    using example_load [of 4100] by (simp add: example_backend_def in_range_def)
  then show ?thesis
    using stale_semaphore_restores_early [OF example_recoverable example_recovery, of "[]"] example_address by metis
qed

lemma thread_indices_in_order_witness:
  "initialize_threads 5 0 example_tasks = Inl OutOfBounds"
  using thread_indices_in_order [of example_tasks 5] by (simp add: example_tasks_def NUMBER_OF_THREADS_def)

definition example_args :: mangosteen_args where
  "example_args =
     \<lparr>cb_isReadOnly = App_function 1, cb_loadServiceRequest = App_function 2, cb_processRequest = App_function 3,
      cb_allocateThreadLocalServiceRequestStruct = Null, cb_freeThreadLocalServiceRequestStruct = Null,
      cb_getResponseInfo = Null, cb_enableCombiner = Null, cb_disableCombiner = Null, cb_resetAllocator = Null,
      cb_setPerThreadLocalThreadData = Null, mode = 1\<rparr>"

lemma second_initialise_exits_witness:
  "\<exists>g' rpc. initialise_mangosteen (Some example_args)
       \<lparr>imangosteen_initialized = False, callbacks_set = callback_table.truncate example_args\<rparr> = Inr (g', Some rpc)
     \<and> \<not> rpc \<and> initialise_mangosteen (Some example_args) g' = Inl ExitFailure"
  using second_initialise_exits
    [of "\<lparr>imangosteen_initialized = False, callbacks_set = callback_table.truncate example_args\<rparr>" example_args]
  by (auto simp: example_args_def MULTI_THREAD_def RPC_def)

end
