(* ===== verification/Persistence.thy ===== *)
theory Persistence
  imports Instrumentation Back_End
begin

text \<open>
  The path of a batch: what \<open>instrument_stop\<close> writes into the log, consumed by the back end. The log of a
  batch holds the current bytes of the blocks that were written, so a back end that differs from the
  application only inside these blocks ends with the application's memory.
\<close>

section \<open>The log of a batch\<close>

lemma redo_entries_of_memory:
  "redo_log (map (redo_entry_for m) blocks)" "apply_log (map (redo_entry_for m) blocks) m = m"
  "log_writes (map (redo_entry_for m) blocks) x \<longleftrightarrow> (\<exists>b\<in>set blocks. in_range b 32 x)"
proof -
  have same: "write_bytes m a (read_bytes m a n) = m" for a n by (rule ext) (simp add: memcpy_apply)
  show "redo_log (map (redo_entry_for m) blocks)"
    by (auto simp: redo_log_def redo_entry_for_def)
  show "apply_log (map (redo_entry_for m) blocks) m = m"
    by (induction blocks) (simp_all add: redo_entry_for_def apply_entry_def same)
  show "log_writes (map (redo_entry_for m) blocks) x \<longleftrightarrow> (\<exists>b\<in>set blocks. in_range b 32 x)"
    by (auto simp: log_writes_def redo_entry_for_def PAYLOAD_SIZE_def)
qed

lemma commit_entries:
  assumes "entry_type c = COMMIT_ENTRY"
  shows "redo_log [c]" "apply_log [c] m = m" "\<not> log_writes [c] x"
  using assms by (simp_all add: redo_log_def apply_entry_def log_writes_def entry_type_defs)

lemma log_append:
  "redo_log (es @ es') \<longleftrightarrow> redo_log es \<and> redo_log es'"
  "log_writes (es @ es') x \<longleftrightarrow> log_writes es x \<or> log_writes es' x"
  by (auto simp: redo_log_def log_writes_def)

lemma log_Cons:
  assumes "entry_type c = COMMIT_ENTRY"
  shows "redo_log (c # es) \<longleftrightarrow> redo_log es" "apply_log (c # es) m = apply_log es m"
    "log_writes (c # es) x \<longleftrightarrow> log_writes es x"
  using log_append [of "[c]" es] commit_entries [OF assms] by (simp_all add: apply_entry_def assms entry_type_defs)

text \<open>The entries of the recorded copies, each with its commit, are such a log.\<close>

lemma copy_logs:
  assumes "list_all2 (\<lambda>e lg. \<exists>c. entry_type c = COMMIT_ENTRY \<and>
      lg = map (redo_entry_for m) (memcpy_blocks e) @ [c]) copies logs"
  shows "redo_log (concat logs) \<and> apply_log (concat logs) m = m
    \<and> (\<forall>x. log_writes (concat logs) x \<longleftrightarrow> (\<exists>e\<in>set copies. \<exists>b\<in>set (memcpy_blocks e). in_range b 32 x))"
  using assms
proof (induction rule: list_all2_induct)
  case Nil
  then show ?case by (simp add: redo_log_def log_writes_def)
next
  case (Cons e es lg logs)
  then obtain c where c: "entry_type c = COMMIT_ENTRY" "lg = map (redo_entry_for m) (memcpy_blocks e) @ [c]" by blast
  then show ?case
    using Cons.IH redo_entries_of_memory [of m "memcpy_blocks e"] log_Cons [OF c(1)]
    by (simp add: log_append)
qed

definition batch_blocks :: "front \<Rightarrow> addr list" where
  "batch_blocks s = concat (map memcpy_blocks (recorded_copies s)) @ payload_blocks s"

section \<open>Publishing\<close>

text \<open>The back end once it sees what \<open>instrument_stop\<close> has written to the shared ring buffer.\<close>

abbreviation published :: "front \<Rightarrow> backend \<Rightarrow> backend" where
  "published s b \<equiv> b\<lparr>be_rb := fe_rb s, be_g := (be_g b)\<lparr>global_local_tail := remote_tail (fe_rb s)\<rparr>\<rparr>"

text \<open>The batch is over: nothing is recorded any more.\<close>

definition batch_cleared :: "front \<Rightarrow> bool" where
  "batch_cleared s \<longleftrightarrow> combiner (data s) = 0 \<and> hash_set_entries (data s) = replicate 1024 0
     \<and> number_of_hash_set_entries (data s) = 0 \<and> ma_count (memcpyArray (data s)) = 0 \<and> ob_size (fe_overflow s) = 0"

text \<open>
  The log the back end sees when \<open>instrument_stop\<close> has returned: it gives the blocks of the batch the
  bytes of the application and leaves every other byte alone.
\<close>

lemma batch_log:
  assumes "valid_index (last_persisted_head (fe_rb s))"
    and "last_persisted_tail (fe_rb s) = last_persisted_head (fe_rb s)" "remote_head (fe_rb s) = last_persisted_head (fe_rb s)"
    and "buffers_ok s"
    and "sum_list (map (\<lambda>e. length (memcpy_blocks e) + 1) (recorded_copies s)) + ob_size (fe_overflow s) + 1025 \<le> 65535"
    and "global_local_head (be_g b) = last_persisted_head (fe_rb s)" "no_alias (pmem (be_proc b))"
    and "\<forall>x. (\<exists>a\<in>set (batch_blocks s). in_range a 32 x) \<longrightarrow> be_mapped b x"
  shows "\<exists>s' es. instrument_stop s l = Inr (s', l) \<and> replaying es (published s' b)
    \<and> (\<forall>x. log_writes es x \<longleftrightarrow> (\<exists>a\<in>set (batch_blocks s). in_range a 32 x))
    \<and> (\<forall>m x. m x = fe_mem s x \<or> (\<exists>a\<in>set (batch_blocks s). in_range a 32 x) \<longrightarrow> apply_log es m x = fe_mem s x)
    \<and> batch_cleared s' \<and> fe_mem s' = fe_mem s
    \<and> last_persisted_head (fe_rb s') = last_persisted_head (fe_rb s) \<and> remote_head (fe_rb s') = remote_head (fe_rb s)
    \<and> remote_tail (fe_rb s') = last_persisted_tail (fe_rb s')
    \<and> commit_metadata (fe_rb s') = commit_metadata (fe_rb s)
    \<and> ob_buffer (fe_overflow s') = ob_buffer (fe_overflow s)
    \<and> ma_array (memcpyArray (data s')) = ma_array (memcpyArray (data s))"
proof -
  let ?h = "last_persisted_head (fe_rb s)" and ?m = "fe_mem s"
  have d: "rb_dist ?h (last_persisted_tail (fe_rb s)) = 0" "rb_entries (buffer (fe_rb s)) ?h (last_persisted_tail (fe_rb s)) = []"
    using assms(1,2) rb_entries_Nil_iff [of ?h ?h] by (simp_all add: rb_entries_def)
  have room: "rb_dist ?h (last_persisted_tail (fe_rb s))
       + sum_list (map (\<lambda>e. length (memcpy_blocks e) + 1) (recorded_copies s)) + ob_size (fe_overflow s) + 1025 \<le> 65535"
    using assms(5) d(1) by simp
  have vt: "valid_index (last_persisted_tail (fe_rb s))" using assms(1,2) by simp
  from instrument_stop_ok [OF assms(1) vt assms(4) room, of l]
  obtain s' logs c where s': "instrument_stop s l = Inr (s', l)"
      "list_all2 (\<lambda>e lg. \<exists>c. entry_type c = COMMIT_ENTRY \<and>
          lg = map (redo_entry_for ?m) (memcpy_blocks e) @ [c]) (recorded_copies s) logs"
      "entry_type c = COMMIT_ENTRY"
      "rb_entries (buffer (fe_rb s')) (last_persisted_head (fe_rb s')) (last_persisted_tail (fe_rb s')) =
        rb_entries (buffer (fe_rb s)) ?h (last_persisted_tail (fe_rb s))
        @ concat logs @ map (redo_entry_for ?m) (payload_blocks s) @ [c]"
      "remote_tail (fe_rb s') = last_persisted_tail (fe_rb s')" "batch_cleared s'" "fe_mem s' = ?m"
      "last_persisted_head (fe_rb s') = ?h"
      "remote_head (fe_rb s') = remote_head (fe_rb s)" "valid_index (last_persisted_tail (fe_rb s'))"
      "commit_metadata (fe_rb s') = commit_metadata (fe_rb s)" "ob_buffer (fe_overflow s') = ob_buffer (fe_overflow s)"
      "ma_array (memcpyArray (data s')) = ma_array (memcpyArray (data s))"
    unfolding batch_cleared_def by blast
  define es where "es = concat logs @ map (redo_entry_for ?m) (payload_blocks s) @ [c]"
  have lg: "redo_log es" "apply_log es ?m = ?m"
      "log_writes es x \<longleftrightarrow> (\<exists>a\<in>set (batch_blocks s). in_range a 32 x)" for x
    using copy_logs [OF s'(2)] redo_entries_of_memory [of ?m "payload_blocks s"] commit_entries [OF s'(3)]
    unfolding es_def by (auto simp: log_append batch_blocks_def)
  have ent: "rb_entries (buffer (fe_rb s')) ?h (last_persisted_tail (fe_rb s')) = es"
    using s'(4,8) d(2) by (simp add: es_def)
  have "?h \<noteq> remote_tail (fe_rb s')"
  proof
    assume "?h = remote_tail (fe_rb s')"
    then have "es = []" using rb_entries_Nil_iff [of ?h ?h] assms(1) s'(5) ent by simp
    then show False by (simp add: es_def)
  qed
  moreover have "es \<noteq> []" "entry_type (last es) = COMMIT_ENTRY" using s'(3) by (simp_all add: es_def)
  ultimately have "replaying es (published s' b)"
    using s'(5,9,10) lg(1,3) ent assms(1,3,6-8) by (simp add: replaying_def)
  moreover have "apply_log es m x = ?m x" if "m x = ?m x \<or> (\<exists>a\<in>set (batch_blocks s). in_range a 32 x)" for m x
    using apply_log_determined [of m x ?m es] lg(2) lg(3) [of x] that by metis
  ultimately show ?thesis using s' lg(3) by blast
qed

section \<open>Consumption\<close>

lemma batch_is_persisted:
  assumes "valid_index (last_persisted_head (fe_rb s))"
    and "last_persisted_tail (fe_rb s) = last_persisted_head (fe_rb s)" "remote_head (fe_rb s) = last_persisted_head (fe_rb s)"
    and "buffers_ok s"
    and "sum_list (map (\<lambda>e. length (memcpy_blocks e) + 1) (recorded_copies s)) + ob_size (fe_overflow s) + 1025 \<le> 65535"
    and "global_local_head (be_g b) = last_persisted_head (fe_rb s)" "no_alias (pmem (be_proc b))"
    and "\<forall>x. (\<exists>a\<in>set (batch_blocks s). in_range a 32 x) \<longrightarrow> be_mapped b x"
    and "\<forall>x. be_contents b x \<noteq> fe_mem s x \<longrightarrow> (\<exists>a\<in>set (batch_blocks s). in_range a 32 x)"
  shows "\<exists>s' b'. instrument_stop s l = Inr (s', l) \<and> replay_log k (published s' b) = Some (Inr b')
    \<and> be_contents b' = fe_mem s' \<and> remote_head (be_rb b') = remote_tail (be_rb b')
    \<and> fe_mem s' = fe_mem s"
proof -
  obtain s' es where s': "instrument_stop s l = Inr (s', l)" "replaying es (published s' b)" "fe_mem s' = fe_mem s"
      "\<And>m x. m x = fe_mem s x \<or> (\<exists>a\<in>set (batch_blocks s). in_range a 32 x) \<Longrightarrow> apply_log es m x = fe_mem s x"
    using batch_log [OF assms(1-8), of l] by blast
  obtain b' where b': "replay_log k (published s' b) = Some (Inr b')" "replaying [] b'"
      "be_contents b' = apply_log es (be_contents (published s' b))"
    using replay_ok [OF s'(2), of k] by blast
  have "be_contents b' = fe_mem s'"
  proof
    fix x
    show "be_contents b' x = fe_mem s' x" using s'(4) [of "be_contents b" x] b'(3) assms(9) s'(3) by auto
  qed
  moreover have "remote_head (be_rb b') = remote_tail (be_rb b')" using b'(2) by (simp add: replaying_def)
  ultimately show ?thesis using s'(1,3) b'(1) by blast
qed

end
