(* ===== verification/Local_State_Machine.thy ===== *)
theory Local_State_Machine
  imports Persistence
begin

text \<open>
  The single-threaded example, \<^verbatim>\<open>examples/mangosteen_local/local_state_machine.c\<close>: one persistent memory
  transaction that copies a text into the application's memory block. The text ends up in the
  memory of the back end.
\<close>

section \<open>The example\<close>

definition local_test_string :: string where
  "local_test_string =
     ''It is not the responsibility of knights errant to discover whether the afflicted, '' @
     ''the enchained and the oppressed whom they encounter on the road are reduced to these circumstances '' @
     ''and suffer this distress for their vices, or for their virtues: '' @
     ''the knight's sole responsibility is to succour them as people in need, '' @
     ''having eyes only for their sufferings, not for their misdeeds.''"

text \<open>The block after \<open>initializeStateMachine\<close>, when \<open>open\<close> and \<open>ftruncate\<close> succeed; a failed \<open>mmap\<close> is not noticed.\<close>

definition local_initialize :: "bool \<Rightarrow> bool \<Rightarrow> addr option \<Rightarrow> mem \<Rightarrow> (addr \<times> mem) result" where
  "local_initialize truncated opened mapped_at m =
     (if \<not> truncated \<or> \<not> opened then Inl AssertFail
      else case mapped_at of
             None \<Rightarrow> Inl SegFault
           | Some a \<Rightarrow> Inr (a, write_bytes m a (replicate 4096 0)))"

text \<open>The transaction of \<open>main\<close>; \<open>src\<close> is where the string literal is.\<close>

definition local_transaction :: "addr \<Rightarrow> addr \<Rightarrow> front \<Rightarrow> u64 list \<Rightarrow> (front \<times> u64 list) result" where
  "local_transaction arr src s loads =
     and_then (instrumented_memcpy arr src (of_nat (length local_test_string)) (instrument_start s))
       (\<lambda>s1. instrument_stop s1 loads)"

section \<open>The text is persisted\<close>

definition text_bytes :: "byte list" where
  "text_bytes = map of_char local_test_string"

lemma length_local_test_string [simp]: "length local_test_string = 378"
  unfolding local_test_string_def by simp

lemma length_text_bytes [simp]: "length text_bytes = 378"
  by (simp add: text_bytes_def)

lemma text_blocks:
  "memcpy_blocks \<lparr>me_start = arr, me_end = arr + 378\<rparr> = map (\<lambda>i. arr + of_nat (32 * i)) [0..<12]"
  by (simp add: memcpy_blocks_def Let_def PAYLOAD_SIZE_def)

lemma text_blocks_inside:
  assumes "b \<in> set (memcpy_blocks \<lparr>me_start = arr, me_end = arr + 378\<rparr>)" "in_range b 32 x"
  shows "in_range arr 384 x"
proof -
  obtain i where i: "i < 12" "b = arr + of_nat (32 * i)" using assms(1) unfolding text_blocks by auto
  have "x - arr = (x - b) + of_nat (32 * i)" using i(2) by simp
  then have "unat (x - arr) \<le> unat (x - b) + unat (of_nat (32 * i) :: u64)"
    by (simp only: unat_word_ariths(1) mod_less_eq_dividend)
  moreover have "unat (of_nat (32 * i) :: u64) = 32 * i" using i(1) unfolding unat_of_nat by (intro mod_less) simp
  ultimately show ?thesis using assms(2) i(1) by (simp add: in_range_def)
qed

text \<open>
  The transaction of the single-threaded example is durable. Take a front end between batches, with
  an empty log that has room, whose memory holds the text at \<open>src\<close>, and a back end that waits at the same
  entry, has the application's memory, and has mapped the array and the blocks still in the hash set or
  the overflow buffer. Then the transaction returns without waiting, and when the back end has
  consumed the log its memory is the application's with the text copied to \<open>arr\<close>, and nothing else changed.
\<close>

lemma local_transaction_is_durable:
  assumes "valid_index (last_persisted_head (fe_rb s))"
    and "last_persisted_tail (fe_rb s) = last_persisted_head (fe_rb s)" "remote_head (fe_rb s) = last_persisted_head (fe_rb s)"
    and "buffers_ok s" "ma_count (memcpyArray (data s)) = 0" "ma_array (memcpyArray (data s)) \<noteq> []"
    and "ob_size (fe_overflow s) \<le> 64497" "read_bytes (fe_mem s) src 378 = text_bytes"
    and "global_local_head (be_g b) = last_persisted_head (fe_rb s)" "no_alias (pmem (be_proc b))"
    and "\<forall>x. in_range arr 384 x \<or> (\<exists>a\<in>set (payload_blocks s). in_range a 32 x) \<longrightarrow> be_mapped b x"
    and "be_contents b = fe_mem s"
  shows "\<exists>s' b'. local_transaction arr src s l = Inr (s', l)
    \<and> replay_log k (b\<lparr>be_rb := fe_rb s', be_g := (be_g b)\<lparr>global_local_tail := remote_tail (fe_rb s')\<rparr>\<rparr>) = Some (Inr b')
    \<and> be_contents b' = write_bytes (fe_mem s) arr text_bytes \<and> read_bytes (be_contents b') arr 378 = text_bytes"
proof -
  let ?e = "\<lparr>me_start = arr, me_end = arr + 378\<rparr>"
  obtain x xs where ma: "ma_array (memcpyArray (data s)) = x # xs" using assms(6) by (cases "ma_array (memcpyArray (data s))") auto
  define s1 where "s1 = s\<lparr>data := (data s)\<lparr>combiner := 1, memcpyArray := (memcpyArray (data s))\<lparr>ma_array := ?e # xs, ma_count := 1\<rparr>\<rparr>,
      fe_mem := write_bytes (fe_mem s) arr text_bytes\<rparr>"
  have t: "local_transaction arr src s l = instrument_stop s1 l"
    using assms(5,8) ma
    by (simp add: local_transaction_def instrumented_memcpy_def instrument_start_def record_memcpy_def s1_def)
  have rc: "recorded_copies s1 = [?e]" and pb: "payload_blocks s1 = payload_blocks s"
    by (simp_all add: recorded_copies_def payload_blocks_def s1_def)
  then have bb: "batch_blocks s1 = memcpy_blocks ?e @ payload_blocks s" by (simp add: batch_blocks_def)
  have "\<exists>s' b'. instrument_stop s1 l = Inr (s', l)
    \<and> replay_log k (b\<lparr>be_rb := fe_rb s', be_g := (be_g b)\<lparr>global_local_tail := remote_tail (fe_rb s')\<rparr>\<rparr>) = Some (Inr b')
    \<and> be_contents b' = fe_mem s' \<and> remote_head (be_rb b') = remote_tail (be_rb b') \<and> fe_mem s' = fe_mem s1"
  proof (rule batch_is_persisted)
    show "sum_list (map (\<lambda>e. length (memcpy_blocks e) + 1) (recorded_copies s1)) + ob_size (fe_overflow s1) + 1025 \<le> 65535"
      using assms(7) by (simp add: rc text_blocks) (simp add: s1_def)
    show "\<forall>x. (\<exists>a\<in>set (batch_blocks s1). in_range a 32 x) \<longrightarrow> be_mapped b x"
      using assms(11) text_blocks_inside [of _ arr] unfolding bb by (metis Un_iff set_append)
    have "\<exists>a\<in>set (memcpy_blocks ?e). in_range a 32 x" if "be_contents b x \<noteq> fe_mem s1 x" for x
    proof -
      have "in_range arr 378 x"
        using that assms(12) write_bytes_outside [of arr text_bytes x "fe_mem s"] by (auto simp: s1_def)
      then show ?thesis using memcpy_blocks_cover [of 378 arr x] by simp
    qed
    then show "\<forall>x. be_contents b x \<noteq> fe_mem s1 x \<longrightarrow> (\<exists>a\<in>set (batch_blocks s1). in_range a 32 x)"
      unfolding bb by auto
    show "buffers_ok s1" using assms(4) by (simp add: buffers_ok_def s1_def)
  qed (use assms(1-3,9,10) in \<open>simp_all add: s1_def\<close>)
  then show ?thesis using t read_write_bytes [of text_bytes] by (auto simp: s1_def)
qed

text \<open>The text at address 8192, the array at 65536, and nothing recorded yet.\<close>

definition local_memory :: mem where
  "local_memory = write_bytes (\<lambda>_. 0) 8192 text_bytes"

definition local_front :: front where
  "local_front =
     example_front\<lparr>data := example_thread\<lparr>memcpyArray := \<lparr>ma_count = 0, ma_array = replicate 100 \<lparr>me_start = 0, me_end = 0\<rparr>\<rparr>\<rparr>,
                   fe_mem := local_memory\<rparr>"

definition local_backend :: backend where
  "local_backend =
     \<lparr>be_rb = zero_ring_buffer,
      be_g = \<lparr>global_local_head = 0, global_local_tail = 0, number_of_mmaped_memory_regions = 0\<rparr>,
      be_proc = \<lparr>rt = zero_region_table, sequenceNumber = 0,
        pmem = \<lparr>vmap = (\<lambda>_. Some Anon_byte), anon = local_memory, files = (\<lambda>_. None)\<rparr>\<rparr>\<rparr>"

lemma local_transaction_is_durable_witness:
  "\<exists>s' b'. local_transaction 65536 8192 local_front [] = Inr (s', [])
    \<and> replay_log accepting_kernel (local_backend\<lparr>be_rb := fe_rb s',
        be_g := (be_g local_backend)\<lparr>global_local_tail := remote_tail (fe_rb s')\<rparr>\<rparr>) = Some (Inr b')
    \<and> be_contents b' = write_bytes (fe_mem local_front) 65536 text_bytes
    \<and> read_bytes (be_contents b') 65536 378 = text_bytes"
proof (rule local_transaction_is_durable)
  show "read_bytes (fe_mem local_front) 8192 378 = text_bytes"
    using read_write_bytes [of text_bytes] by (simp add: local_front_def local_memory_def)
  show "buffers_ok local_front"
    by (simp add: buffers_ok_def local_front_def example_front_def example_thread_def)
  show "be_contents local_backend = fe_mem local_front"
    by (simp add: local_backend_def local_front_def contents_def load_byte_def fun_eq_iff)
qed (simp_all add: local_front_def local_backend_def example_front_def zero_ring_buffer_def mapped_def load_byte_def no_alias_def)

end
