(* ===== verification/Application.thy ===== *)
theory Application
  imports Flat_Combining
begin

text \<open>
  What an application may rely on when it runs its requests through \<open>Flat_Combining\<close>: a run is as
  good as calling \<open>processRequestCallBack\<close> on the requests one after the other. \<open>outcome\<close> and \<open>answered\<close>
  are that sequential execution. The locale \<open>application_refinement\<close> is the interface of an
  application: given an abstract machine and a relation that its callback keeps, every interleaving
  of its threads behaves as the abstract machine. The example programs interpret it.
\<close>

section \<open>Sequential execution\<close>

definition outcome :: "('c \<Rightarrow> 'a \<Rightarrow> 'c \<times> 'a) \<Rightarrow> 'a \<Rightarrow> (nat \<times> 'c) list \<Rightarrow> 'a" where
  "outcome f a h = fold (\<lambda>(t, c) a. snd (f c a)) h a"

text \<open>The requests with the threads that issued them and the answers they get.\<close>

fun answered :: "('c \<Rightarrow> 'a \<Rightarrow> 'c \<times> 'a) \<Rightarrow> 'a \<Rightarrow> (nat \<times> 'c) list \<Rightarrow> (nat \<times> 'c \<times> 'c) list" where
  "answered f a [] = []"
| "answered f a ((t, c) # h) = (t, c, fst (f c a)) # answered f (snd (f c a)) h"

definition answers_to :: "nat \<Rightarrow> (nat \<times> 'c \<times> 'c) list \<Rightarrow> ('c \<times> 'c) list" where
  "answers_to t l = map snd (filter (\<lambda>x. fst x = t) l)"

lemma outcome_simps [simp]:
  "outcome f a [] = a" "outcome f a ((t, c) # h) = outcome f (snd (f c a)) h"
  "outcome f a (h @ h') = outcome f (outcome f a h) h'"
  by (simp_all add: outcome_def)

lemma answered_append: "answered f a (h @ h') = answered f a h @ answered f (outcome f a h) h'"
  by (induction f a h rule: answered.induct) simp_all

lemma answers_to_append [simp]: "answers_to t (l @ l') = answers_to t l @ answers_to t l'"
  by (simp add: answers_to_def)

lemma fst_answered: "map fst (answers_to t (answered f a h)) = map snd (filter (\<lambda>x. fst x = t) h)"
  by (induction f a h rule: answered.induct) (auto simp: answers_to_def)

lemma last_answer:
  "answers_to t l \<noteq> [] \<Longrightarrow> \<exists>i<length l. fst (l ! i) = t \<and> (\<forall>j. i < j \<and> j < length l \<longrightarrow> fst (l ! j) \<noteq> t)
     \<and> last (answers_to t l) = snd (l ! i)"
proof (induction l rule: rev_induct)
  case (snoc x l)
  show ?case
  proof (cases "fst x = t")
    case True
    then show ?thesis by (intro exI [of _ "length l"]) (simp add: answers_to_def)
  next
    case False
    then obtain i where "i < length l" "fst (l ! i) = t" "\<forall>j. i < j \<and> j < length l \<longrightarrow> fst (l ! j) \<noteq> t"
        "last (answers_to t l) = snd (l ! i)"
      using snoc by (auto simp: answers_to_def)
    with False show ?thesis by (intro exI [of _ i]) (auto simp: answers_to_def nth_append less_Suc_eq)
  qed
qed (simp add: answers_to_def)

lemma serve_is_sequential:
  "fold (serve cb) h (a, \<lambda>_. None) =
     (outcome (processRequestCallBack cb) a h,
      \<lambda>t. let l = answers_to t (answered (processRequestCallBack cb) a h) in if l = [] then None else Some (snd (last l)))"
proof (induction h rule: rev_induct)
  case Nil
  then show ?case by (simp add: answers_to_def)
next
  case (snoc x h)
  obtain t c where "x = (t, c)" by fastforce
  with snoc show ?case
    by (auto simp: serve_def answered_append answers_to_def Let_def fun_eq_iff)
qed

text \<open>Every reachable state of the worker threads, seen as sequential execution.\<close>

lemma reachable_is_sequential:
  assumes "fc_start a s0" "rtranclp (fc_step cb) s0 s"
  defines "l \<equiv> answered (processRequestCallBack cb) a (history s)"
  shows "app s = outcome (processRequestCallBack cb) a (history s)"
    and "thread_pc s t = Idle \<Longrightarrow> map fst (answers_to t l) = requested s t"
    and "thread_pc s t = Idle \<Longrightarrow> answers_to t l \<noteq> [] \<Longrightarrow> snd (last (answers_to t l)) = struct_of s t"
    and "\<exists>rest. requested s t = map fst (answers_to t l) @ rest \<and> length rest \<le> 1"
proof -
  have inv: "task_inv s" "answers_ok cb a s" using fci.inv_reachable [OF assms(1,2)] by (simp_all add: fc_inv_def)
  have sv: "map fst (answers_to t l) = served_by s t" for t by (simp add: l_def fst_answered served_by_def)
  have an: "app s = outcome (processRequestCallBack cb) a (history s)"
    "\<forall>t. settled s t \<longrightarrow> requested s t \<noteq> [] \<longrightarrow> answers_to t l \<noteq> [] \<and> snd (last (answers_to t l)) = struct_of s t"
    using inv(2) unfolding answers_ok_def serve_is_sequential by (auto simp: l_def Let_def split: if_splits)
  show "app s = outcome (processRequestCallBack cb) a (history s)" using an(1) .
  have idle: "settled s t" if "thread_pc s t = Idle" for t using task_invD(8) [OF inv(1), of t] that by simp
  show "map fst (answers_to t l) = requested s t" if "thread_pc s t = Idle"
    using idle [OF that] sv by (simp add: settled_def)
  then show "snd (last (answers_to t l)) = struct_of s t" if "thread_pc s t = Idle" "answers_to t l \<noteq> []"
    using idle [OF that(1)] an(2) that by force
  show "\<exists>rest. requested s t = map fst (answers_to t l) @ rest \<and> length rest \<le> 1"
    using settled_or_pending [OF inv(1), of t] unfolding sv settled_def pending_def by auto
qed

section \<open>Applications\<close>

locale application_refinement =
  fixes cb :: "('c, 'a) callbacks"
    and command_ok :: "'c \<Rightarrow> bool"
    and rel :: "'a \<Rightarrow> 'b \<Rightarrow> bool"
    and aprocess :: "'c \<Rightarrow> 'b \<Rightarrow> 'c \<times> 'b"
  assumes process_answer: "command_ok c \<Longrightarrow> rel a b \<Longrightarrow> fst (processRequestCallBack cb c a) = fst (aprocess c b)"
    and process_state: "command_ok c \<Longrightarrow> rel a b \<Longrightarrow> rel (snd (processRequestCallBack cb c a)) (snd (aprocess c b))"
begin

lemma sequential_refines:
  assumes "rel a b" "\<forall>x\<in>set h. command_ok (snd x)"
  shows "rel (outcome (processRequestCallBack cb) a h) (outcome aprocess b h)
    \<and> answered (processRequestCallBack cb) a h = answered aprocess b h"
  using assms
proof (induction h arbitrary: a b)
  case (Cons x h)
  obtain t c where x: "x = (t, c)" by fastforce
  then have c: "command_ok c" using Cons.prems(2) by simp
  show ?case
    using Cons.IH [OF process_state [OF c Cons.prems(1)]] Cons.prems process_answer [OF c Cons.prems(1)]
    by (simp add: x)
qed simp

text \<open>The commands a run has executed were issued by its threads.\<close>

lemma executed_ok:
  assumes "fc_start a s0" "rtranclp (fc_step cb) s0 s" "\<forall>t. \<forall>c\<in>set (requested s t). command_ok c"
  shows "\<forall>x\<in>set (history s). command_ok (snd x)"
proof -
  have "task_inv s" using fci.inv_reachable [OF assms(1,2)] by (simp add: fc_inv_def)
  then show ?thesis using history_was_requested assms(3) by fastforce
qed

lemma run_refines:
  assumes "fc_start a s0" "rtranclp (fc_step cb) s0 s" "rel a b" "\<forall>x\<in>set (history s). command_ok (snd x)"
  shows "rel (app s) (outcome aprocess b (history s))"
    and "thread_pc s t = Idle \<Longrightarrow> requested s t \<noteq> [] \<Longrightarrow>
      snd (last (answers_to t (answered aprocess b (history s)))) = struct_of s t"
proof -
  note r = sequential_refines [OF assms(3,4)] and q = reachable_is_sequential [OF assms(1,2)]
  show "rel (app s) (outcome aprocess b (history s))" using r q(1) by simp
  show "snd (last (answers_to t (answered aprocess b (history s)))) = struct_of s t"
    if "thread_pc s t = Idle" "requested s t \<noteq> []"
    using r q(2,3) [of t] that by fastforce
qed

end

end
