(* ===== verification/Text_Copy.thy ===== *)
theory Text_Copy
  imports Application
begin

text \<open>
  The multi-threaded example,
  \<^verbatim>\<open>examples/mangosteen_local_multi_thread/local_state_machine_multithread.c\<close>: four threads copy
  a text character by character through the library. The application is an instance of the
  callbacks of \<open>Flat_Combining\<close>; what the example asserts at its end follows, for every
  interleaving, from the invariant of that theory.

  The state of the application is what its three global variables hold, or the fault that stopped
  it. A C string is the list of its characters up to the end of the object it is in.
\<close>

section \<open>The application\<close>

definition MEMORY_BLOCK_SIZE :: nat where "MEMORY_BLOCK_SIZE = 4096"
definition COPY_CHARACTER :: int where "COPY_CHARACTER = 0"
definition PRINT_STATS :: int where "PRINT_STATS = 1"

definition NUL :: char where "NUL = CHR 0x00"

text \<open>The literal with its terminating byte.\<close>

definition test_string :: string where
  "test_string =
     ''It is not the responsibility of knights errant to discover whether the afflicted, '' @
     ''the enchained and the oppressed whom they encounter on the road are reduced to these circumstances '' @
     ''and suffer this distress for their vices, or for their virtues: '' @
     ''the knight's sole responsibility is to succour them as people in need, '' @
     ''having eyes only for their sufferings, not for their misdeeds.'' @ [NUL]"

text \<open>The fields of \<open>serialized_app_command\<close> this application uses.\<close>

record serialized_app_command =
  op_type :: int

record state_machine =
  arr :: string
  current_character_index :: u64
  number_of_characters_to_copy :: u64

text \<open>\<open>strlen\<close> and \<open>strcmp\<close> run over the object until a NUL; past its end they are undefined.\<close>

fun strlen :: "string \<Rightarrow> nat result" where
  "strlen [] = Inl OutOfBounds"
| "strlen (c # cs) = (if c = NUL then Inr 0 else and_then (strlen cs) (\<lambda>n. Inr (Suc n)))"

fun strcmp :: "string \<Rightarrow> string \<Rightarrow> int result" where
  "strcmp [] ys = Inl OutOfBounds"
| "strcmp xs [] = Inl OutOfBounds"
| "strcmp (x # xs) (y # ys) =
     (if x \<noteq> y then Inr (of_char x - of_char y) else if x = NUL then Inr 0 else strcmp xs ys)"

text \<open>
  Whether \<open>open\<close>, \<open>ftruncate\<close> and \<open>mmap\<close> succeed is up to the system; a failed \<open>mmap\<close> is noticed
  only by the \<open>bzero\<close> of its result. The file and the mapping have \<open>MEMORY_BLOCK_SIZE\<close> bytes.
\<close>

definition initializeStateMachine :: "bool \<Rightarrow> bool \<Rightarrow> bool \<Rightarrow> state_machine \<Rightarrow> state_machine result" where
  "initializeStateMachine open_ok ftruncate_ok mmap_ok m =
     (if \<not> (open_ok \<and> ftruncate_ok) then Inl AssertFail
      else if \<not> mmap_ok then Inl SegFault
      else Inr (m\<lparr>arr := replicate MEMORY_BLOCK_SIZE NUL\<rparr>))"

definition copyTextBlock :: "state_machine \<Rightarrow> state_machine result" where
  "copyTextBlock m =
     (if current_character_index m \<le> number_of_characters_to_copy m
      then let i = unat (current_character_index m)
           in if i < length (arr m) \<and> i < length test_string
              then Inr (m\<lparr>arr := (arr m)[i := test_string ! i],
                          current_character_index := current_character_index m + 1\<rparr>)
              else Inl OutOfBounds
      else Inr m)"

text \<open>The difference is unsigned.\<close>

definition printProgress :: "state_machine \<Rightarrow> state_machine result" where
  "printProgress m =
     (if number_of_characters_to_copy m - current_character_index m \<ge> 0 then Inr m else Inl AssertFail)"

definition isReadOnly :: "serialized_app_command \<Rightarrow> bool" where
  "isReadOnly c = (if op_type c = COPY_CHARACTER then False else True)"

definition processCommand :: "serialized_app_command \<Rightarrow> state_machine \<Rightarrow> state_machine result" where
  "processCommand c m =
     (if op_type c = COPY_CHARACTER then copyTextBlock m
      else if op_type c = PRINT_STATS then printProgress m
      else Inl ExitFailure)"

text \<open>The callbacks of \<open>main\<close>: the command is left as it is, a fault stops the process.\<close>

definition text_copy_callbacks :: "(serialized_app_command, state_machine result) callbacks" where
  "text_copy_callbacks =
     \<lparr>isReadOnlyCallBack = isReadOnly,
      processRequestCallBack = (\<lambda>c a. (c, and_then a (processCommand c)))\<rparr>"

text \<open>The command \<open>runWorkerThread\<close> builds from a random bit, and the condition of its loop.\<close>

definition worker_command :: "int \<Rightarrow> serialized_app_command" where
  "worker_command randomBit = (if randomBit = 1 then \<lparr>op_type = PRINT_STATS\<rparr> else \<lparr>op_type = COPY_CHARACTER\<rparr>)"

definition worker_continues :: "state_machine \<Rightarrow> bool" where
  "worker_continues m \<longleftrightarrow> current_character_index m < number_of_characters_to_copy m"

text \<open>\<open>executeTextCopy\<close> before the threads start, and its assertion after they are joined.\<close>

definition start_text_copy :: "state_machine \<Rightarrow> state_machine result" where
  "start_text_copy m =
     and_then (strlen test_string)
       (\<lambda>n. Inr (m\<lparr>number_of_characters_to_copy := of_nat n, current_character_index := 0\<rparr>))"

definition finish_text_copy :: "state_machine \<Rightarrow> unit result" where
  "finish_text_copy m = and_then (strcmp test_string (arr m)) (\<lambda>d. if d = 0 then Inr () else Inl AssertFail)"

section \<open>The copy\<close>

lemma strlen_append: "NUL \<notin> set xs \<Longrightarrow> strlen (xs @ [NUL]) = Inr (length xs)"
  by (induction xs) auto

lemma strcmp_prefix: "NUL \<notin> set xs \<Longrightarrow> strcmp (xs @ [NUL]) (xs @ NUL # ys) = Inr 0"
  by (induction xs) auto

definition copied_text :: string where "copied_text = butlast test_string"

lemma test_string_text: "test_string = copied_text @ [NUL]" "NUL \<notin> set copied_text" "length copied_text = 378"
  unfolding copied_text_def test_string_def NUL_def by simp_all

lemma length_test_string [simp]: "length test_string = 379"
  by (simp add: test_string_text)

text \<open>
  The block after the first \<open>k\<close> characters have been copied, and the application after \<open>k\<close> copies
  into a block that had \<open>j\<close> characters when it started: \<open>0\<close> in a fresh file, or what an earlier
  process got done, when its memory has been restored.
\<close>

definition block :: "nat \<Rightarrow> string" where
  "block k = take k test_string @ replicate (MEMORY_BLOCK_SIZE - min k (length test_string)) NUL"

definition after_copies :: "nat \<Rightarrow> nat \<Rightarrow> state_machine" where
  "after_copies j k =
     \<lparr>arr = block (max j k), current_character_index = of_nat (min k (length test_string)),
      number_of_characters_to_copy = of_nat (length copied_text)\<rparr>"

lemma length_block [simp]: "length (block k) = 4096"
  by (simp add: block_def MEMORY_BLOCK_SIZE_def)

lemma replicate_minus: "k < n \<Longrightarrow> replicate (n - k) x = x # replicate (n - Suc k) x"
  by (metis Suc_diff_Suc replicate_Suc)

lemma block_same: "k < j \<Longrightarrow> k < 379 \<Longrightarrow> (block j)[k := test_string ! k] = block j"
  by (rule nth_equalityI) (simp_all add: block_def nth_list_update nth_append)

lemma block_Suc:
  assumes "k < 379"
  shows "(block k)[k := test_string ! k] = block (Suc k)"
proof -
  have "replicate (4096 - k) NUL = NUL # replicate (4096 - Suc k) NUL"
    using assms by (intro replicate_minus) simp
  then show ?thesis
    using assms by (simp add: block_def MEMORY_BLOCK_SIZE_def list_update_append take_Suc_conv_app_nth)
qed

lemma block_beyond: "379 \<le> k \<Longrightarrow> block k = block 379"
  by (simp add: block_def)

lemma number_of_characters [simp]: "number_of_characters_to_copy (after_copies j k) = 378"
  by (simp add: after_copies_def test_string_text)

lemma arr_after_copies [simp]: "arr (after_copies j k) = block (max j k)"
  by (simp add: after_copies_def)

lemma index_after_copies [simp]: "unat (current_character_index (after_copies j k)) = min k 379"
proof -
  have "min k 379 < 2 ^ 64" by simp
  then show ?thesis by (simp add: after_copies_def unat_of_nat take_bit_nat_eq_self)
qed

lemma copy_after_copies: "copyTextBlock (after_copies j k) = Inr (after_copies j (Suc k))"
proof (cases "k < 379")
  case True
  let ?m = "after_copies j k"
  have "current_character_index ?m \<le> number_of_characters_to_copy ?m"
    using True by (simp add: word_le_nat_alt)
  moreover have "(block (max j k))[k := test_string ! k] = block (max j (Suc k))"
    using True block_same [of k j] block_Suc [of k] by (cases "k < j") (simp_all add: max_absorb1 max_absorb2)
  ultimately show ?thesis
    using True by (simp add: copyTextBlock_def) (simp add: after_copies_def)
next
  case False
  then have "block (max j (Suc k)) = block (max j k)"
    using block_beyond [of "max j k"] block_beyond [of "max j (Suc k)"] by simp
  then have "current_character_index (after_copies j k) = 379" "after_copies j (Suc k) = after_copies j k"
    using False by (simp_all add: after_copies_def)
  then show ?thesis by (simp add: copyTextBlock_def)
qed

lemma finish_after_copies:
  assumes "378 \<le> k"
  shows "finish_text_copy (after_copies j k) = Inr ()"
proof -
  have "\<exists>ys. block i = copied_text @ NUL # ys" if "378 \<le> i" for i
  proof (cases "i = 378")
    case True
    moreover have "replicate 3718 NUL = NUL # replicate 3717 NUL"
      using replicate_minus [of 378 4096 NUL] by simp
    ultimately show ?thesis by (simp add: block_def test_string_text MEMORY_BLOCK_SIZE_def)
  next
    case False
    then show ?thesis using that by (simp add: block_def test_string_text)
  qed
  moreover have "378 \<le> max j k" using assms by simp
  ultimately obtain ys where "block (max j k) = copied_text @ NUL # ys" by blast
  then show ?thesis
    using strcmp_prefix [OF test_string_text(2)] by (simp add: finish_text_copy_def test_string_text(1))
qed

lemma start_after_copies:
  assumes "arr m = block j"
  shows "start_text_copy m = Inr (after_copies j 0)"
  using assms
  by (simp add: start_text_copy_def after_copies_def strlen_append test_string_text state_machine.defs)

lemma initialize_block:
  "initializeStateMachine True True True m = Inr (m\<lparr>arr := block 0\<rparr>)"
  by (simp add: initializeStateMachine_def block_def)

section \<open>Any interleaving\<close>

definition copy_count :: "(nat \<times> serialized_app_command) list \<Rightarrow> nat" where
  "copy_count h = length (filter (\<lambda>(t, c). op_type c = COPY_CHARACTER) h)"

text \<open>The abstract application counts the copies.\<close>

definition count_copies :: "serialized_app_command \<Rightarrow> nat \<Rightarrow> serialized_app_command \<times> nat" where
  "count_copies c k = (c, if op_type c = COPY_CHARACTER then Suc k else k)"

interpretation tcp: application_refinement text_copy_callbacks "\<lambda>c. c \<in> range worker_command"
    "\<lambda>a k. a = Inr (after_copies j k)" count_copies
proof unfold_locales
  fix c and a :: "state_machine result" and k
  assume "c \<in> range worker_command" and a: "a = Inr (after_copies j k)"
  then have "op_type c = COPY_CHARACTER \<or> op_type c = PRINT_STATS"
    by (auto simp: worker_command_def split: if_splits)
  then show "snd (processRequestCallBack text_copy_callbacks c a) = Inr (after_copies j (snd (count_copies c k)))"
    by (auto simp: a text_copy_callbacks_def count_copies_def processCommand_def copy_after_copies printProgress_def
        COPY_CHARACTER_def PRINT_STATS_def)
qed (simp add: text_copy_callbacks_def count_copies_def)

lemma outcome_count_copies: "outcome count_copies k h = k + copy_count h"
  by (induction h arbitrary: k) (auto simp: count_copies_def copy_count_def)

text \<open>After any run the application has copied as many characters as copy commands were executed.\<close>

lemma copies_so_far:
  assumes "fc_start (Inr (after_copies j 0)) s0" "rtranclp (fc_step text_copy_callbacks) s0 s"
    and "\<forall>t. set (requested s t) \<subseteq> range worker_command"
  shows "app s = Inr (after_copies j (copy_count (history s)))"
proof -
  have "\<forall>x\<in>set (history s). snd x \<in> range worker_command"
    using tcp.executed_ok [OF assms(1,2)] assms(3) by blast
  then show ?thesis using tcp.run_refines(1) [OF assms(1,2)] by (simp add: outcome_count_copies)
qed

text \<open>
  The assertion at the end of \<open>executeTextCopy\<close> holds. Four threads issue copy and print
  commands in any interleaving, on a block that was fresh or that an earlier process had filled up
  to some character. In every state the application has copied as many characters as copy commands
  were executed (and stops after the terminating byte), nothing faults; and once a thread has
  seen the index reach the length of the text and left its loop, the block compares equal to
  the text in every later state, in particular when all threads have been joined.
\<close>

lemma text_copy_assertion_holds:
  assumes "fc_start (start_text_copy m) s0" "arr m = block j"
    and "rtranclp (fc_step text_copy_callbacks) s0 s" "rtranclp (fc_step text_copy_callbacks) s s'"
    and "\<forall>t. set (requested s' t) \<subseteq> range worker_command"
  shows "\<exists>m m'. app s = Inr m \<and> app s' = Inr m'
    \<and> unat (current_character_index m') = min (copy_count (history s')) 379
    \<and> (\<not> worker_continues m \<longrightarrow> finish_text_copy m' = Inr ())"
proof -
  have run: "rtranclp (fc_step text_copy_callbacks) s0 s'" using assms(3,4) by simp
  obtain h where h: "history s' = history s @ h" using history_grows [OF assms(4)] by blast
  have issued: "\<forall>x\<in>set (history s'). snd x \<in> range worker_command"
    using tcp.executed_ok [OF assms(1) run] assms(5) by blast
  have st: "start_text_copy m = Inr (after_copies j 0)" using start_after_copies [OF assms(2)] .
  have "app s = Inr (after_copies j (copy_count (history s)))"
    using tcp.run_refines(1) [OF assms(1,3) st] issued by (simp add: h outcome_count_copies)
  moreover have "app s' = Inr (after_copies j (copy_count (history s')))"
    using tcp.run_refines(1) [OF assms(1) run st issued] by (simp add: outcome_count_copies)
  moreover have "finish_text_copy (after_copies j (copy_count (history s'))) = Inr ()"
    if "\<not> worker_continues (after_copies j (copy_count (history s)))"
  proof -
    have "378 \<le> copy_count (history s)" using that by (auto simp: worker_continues_def word_less_nat_alt)
    then show ?thesis by (intro finish_after_copies) (simp add: copy_count_def h)
  qed
  ultimately show ?thesis by auto
qed

text \<open>Thread 1 copies a character, then thread 0 prints.\<close>

definition example_copy :: "state_machine result \<Rightarrow> (serialized_app_command, state_machine result) fc" where
  "example_copy a = fresh_fc (worker_command 1) a"

definition copy_moves :: "serialized_app_command move list" where
  "copy_moves = Request 1 (worker_command 0) # replicate 24 (Run 1) @ Request 0 (worker_command 1) # replicate 4 (Run 0)"

definition copy_schedule :: "state_machine result \<Rightarrow> (serialized_app_command, state_machine result) fc" where
  "copy_schedule a = the (do_moves text_copy_callbacks copy_moves (example_copy a))"

lemma copy_schedule:
  "do_moves text_copy_callbacks copy_moves (example_copy a) = Some (copy_schedule a)"
  "copy_count (history (copy_schedule a)) = 1"
proof -
  have "do_moves text_copy_callbacks copy_moves (example_copy a) \<noteq> None" by code_simp
  then show "do_moves text_copy_callbacks copy_moves (example_copy a) = Some (copy_schedule a)"
    by (auto simp: copy_schedule_def)
  show "copy_count (history (copy_schedule a)) = 1" by code_simp
qed

lemma text_copy_assertion_holds_witness:
  "\<exists>m'. app (copy_schedule (Inr (after_copies 7 0))) = Inr m' \<and> unat (current_character_index m') = 1"
proof -
  let ?m = "\<lparr>arr = block 7, current_character_index = 5, number_of_characters_to_copy = 0\<rparr>"
  let ?s = "copy_schedule (Inr (after_copies 7 0))"
  have "start_text_copy ?m = Inr (after_copies 7 0)" by (rule start_after_copies) simp
  then have start: "fc_start (start_text_copy ?m) (example_copy (Inr (after_copies 7 0)))" by (simp add: example_copy_def fresh_fc_start)
  have issued: "\<forall>t. set (requested ?s t) \<subseteq> range worker_command"
    using requested_from_moves [OF copy_schedule(1) [of "Inr (after_copies 7 0)"]]
    by (fastforce simp: copy_moves_def example_copy_def fresh_fc_start)
  show ?thesis
    using text_copy_assertion_holds [OF start _ do_moves_run [OF copy_schedule(1)] rtranclp.rtrancl_refl issued, of 7]
    by (simp add: copy_schedule(2)) metis
qed

end
