(* ===== verification/KV_Store.thy ===== *)
theory KV_Store
  imports Application
begin

text \<open>
  The key-value store example, \<^verbatim>\<open>examples/KVStoreStateMachine/kv_state_machine.c\<close> and
  \<^verbatim>\<open>kv_state_machine.h\<close>: an array of 65536 values of 128 bytes, with \<open>PUT\<close> and \<open>GET\<close> commands, as
  another instance of the callbacks of \<open>Flat_Combining\<close>. The store is a byte list; a \<open>memcpy\<close> that
  leaves its source or destination array is \<open>OutOfBounds\<close>. The \<open>printf\<close> calls are left out.
\<close>

section \<open>The application\<close>

definition STORE_SZ :: nat where "STORE_SZ = 65536"
definition VAL_SZ :: nat where "VAL_SZ = 128"
definition RESP_SZ :: nat where "RESP_SZ = 3"

lemmas size_defs = STORE_SZ_def VAL_SZ_def RESP_SZ_def

datatype kv_type = PUT | GET

record kvCmd =
  cmd_type :: kv_type
  cmd_index :: u32
  cmd_value :: "byte list"

record kvClient =
  client_id :: int
  currCmd :: kvCmd
  client_response :: "byte list"

record mangoResponse =
  mango_response :: "byte list"
  mango_size :: nat

text \<open>\<open>memcpy\<close> of \<open>n\<close> bytes of the array \<open>src\<close> to offset \<open>d\<close> of the array \<open>dst\<close>.\<close>

definition copy_bytes :: "byte list \<Rightarrow> int \<Rightarrow> byte list \<Rightarrow> nat \<Rightarrow> byte list result" where
  "copy_bytes dst d src n =
     (if 0 \<le> d \<and> nat d + n \<le> length dst \<and> n \<le> length src
      then Inr (take (nat d) dst @ take n src @ drop (nat d + n) dst)
      else Inl OutOfBounds)"

definition initKVStoreStateMachine :: "byte list" where
  "initKVStoreStateMachine = replicate (STORE_SZ * VAL_SZ) 0"

text \<open>\<open>index * VAL_SZ\<close> at the width of \<open>int\<close>.\<close>

definition value_offset :: "kvCmd \<Rightarrow> int" where
  "value_offset cmd = sint (cmd_index cmd * of_nat VAL_SZ)"

definition getValueAtIndex :: "kvClient \<Rightarrow> byte list \<Rightarrow> kvClient result" where
  "getValueAtIndex c st =
     (let off = value_offset (currCmd c)
      in if 0 \<le> off \<and> nat off \<le> length st
         then and_then (copy_bytes (client_response c) 0 (drop (nat off) st) VAL_SZ)
                (\<lambda>r. Inr (c\<lparr>client_response := r\<rparr>))
         else Inl OutOfBounds)"

definition putValueAtIndex :: "kvClient \<Rightarrow> byte list \<Rightarrow> (kvClient \<times> byte list) result" where
  "putValueAtIndex c st =
     and_then (copy_bytes st (value_offset (currCmd c)) (cmd_value (currCmd c)) VAL_SZ)
       (\<lambda>st'. and_then (copy_bytes (client_response c) 0 [79, 75, 0] 2)
          (\<lambda>r. Inr (c\<lparr>client_response := r\<rparr>, st')))"

definition handleRequest :: "kvClient \<Rightarrow> byte list \<Rightarrow> (kvClient \<times> byte list) result" where
  "handleRequest c st =
     (if cmd_type (currCmd c) = PUT then putValueAtIndex c st
      else and_then (getValueAtIndex c st) (\<lambda>c'. Inr (c', st)))"

text \<open>The block \<open>malloc\<close> returns holds \<open>garbage\<close>.\<close>

definition initAppClient :: "kvClient \<Rightarrow> int \<Rightarrow> kvClient" where
  "initAppClient garbage params = garbage\<lparr>client_id := params\<rparr>"

definition deserializeRequest :: "kvClient \<Rightarrow> kvCmd \<Rightarrow> kvClient" where
  "deserializeRequest c raw_req = c\<lparr>currCmd := raw_req\<rparr>"

definition kv_isReadOnly :: "kvClient \<Rightarrow> bool" where
  "kv_isReadOnly c = (if cmd_type (currCmd c) = PUT then False else True)"

definition kv_processRequest :: "kvClient \<Rightarrow> byte list result \<Rightarrow> kvClient \<times> byte list result" where
  "kv_processRequest c a =
     (case and_then a (handleRequest c) of Inl e \<Rightarrow> (c, Inl e) | Inr (c', st) \<Rightarrow> (c', Inr st))"

definition getResponse :: "kvClient \<Rightarrow> mangoResponse" where
  "getResponse c = \<lparr>mango_response = client_response c, mango_size = VAL_SZ\<rparr>"

definition kv_callbacks :: "(kvClient, byte list result) callbacks" where
  "kv_callbacks = \<lparr>isReadOnlyCallBack = kv_isReadOnly, processRequestCallBack = kv_processRequest\<rparr>"

text \<open>The command of the example's worker thread, from the 17 bytes of its literal.\<close>

definition worker_put :: "byte list \<Rightarrow> kvCmd result" where
  "worker_put garbage =
     and_then (copy_bytes garbage 0 ([97, 98, 99, 100, 101, 102, 103, 104, 105, 106, 107, 108, 109, 110, 111, 112, 0]) VAL_SZ)
       (\<lambda>v. Inr \<lparr>cmd_type = PUT, cmd_index = 0, cmd_value = v\<rparr>)"

section \<open>Slots\<close>

definition slot :: "byte list \<Rightarrow> nat \<Rightarrow> byte list" where
  "slot st i = take VAL_SZ (drop (i * VAL_SZ) st)"

definition store_wf :: "byte list \<Rightarrow> bool" where
  "store_wf st \<longleftrightarrow> length st = STORE_SZ * VAL_SZ"

definition client_wf :: "kvClient \<Rightarrow> bool" where
  "client_wf c \<longleftrightarrow> length (cmd_value (currCmd c)) = VAL_SZ \<and> length (client_response c) = RESP_SZ"

text \<open>A \<open>PUT\<close> to one of the slots.\<close>

definition valid_put :: "kvClient \<Rightarrow> bool" where
  "valid_put c \<longleftrightarrow> client_wf c \<and> cmd_type (currCmd c) = PUT \<and> cmd_index (currCmd c) < of_nat STORE_SZ"

lemma sint32_nonneg:
  fixes w :: u32
  assumes "uint w < 2 ^ 31"
  shows "sint w = uint w"
proof -
  have "- (2 ^ 31) \<le> uint w" by (rule order_trans [OF _ uint_ge_0]) simp
  then show ?thesis using assms by (simp add: sint_uint signed_take_bit_int_eq_self)
qed

lemma value_offset_valid:
  assumes "cmd_index cmd < of_nat STORE_SZ"
  shows "value_offset cmd = int (unat (cmd_index cmd) * VAL_SZ)"
proof -
  let ?i = "cmd_index cmd"
  have i: "unat ?i < 65536" using assms by (simp add: word_less_nat_alt STORE_SZ_def)
  then have u: "unat (?i * 128) = unat ?i * 128" by (subst unat_mult_lem [THEN iffD1]) simp_all
  then have "uint (?i * 128) = int (unat ?i * 128)" by (metis uint_nat)
  moreover have "int (unat ?i * 128) < int (65536 * 128)" using i by (simp only: of_nat_less_iff)
  ultimately have "sint (?i * 128) = int (unat ?i * 128)"
    using sint32_nonneg [of "?i * 128"] by simp
  then show ?thesis by (simp add: value_offset_def VAL_SZ_def)
qed

lemma copy_bytes_inside:
  "d + n \<le> length dst \<Longrightarrow> n \<le> length src \<Longrightarrow>
     copy_bytes dst (int d) src n = Inr (take d dst @ take n src @ drop (d + n) dst)"
  by (simp add: copy_bytes_def)

lemma length_slot: "store_wf st \<Longrightarrow> j < STORE_SZ \<Longrightarrow> length (slot st j) = VAL_SZ"
  by (simp add: slot_def store_wf_def size_defs)

lemma slot_written:
  assumes "store_wf st" "length v = VAL_SZ" "i < STORE_SZ" "j < STORE_SZ"
  shows "slot (take (i * VAL_SZ) st @ v @ drop (i * VAL_SZ + VAL_SZ) st) j = (if j = i then v else slot st j)"
proof (rule nth_equalityI)
  have "store_wf (take (i * VAL_SZ) st @ v @ drop (i * VAL_SZ + VAL_SZ) st)"
    using assms by (simp add: store_wf_def size_defs)
  then show "length (slot (take (i * VAL_SZ) st @ v @ drop (i * VAL_SZ + VAL_SZ) st) j)
      = length (if j = i then v else slot st j)"
    using assms by (simp add: length_slot)
  fix k
  assume "k < length (slot (take (i * VAL_SZ) st @ v @ drop (i * VAL_SZ + VAL_SZ) st) j)"
  then have k: "k < VAL_SZ" unfolding slot_def length_take by (rule less_le_trans) simp
  show "slot (take (i * VAL_SZ) st @ v @ drop (i * VAL_SZ + VAL_SZ) st) j ! k
      = (if j = i then v else slot st j) ! k"
  proof (cases "j = i")
    case True
    then show ?thesis using assms k by (simp add: slot_def store_wf_def size_defs nth_append)
  next
    case False
    then consider "j + 1 \<le> i" | "i + 1 \<le> j" by linarith
    then show ?thesis
      using assms k by cases (simp_all add: slot_def store_wf_def size_defs nth_append)
  qed
qed

text \<open>A valid \<open>PUT\<close> returns, with \<open>OK\<close> in the response and the value in its slot.\<close>

lemma handle_valid_put:
  assumes "store_wf st" "valid_put c"
  defines "i \<equiv> unat (cmd_index (currCmd c))"
  shows "\<exists>st'. handleRequest c st = Inr (c\<lparr>client_response := [79, 75, client_response c ! 2]\<rparr>, st')
    \<and> store_wf st' \<and> (\<forall>j<STORE_SZ. slot st' j = (if j = i then cmd_value (currCmd c) else slot st j))"
proof -
  let ?v = "cmd_value (currCmd c)"
  have c: "length ?v = VAL_SZ" "length (client_response c) = 3" "cmd_type (currCmd c) = PUT"
    and i: "i < STORE_SZ" "value_offset (currCmd c) = int (i * VAL_SZ)"
    using assms value_offset_valid [of "currCmd c"]
    by (simp_all add: valid_put_def client_wf_def RESP_SZ_def word_less_nat_alt STORE_SZ_def i_def)
  let ?st = "take (i * VAL_SZ) st @ ?v @ drop (i * VAL_SZ + VAL_SZ) st"
  have "copy_bytes st (value_offset (currCmd c)) ?v VAL_SZ = Inr ?st"
    unfolding i(2) using assms(1) c(1) i(1) by (subst copy_bytes_inside) (simp_all add: store_wf_def size_defs)
  moreover have "copy_bytes (client_response c) 0 [79, 75, 0] 2 = Inr [79, 75, client_response c ! 2]"
    using c(2) by (auto simp: copy_bytes_def length_Suc_conv numeral_3_eq_3)
  moreover have "store_wf ?st" using assms(1) c(1) i(1) by (simp add: store_wf_def size_defs)
  moreover have "\<forall>j<STORE_SZ. slot ?st j = (if j = i then ?v else slot st j)"
    using slot_written [OF assms(1) c(1) i(1)] by blast
  ultimately show ?thesis by (simp add: handleRequest_def putValueAtIndex_def c(3))
qed

section \<open>Refinement\<close>

text \<open>The store as a map from indices to values, and what a command does to it.\<close>

definition kv_abs :: "byte list \<Rightarrow> nat \<Rightarrow> byte list option" where
  "kv_abs st i = (if i < STORE_SZ then Some (slot st i) else None)"

definition kv_put :: "kvClient \<Rightarrow> (nat \<Rightarrow> byte list option) \<Rightarrow> kvClient \<times> (nat \<Rightarrow> byte list option)" where
  "kv_put c m =
     (c\<lparr>client_response := [79, 75, client_response c ! 2]\<rparr>,
      m(unat (cmd_index (currCmd c)) \<mapsto> cmd_value (currCmd c)))"

lemma kv_put_refines:
  assumes "store_wf st" "valid_put c"
  shows "\<exists>st'. kv_processRequest c (Inr st) = (fst (kv_put c (kv_abs st)), Inr st') \<and> store_wf st'
    \<and> kv_abs st' = snd (kv_put c (kv_abs st))"
proof -
  have "unat (cmd_index (currCmd c)) < STORE_SZ"
    using assms(2) by (simp add: valid_put_def word_less_nat_alt STORE_SZ_def)
  then show ?thesis
    using handle_valid_put [OF assms]
    by (fastforce simp: kv_processRequest_def kv_abs_def kv_put_def fun_eq_iff)
qed

interpretation kvs: application_refinement kv_callbacks valid_put
    "\<lambda>a m. \<exists>st. a = Inr st \<and> store_wf st \<and> kv_abs st = m" kv_put
proof unfold_locales
  fix c :: kvClient and a :: "byte list result" and m
  assume c: "valid_put c" and "\<exists>st. a = Inr st \<and> store_wf st \<and> kv_abs st = m"
  then obtain st st' where "a = Inr st" "kv_processRequest c a = (fst (kv_put c m), Inr st')"
      "store_wf st'" "kv_abs st' = snd (kv_put c m)"
    using kv_put_refines [of _ c] by metis
  then show "fst (processRequestCallBack kv_callbacks c a) = fst (kv_put c m)"
    and "\<exists>st. snd (processRequestCallBack kv_callbacks c a) = Inr st \<and> store_wf st \<and> kv_abs st = snd (kv_put c m)"
    by (simp_all add: kv_callbacks_def)
qed

lemma answered_kv_put:
  "(t, c, c') \<in> set (answered kv_put m h) \<Longrightarrow> \<exists>r. client_response c' = [79, 75, r]"
  by (induction h arbitrary: m) (auto simp: kv_put_def)

lemma answers_kv_put:
  "x \<in> set (answers_to t (answered kv_put m h)) \<Longrightarrow> \<exists>r. client_response (snd x) = [79, 75, r]"
  by (cases x) (auto simp: answers_to_def dest: answered_kv_put)

text \<open>
  C24: The key-value store refines a map. When the threads issue \<open>PUT\<close> commands to existing slots, in
  any interleaving, no request faults, and after every step of the library the slots of the store
  are the map obtained by applying the executed commands one after the other, in the order of
  their execution, to the zeroed slots. A thread whose request has returned has \<open>OK\<close> in its response.
\<close>

theorem kv_store_refines_map:
  assumes "fc_start (Inr initKVStoreStateMachine) s0" "rtranclp (fc_step kv_callbacks) s0 s"
    and "\<forall>t. \<forall>c\<in>set (requested s t). valid_put c"
  shows "(\<exists>st. app s = Inr st \<and> kv_abs st = outcome kv_put (kv_abs initKVStoreStateMachine) (history s))
    \<and> (\<forall>t. thread_pc s t = Idle \<and> requested s t \<noteq> [] \<longrightarrow> (\<exists>r. client_response (struct_of s t) = [79, 75, r]))"
proof -
  let ?m = "kv_abs initKVStoreStateMachine"
  have wf: "store_wf initKVStoreStateMachine" by (simp add: store_wf_def initKVStoreStateMachine_def)
  then have rel: "\<exists>st. Inr initKVStoreStateMachine = Inr st \<and> store_wf st \<and> kv_abs st = ?m" by blast
  note puts = kvs.executed_ok [OF assms]
  have "\<exists>r. client_response (struct_of s t) = [79, 75, r]" if "thread_pc s t = Idle" "requested s t \<noteq> []" for t
  proof -
    let ?l = "answers_to t (answered kv_put ?m (history s))"
    have "answers_to t (answered (processRequestCallBack kv_callbacks) (Inr initKVStoreStateMachine) (history s)) \<noteq> []"
      using reachable_is_sequential(2) [OF assms(1,2) that(1)] that(2) by auto
    then have "?l \<noteq> []" using kvs.sequential_refines [OF rel puts] by simp
    moreover have "snd (last ?l) = struct_of s t" using kvs.run_refines(2) [OF assms(1,2) rel puts that] .
    ultimately show ?thesis using answers_kv_put [of "last ?l" t ?m "history s"] by fastforce
  qed
  then show ?thesis using kvs.run_refines(1) [OF assms(1,2) rel puts] by blast
qed

definition example_kv_client :: kvClient where
  "example_kv_client =
     \<lparr>client_id = 4, currCmd = \<lparr>cmd_type = PUT, cmd_index = 2, cmd_value = replicate 128 7\<rparr>,
      client_response = [1, 2, 3]\<rparr>"

definition example_kv :: "byte list result \<Rightarrow> (kvClient, byte list result) fc" where
  "example_kv a = fresh_fc example_kv_client a"

definition put_moves :: "kvClient move list" where
  "put_moves = Request 1 example_kv_client # replicate 24 (Run 1)"

definition put_schedule :: "byte list result \<Rightarrow> (kvClient, byte list result) fc" where
  "put_schedule a = the (do_moves kv_callbacks put_moves (example_kv a))"

lemma put_schedule:
  "do_moves kv_callbacks put_moves (example_kv a) = Some (put_schedule a)"
  "map (\<lambda>(t, c). (t, cmd_index (currCmd c), cmd_value (currCmd c))) (history (put_schedule a))
     = [(1, 2, replicate 128 7)]"
proof -
  have "do_moves kv_callbacks put_moves (example_kv a) \<noteq> None" by code_simp
  then show "do_moves kv_callbacks put_moves (example_kv a) = Some (put_schedule a)"
    by (auto simp: put_schedule_def)
  show "map (\<lambda>(t, c). (t, cmd_index (currCmd c), cmd_value (currCmd c))) (history (put_schedule a))
      = [(1, 2, replicate 128 7)]" by code_simp
qed

theorem kv_store_refines_map_witness:
  "\<exists>st. app (put_schedule (Inr initKVStoreStateMachine)) = Inr st \<and> kv_abs st 2 = Some (replicate 128 7)"
proof -
  let ?a = "Inr initKVStoreStateMachine"
  have start: "fc_start ?a (example_kv ?a)" by (simp add: example_kv_def fresh_fc_start)
  have "valid_put example_kv_client"
    by (simp add: valid_put_def client_wf_def example_kv_client_def size_defs)
  then have issued: "\<forall>t. \<forall>c\<in>set (requested (put_schedule ?a) t). valid_put c"
    using requested_from_moves [OF put_schedule(1) [of ?a]]
    by (fastforce simp: put_moves_def example_kv_def fresh_fc_start)
  obtain c where "history (put_schedule ?a) = [(1, c)]" "cmd_index (currCmd c) = 2"
      "cmd_value (currCmd c) = replicate 128 7"
    using put_schedule(2) [of ?a] by (auto simp: map_eq_Cons_conv)
  then show ?thesis
    using kv_store_refines_map [OF start do_moves_run [OF put_schedule(1)] issued]
    by (auto simp: kv_put_def)
qed

section \<open>What the example gets wrong\<close>

text \<open>\<open>GET\<close> copies 128 bytes into the three bytes of the response.\<close>

lemma get_overruns_response:
  assumes "client_wf c" "cmd_type (currCmd c) = GET"
  shows "handleRequest c st = Inl OutOfBounds"
  using assms
  by (simp add: handleRequest_def getValueAtIndex_def copy_bytes_def client_wf_def size_defs Let_def)

text \<open>Mangosteen is told to send 128 bytes from those three.\<close>

lemma response_size_too_large:
  "client_wf c \<Longrightarrow> length (mango_response (getResponse c)) < mango_size (getResponse c)"
  by (simp add: getResponse_def client_wf_def size_defs)

text \<open>The worker reads 128 bytes from a literal of 17.\<close>

lemma worker_put_overreads: "worker_put garbage = Inl OutOfBounds"
  by (simp add: worker_put_def copy_bytes_def VAL_SZ_def)

text \<open>A \<open>PUT\<close> with a negative index, or one past the end, is not refused: it leaves the store.\<close>

lemma put_outside_store:
  assumes "store_wf st" "value_offset (currCmd c) < 0 \<or> value_offset (currCmd c) > int ((STORE_SZ - 1) * VAL_SZ)"
    "cmd_type (currCmd c) = PUT"
  shows "handleRequest c st = Inl OutOfBounds"
proof -
  have "copy_bytes st (value_offset (currCmd c)) (cmd_value (currCmd c)) VAL_SZ = Inl OutOfBounds"
    using assms(1,2) by (auto simp: copy_bytes_def store_wf_def size_defs)
  then show ?thesis using assms(3) by (simp add: handleRequest_def putValueAtIndex_def)
qed

end
