(* ===== verification/RPC_State_Machine.thy ===== *)
theory RPC_State_Machine
  imports Application
begin

text \<open>
  The RPC example, \<^verbatim>\<open>examples/mangosteen_rpc/rpc_state_machine/state_machine_rpc.cpp\<close>: each request
  with operation code \<open>0\<close> copies the next 32 bytes of a text into a memory block. The callbacks of the
  library are interpreted as an \<open>application_refinement\<close> whose abstract state is the number of
  executed requests. The \<open>printf\<close> calls are left out.
\<close>

section \<open>The application\<close>

definition NODE_PAYLOAD_SIZE :: nat where "NODE_PAYLOAD_SIZE = 32"
definition SM_OP_ADD :: int where "SM_OP_ADD = 0"
definition SM_OP_REMOVE :: int where "SM_OP_REMOVE = 1"
definition SM_OP_CONTAINS :: int where "SM_OP_CONTAINS = 2"
definition RPC_BLOCK_SIZE :: nat where "RPC_BLOCK_SIZE = 4096"

lemmas sm_op_defs = SM_OP_ADD_def SM_OP_REMOVE_def SM_OP_CONTAINS_def

text \<open>The literal with its escaped quotes and line ends, without the terminating byte.\<close>

definition full_string :: string where
  "full_string =
     ''It is not the responsibility of knights errant to discover whether the afflicted, '' @ [CHR 0x22, CHR 0x0A] @
     replicate 26 CHR 0x20 @ [CHR 0x22] @
     ''the enchained and the oppressed whom they encounter on the road are reduced to these circumstances '' @
     [CHR 0x22, CHR 0x0A] @ replicate 26 CHR 0x20 @ [CHR 0x22] @
     ''and suffer this distress for their vices, or for their virtues: '' @ [CHR 0x22, CHR 0x0A] @
     replicate 26 CHR 0x20 @ [CHR 0x22] @
     ''the knight's sole responsibility is to succour them as people in need, '' @ [CHR 0x22, CHR 0x0A] @
     replicate 26 CHR 0x20 @ [CHR 0x22] @
     ''having eyes only for their sufferings, not for their misdeeds.'' @ [CHR 0x0A]"

text \<open>The fields of \<open>serialized_app_command\<close> the example uses.\<close>

record rpc_command =
  rpc_op_type :: int
  rpc_response :: bool
  serialized_response :: "char list"

record rpc_machine =
  rpc_arr :: string
  list_size :: u64
  slices :: u64

text \<open>The globals after \<open>main\<close> has set them; the block is a private mapping that is zeroed.\<close>

definition rpc_initialize :: rpc_machine where
  "rpc_initialize =
     \<lparr>rpc_arr = replicate RPC_BLOCK_SIZE (CHR 0x00), list_size = 0,
      slices = of_nat (length full_string div NODE_PAYLOAD_SIZE)\<rparr>"

text \<open>Where \<open>allocateMemory\<close> takes its memory from: \<open>malloc\<close> or the pointer the thread was given.\<close>

record app_per_thread_data =
  combinerIsActive :: bool
  persistentAlloc :: addr

datatype allocator = System_malloc | Persistent_alloc addr

definition set_per_thread_data :: "addr \<Rightarrow> app_per_thread_data result" where
  "set_per_thread_data persistentAllocator =
     (if persistentAllocator \<noteq> 0 then Inr \<lparr>combinerIsActive = False, persistentAlloc = persistentAllocator\<rparr>
      else Inl AssertFail)"

definition allocateMemory :: "app_per_thread_data \<Rightarrow> allocator" where
  "allocateMemory d = (if combinerIsActive d then Persistent_alloc (persistentAlloc d) else System_malloc)"

definition disableCombiner :: "app_per_thread_data \<Rightarrow> app_per_thread_data" where
  "disableCombiner d = d\<lparr>combinerIsActive := False\<rparr>"

definition enableCombiner :: "app_per_thread_data \<Rightarrow> app_per_thread_data" where
  "enableCombiner d = d\<lparr>combinerIsActive := True\<rparr>"

text \<open>\<open>strtoll\<close> in base 10: it reads until the first character that is no digit.\<close>

definition digit_value :: "char \<Rightarrow> int" where
  "digit_value c = of_char c - 48"

definition is_digit :: "char \<Rightarrow> bool" where
  "is_digit c \<longleftrightarrow> 0 \<le> digit_value c \<and> digit_value c \<le> 9"

definition is_space :: "char \<Rightarrow> bool" where
  "is_space c \<longleftrightarrow> c = CHR 0x20 \<or> (9 \<le> (of_char c :: int) \<and> (of_char c :: int) \<le> 13)"

definition saturate :: "int \<Rightarrow> int" where
  "saturate v = max (- (2 ^ 63)) (min (2 ^ 63 - 1) v)"

definition strtoll :: "string \<Rightarrow> int result" where
  "strtoll s =
     (case dropWhile is_space s of
        [] \<Rightarrow> Inl OutOfBounds
      | c # cs \<Rightarrow>
          (let ds = (if c = CHR ''-'' \<or> c = CHR ''+'' then cs else c # cs);
               v = fold (\<lambda>d v. 10 * v + digit_value d) (takeWhile is_digit ds) 0
           in if list_all is_digit ds then Inl OutOfBounds
              else Inr (saturate (if c = CHR ''-'' then - v else v))))"

text \<open>
  The operation code is a single character on the stack; \<open>stack\<close> is what follows it there. The code
  is stored in an \<open>int\<close>, and only if the command already is an \<open>SM_OP_ADD\<close>.
\<close>

definition load_service_request :: "string \<Rightarrow> rpc_command \<Rightarrow> string \<Rightarrow> rpc_command result" where
  "load_service_request stack c rawCommand =
     (case rawCommand of
        [] \<Rightarrow> Inl OutOfBounds
      | op_type_char # _ \<Rightarrow>
          and_then (strtoll (op_type_char # stack)) (\<lambda>value.
            let c1 = (if rpc_op_type c = SM_OP_ADD then c\<lparr>rpc_op_type := sint (word_of_int value :: u32)\<rparr> else c)
            in if rpc_op_type c1 = SM_OP_REMOVE \<or> rpc_op_type c1 = SM_OP_CONTAINS then Inl ExitFailure
               else Inr c1))"

definition is_read_only :: "rpc_command \<Rightarrow> bool result" where
  "is_read_only c =
     (if rpc_op_type c = SM_OP_ADD then Inr False
      else if rpc_op_type c = SM_OP_REMOVE then Inr False
      else if rpc_op_type c = SM_OP_CONTAINS then Inr True
      else Inl ExitFailure)"

definition do_step :: "rpc_machine \<Rightarrow> (bool \<times> rpc_machine) result" where
  "do_step m =
     (let seqno = list_size m; m1 = m\<lparr>list_size := list_size m + 1\<rparr>
      in if seqno < slices m
         then let offset = unat (seqno * of_nat NODE_PAYLOAD_SIZE)
              in if offset + NODE_PAYLOAD_SIZE \<le> length full_string + 1 \<and> offset + NODE_PAYLOAD_SIZE \<le> length (rpc_arr m)
                 then Inr (True, m1\<lparr>rpc_arr := take offset (rpc_arr m)
                              @ take NODE_PAYLOAD_SIZE (drop offset (full_string @ [CHR 0x00]))
                              @ drop (offset + NODE_PAYLOAD_SIZE) (rpc_arr m)\<rparr>)
                 else Inl OutOfBounds
         else Inr (False, m1))"

definition rpc_process_command :: "rpc_command \<Rightarrow> rpc_machine \<Rightarrow> (rpc_command \<times> rpc_machine) result" where
  "rpc_process_command c m =
     (if rpc_op_type c = SM_OP_ADD
      then and_then (do_step m) (\<lambda>(r, m'). Inr (c\<lparr>rpc_response := r\<rparr>, m'))
      else Inl ExitFailure)"

text \<open>The command with its response, and the bytes the library sends.\<close>

definition get_responce :: "rpc_command \<Rightarrow> rpc_command \<times> char list \<times> int" where
  "get_responce c =
     (let c1 = c\<lparr>serialized_response :=
                  (serialized_response c)[0 := if rpc_response c then CHR ''0'' else CHR ''1'']\<rparr>
      in (c1, serialized_response c1, 1))"

definition rpc_callbacks :: "(rpc_command, rpc_machine result) callbacks" where
  "rpc_callbacks =
     \<lparr>isReadOnlyCallBack = (\<lambda>c. is_read_only c = Inr True),
      processRequestCallBack =
        (\<lambda>c a. case and_then a (rpc_process_command c) of Inl e \<Rightarrow> (c, Inl e) | Inr (c', m) \<Rightarrow> (c', Inr m))\<rparr>"

section \<open>Slices\<close>

lemma length_full_string [simp]: "length full_string = 495"
  unfolding full_string_def by simp

text \<open>The block when the first \<open>n\<close> slices of the text are in it.\<close>

definition slices_in_block :: "nat \<Rightarrow> string" where
  "slices_in_block n = take (n * NODE_PAYLOAD_SIZE) full_string @ replicate (RPC_BLOCK_SIZE - n * NODE_PAYLOAD_SIZE) (CHR 0x00)"

definition after_steps :: "nat \<Rightarrow> rpc_machine" where
  "after_steps k = \<lparr>rpc_arr = slices_in_block (min k 15), list_size = of_nat k, slices = 15\<rparr>"

lemma rpc_initialize_steps: "rpc_initialize = after_steps 0"
  by (simp add: rpc_initialize_def after_steps_def slices_in_block_def NODE_PAYLOAD_SIZE_def)

lemma write_slice:
  assumes "j \<le> n" "j < 15" "n \<le> 15"
  shows "take (j * 32) (slices_in_block n) @ take 32 (drop (j * 32) (full_string @ [CHR 0x00]))
    @ drop (j * 32 + 32) (slices_in_block n) = slices_in_block (max n (Suc j))" (is "?l = ?r")
proof (rule nth_equalityI)
  have len: "length (slices_in_block k) = 4096" if "k \<le> 15" for k
    using that by (simp add: slices_in_block_def NODE_PAYLOAD_SIZE_def RPC_BLOCK_SIZE_def)
  then show "length ?l = length ?r" using assms by simp
  fix i
  assume "i < length ?l"
  then have i: "i < 4096" using len [of n] assms by simp
  have nth: "slices_in_block k ! i = (if i < k * 32 then full_string ! i else CHR 0x00)" if "k \<le> 15" for k
    using that i by (auto simp: slices_in_block_def NODE_PAYLOAD_SIZE_def RPC_BLOCK_SIZE_def nth_append min_def)
  consider "i < j * 32" | "j * 32 \<le> i" "i < j * 32 + 32" | "j * 32 + 32 \<le> i" by linarith
  then show "?l ! i = ?r ! i"
  proof cases
    case 1
    then show ?thesis using assms len [of n] nth [of n] nth [of "max n (Suc j)"] by (auto simp: nth_append max_def)
  next
    case 2
    then show ?thesis using assms len [of n] nth [of "max n (Suc j)"] by (auto simp: nth_append max_def)
  next
    case 3
    then show ?thesis
      using assms len [of n] i nth [of n] nth [of "max n (Suc j)"] by (auto simp: nth_append max_def)
  qed
qed

lemma do_step_after: "do_step (after_steps k) = Inr (k mod 2 ^ 64 < 15, after_steps (Suc k))"
proof -
  let ?j = "k mod 2 ^ 64"
  have u: "unat (of_nat k :: u64) = ?j" by (simp add: unat_of_nat)
  then have less: "(of_nat k :: u64) < 15 \<longleftrightarrow> ?j < 15" by (simp add: word_less_nat_alt)
  show ?thesis
  proof (cases "?j < 15")
    case True
    have "unat ((of_nat k :: u64) * 32) = ?j * 32"
      using True u by (subst unat_mult_lem [THEN iffD1]) simp_all
    moreover have "?j \<le> min k 15" using True by (simp add: mod_less_eq_dividend less_imp_le)
    moreover have "max (min k 15) (Suc ?j) = min (Suc k) 15"
      using True by (cases "k < 2 ^ 64") (auto simp: min_def max_def)
    moreover have "length (slices_in_block (min k 15)) = 4096"
      by (simp add: slices_in_block_def NODE_PAYLOAD_SIZE_def RPC_BLOCK_SIZE_def)
    ultimately show ?thesis
      using True less write_slice [of ?j "min k 15"]
      by (simp add: do_step_def after_steps_def NODE_PAYLOAD_SIZE_def Let_def add.commute)
  next
    case False
    then have "15 \<le> k" using mod_less_eq_dividend [of k "2 ^ 64"] by linarith
    with False less show ?thesis by (simp add: do_step_def after_steps_def Let_def)
  qed
qed

section \<open>Refinement\<close>

text \<open>What a request with operation code \<open>0\<close> does to the number of executed requests.\<close>

definition count_step :: "rpc_command \<Rightarrow> nat \<Rightarrow> rpc_command \<times> nat" where
  "count_step c k = (c\<lparr>rpc_response := k mod 2 ^ 64 < 15\<rparr>, Suc k)"

definition is_add :: "rpc_command \<Rightarrow> bool" where
  "is_add c \<longleftrightarrow> rpc_op_type c = SM_OP_ADD"

interpretation rpc: application_refinement rpc_callbacks is_add "\<lambda>a k. a = Inr (after_steps k)" count_step
  by unfold_locales
    (simp_all add: rpc_callbacks_def rpc_process_command_def is_add_def count_step_def do_step_after)

lemma outcome_count_step [simp]: "outcome count_step k h = k + length h"
  by (induction h arbitrary: k) (auto simp: count_step_def)

text \<open>The answers: the requests that were executed before the first 15 were over get \<open>0\<close>.\<close>

lemma answered_count_step:
  "answered count_step k h = map (\<lambda>(i, t, c). (t, c, c\<lparr>rpc_response := i mod 2 ^ 64 < 15\<rparr>)) (enumerate k h)"
  by (induction h arbitrary: k) (auto simp: count_step_def)

text \<open>
  C15: The RPC example copies each slice of its text once, in order, whatever thread asks. When the
  threads issue requests with operation code \<open>0\<close>, in any interleaving, no request faults; after every
  step of the library the block holds the first slices of the text, as many as requests were executed
  (15 at most), followed by zeros; and a thread whose request has returned is told \<open>true\<close> exactly if its
  request was among the 15 that copied a slice.
\<close>

theorem rpc_copies_slices:
  assumes "fc_start (Inr rpc_initialize) s0" "rtranclp (fc_step rpc_callbacks) s0 s"
    and "\<forall>t. \<forall>c\<in>set (requested s t). rpc_op_type c = SM_OP_ADD"
  shows "(\<exists>m. app s = Inr m \<and> rpc_arr m = slices_in_block (min (length (history s)) 15))
    \<and> (\<forall>t. thread_pc s t = Idle \<and> requested s t \<noteq> [] \<longrightarrow>
         (\<exists>i<length (history s). fst (history s ! i) = t \<and> (\<forall>j. i < j \<and> j < length (history s) \<longrightarrow> fst (history s ! j) \<noteq> t)
            \<and> (rpc_response (struct_of s t) \<longleftrightarrow> i mod 2 ^ 64 < 15)))"
proof -
  let ?h = "history s"
  have rel: "Inr rpc_initialize = Inr (after_steps 0)" by (simp add: rpc_initialize_steps)
  have adds: "\<forall>x\<in>set ?h. is_add (snd x)"
    using rpc.executed_ok [OF assms(1,2)] assms(3) by (simp add: is_add_def)
  have "\<exists>i<length ?h. fst (?h ! i) = t \<and> (\<forall>j. i < j \<and> j < length ?h \<longrightarrow> fst (?h ! j) \<noteq> t)
      \<and> (rpc_response (struct_of s t) \<longleftrightarrow> i mod 2 ^ 64 < 15)"
    if t: "thread_pc s t = Idle" "requested s t \<noteq> []" for t
  proof -
    let ?l = "answered count_step 0 ?h"
    have "answers_to t (answered (processRequestCallBack rpc_callbacks) (Inr rpc_initialize) ?h) \<noteq> []"
      using reachable_is_sequential(2) [OF assms(1,2) t(1)] t(2) by auto
    then have "answers_to t ?l \<noteq> []" using rpc.sequential_refines [OF rel adds] by simp
    then obtain i where i: "i < length ?l" "fst (?l ! i) = t" "\<forall>j. i < j \<and> j < length ?l \<longrightarrow> fst (?l ! j) \<noteq> t"
        "last (answers_to t ?l) = snd (?l ! i)"
      using last_answer by blast
    have nth: "?l ! j = (fst (?h ! j), snd (?h ! j), (snd (?h ! j))\<lparr>rpc_response := j mod 2 ^ 64 < 15\<rparr>)" if "j < length ?h" for j
      using that by (simp add: answered_count_step nth_enumerate_eq split_beta)
    have len: "length ?l = length ?h" by (simp add: answered_count_step)
    then have "rpc_response (struct_of s t) \<longleftrightarrow> i mod 2 ^ 64 < 15"
      using i(1,4) rpc.run_refines(2) [OF assms(1,2) rel adds t, symmetric] by (simp add: nth)
    with i len nth show ?thesis by (intro exI [of _ i]) simp
  qed
  then show ?thesis using rpc.run_refines(1) [OF assms(1,2) rel adds] by (simp add: after_steps_def)
qed

definition example_rpc :: "rpc_machine result \<Rightarrow> (rpc_command, rpc_machine result) fc" where
  "example_rpc a = fresh_fc \<lparr>rpc_op_type = 0, rpc_response = False, serialized_response = replicate 2 (CHR 0x00)\<rparr> a"

definition add_moves :: "rpc_command move list" where
  "add_moves =
     Request 1 \<lparr>rpc_op_type = 0, rpc_response = False, serialized_response = replicate 2 (CHR 0x00)\<rparr>
       # replicate 24 (Run 1)"

definition add_schedule :: "rpc_machine result \<Rightarrow> (rpc_command, rpc_machine result) fc" where
  "add_schedule a = the (do_moves rpc_callbacks add_moves (example_rpc a))"

lemma add_schedule:
  "do_moves rpc_callbacks add_moves (example_rpc a) = Some (add_schedule a)"
  "map fst (history (add_schedule a)) = [1]"
  "thread_pc (add_schedule a) 1 = Idle"
  "requested (add_schedule a) 1 \<noteq> []"
proof -
  have "do_moves rpc_callbacks add_moves (example_rpc a) \<noteq> None" by code_simp
  then show "do_moves rpc_callbacks add_moves (example_rpc a) = Some (add_schedule a)"
    by (auto simp: add_schedule_def)
  show "map fst (history (add_schedule a)) = [1]" by code_simp
  show "thread_pc (add_schedule a) 1 = Idle" by code_simp
  show "requested (add_schedule a) 1 \<noteq> []" by code_simp
qed

theorem rpc_copies_slices_witness:
  "\<exists>m. app (add_schedule (Inr rpc_initialize)) = Inr m \<and> rpc_arr m = slices_in_block 1
     \<and> rpc_response (struct_of (add_schedule (Inr rpc_initialize)) 1)"
proof -
  let ?a = "Inr rpc_initialize"
  have start: "fc_start ?a (example_rpc ?a)" by (simp add: example_rpc_def fresh_fc_start)
  have adds: "\<forall>t. \<forall>c\<in>set (requested (add_schedule ?a) t). rpc_op_type c = SM_OP_ADD"
    using requested_from_moves [OF add_schedule(1) [of ?a]]
    by (fastforce simp: add_moves_def example_rpc_def fresh_fc_start SM_OP_ADD_def)
  have "length (history (add_schedule ?a)) = 1" using add_schedule(2) [of ?a] by (auto simp: map_eq_Cons_conv)
  then show ?thesis
    using rpc_copies_slices [OF start do_moves_run [OF add_schedule(1)] adds] add_schedule(3,4) [of ?a]
    by (auto simp: min_def)
qed

section \<open>Requests\<close>

text \<open>
  A request is refused according to the code in the struct, not the code the client sent: if the memory
  \<open>malloc\<close> returned holds another code than \<open>0\<close>, the client's code is never looked at, and a code the
  library does not know ends the process at the next callback.
\<close>

lemma stale_op_type_kept:
  assumes "rpc_op_type c \<notin> {0, 1, 2}" "load_service_request stack c raw = Inr c'"
  shows "c' = c" "is_read_only c' = Inl ExitFailure"
proof -
  show "c' = c"
    using assms by (auto simp: load_service_request_def sm_op_defs Let_def and_then_Inr split: list.splits if_splits)
  then show "is_read_only c' = Inl ExitFailure" using assms(1) by (simp add: is_read_only_def sm_op_defs)
qed

lemma strtoll_digit:
  assumes "is_digit d" "\<not> is_digit g"
  shows "strtoll (d # g # stack) = Inr (digit_value d)"
proof -
  have v: "0 \<le> digit_value d" "digit_value d \<le> 9" using assms(1) by (simp_all add: is_digit_def)
  then have "\<not> is_space d" "d \<noteq> CHR ''-''" "d \<noteq> CHR ''+''"
    by (auto simp: is_space_def digit_value_def)
  moreover have "saturate (digit_value d) = digit_value d" using v by (simp add: saturate_def)
  ultimately show ?thesis using assms by (simp add: strtoll_def)
qed

text \<open>The digit \<open>0\<close> is read as the code only if the byte after it on the stack is no digit.\<close>

lemma zero_request:
  assumes "rpc_op_type c = 0" "\<not> is_digit g"
  shows "load_service_request (g # stack) c (CHR ''0'' # rest) = Inr c"
proof -
  have "is_digit CHR ''0''" "digit_value CHR ''0'' = 0" by (simp_all add: is_digit_def digit_value_def)
  then show ?thesis using assms by (simp add: load_service_request_def strtoll_digit sm_op_defs)
qed

lemma zero_request_misread:
  "load_service_request (''1'' @ [CHR 0x00]) \<lparr>rpc_op_type = 0, rpc_response = False, serialized_response = []\<rparr> ''0''
     = Inl ExitFailure"
  by code_simp

text \<open>A client that sends \<open>1\<close> or \<open>2\<close> ends the server process.\<close>

lemma unimplemented_request_exits:
  assumes "rpc_op_type c = 0" "\<not> is_digit g" "d = CHR ''1'' \<or> d = CHR ''2''"
  shows "load_service_request (g # stack) c (d # rest) = Inl ExitFailure"
proof -
  have "is_digit d" "digit_value d = 1 \<or> digit_value d = 2"
    using assms(3) by (auto simp: is_digit_def digit_value_def)
  then show ?thesis
    using assms(1,2) by (auto simp: load_service_request_def strtoll_digit sm_op_defs)
qed

text \<open>The threads' memory comes from \<open>malloc\<close> until the combiner is enabled.\<close>

lemma allocator_switch:
  assumes "set_per_thread_data p = Inr d"
  shows "allocateMemory d = System_malloc" "allocateMemory (enableCombiner d) = Persistent_alloc p"
    "allocateMemory (disableCombiner (enableCombiner d)) = System_malloc" "p \<noteq> 0"
  using assms
  by (auto simp: set_per_thread_data_def allocateMemory_def enableCombiner_def disableCombiner_def split: if_splits)

text \<open>The client is sent one byte: \<open>0\<close> when a slice was copied, else \<open>1\<close>.\<close>

lemma response_byte:
  assumes "serialized_response c \<noteq> []" "get_responce c = (c', bytes, n)"
  shows "take (nat n) bytes = [if rpc_response c then CHR ''0'' else CHR ''1'']"
  using assms by (cases "serialized_response c") (auto simp: get_responce_def Let_def)

end
