(* ===== verification/Server.thy ===== *)
theory Server
  imports Application Client_Connection
begin

text \<open>
  The whole server: worker threads that each run the event loop of \<open>Client_Connection\<close> and execute the
  requests they complete with \<open>Flat_Combining\<close>. A step is one event of a worker that completes no
  request, the beginning of a request (\<open>process_command\<close> up to the point where the thread enters the
  lock or the flat combining), a step of the flat combining, or the preparation of the response.
  Every response a connection is sent is that of executing the requests of all connections
  one after the other.
\<close>

section \<open>Steps\<close>

text \<open>Where a worker is in \<open>process_command\<close>, and for which connection.\<close>

datatype request_pc = Serving | Allocating addr | Executing addr

text \<open>The transcript of a thread: the connections it answered, with request and response.\<close>

record ('c, 'a) server =
  sv_fc :: "('c, 'a) fc"
  sv_worker :: "nat \<Rightarrow> 'c worker"
  sv_pc :: "nat \<Rightarrow> request_pc"
  transcript :: "nat \<Rightarrow> (addr \<times> 'c \<times> 'c) list"

abbreviation set_worker :: "nat \<Rightarrow> 'c worker \<Rightarrow> ('c, 'a) server \<Rightarrow> ('c, 'a) server" where
  "set_worker t w s \<equiv> s\<lparr>sv_worker := (sv_worker s)(t := w)\<rparr>"

abbreviation set_pc :: "nat \<Rightarrow> request_pc \<Rightarrow> ('c, 'a) server \<Rightarrow> ('c, 'a) server" where
  "set_pc t p s \<equiv> s\<lparr>sv_pc := (sv_pc s)(t := p)\<rparr>"

abbreviation put_client :: "addr \<Rightarrow> 'c mangosteen_client \<Rightarrow> 'c worker \<Rightarrow> 'c worker" where
  "put_client p cl w \<equiv> w\<lparr>clients := (clients w)(p \<mapsto> cl)\<rparr>"

text \<open>The connection and its state after the reading loop, if the event completes a request.\<close>

definition completed_request :: "32 word \<Rightarrow> event_io \<Rightarrow> 'c worker \<Rightarrow> (addr \<times> 'c mangosteen_client) option" where
  "completed_request listenfd io w =
     (case clients w (io_data io) of
        None \<Rightarrow> None
      | Some cl \<Rightarrow>
          if ucast (io_data io) \<noteq> listenfd \<and> \<not> ev_err (io_events io) \<and> ev_in (io_events io) \<and> status cl = Reading
          then case read_loop (mangosteenResetMemoryAllocator cl) (io_reads io) of
                 Inr (cl', Some True) \<Rightarrow> Some (io_data io, cl')
               | _ \<Rightarrow> None
          else None)"

text \<open>\<open>execute_using_flat_combining\<close> up to the call of \<open>exec_rw_flat_combining\<close> or \<open>exec_ro\<close>.\<close>

definition issue ::
    "('c, 'a) callbacks \<Rightarrow> 'c service \<Rightarrow> nat \<Rightarrow> addr \<Rightarrow> 'c mangosteen_client \<Rightarrow> 'c \<Rightarrow> ('c, 'a) server \<Rightarrow>
     ('c, 'a) server option" where
  "issue cb sv t p cl c s =
     (let c' = loadServiceRequest sv c (req cl)
      in case do_move cb (Request t c') (sv_fc s) of
           None \<Rightarrow> None
         | Some f \<Rightarrow> Some (set_pc t (Executing p) (set_worker t
             (put_client p (cl\<lparr>applicationSpecificStruct := Some c'\<rparr>) (sv_worker s t)) (s\<lparr>sv_fc := f\<rparr>))))"

text \<open>The beginning of \<open>process_command\<close>: the first request of a connection allocates its struct.\<close>

definition begin_request ::
    "('c, 'a) callbacks \<Rightarrow> 'c service \<Rightarrow> nat \<Rightarrow> addr \<Rightarrow> 'c mangosteen_client \<Rightarrow> ('c, 'a) server \<Rightarrow>
     ('c, 'a) server option" where
  "begin_request cb sv t p cl s =
     (case applicationSpecificStruct cl of
        Some c \<Rightarrow> issue cb sv t p cl c s
      | None \<Rightarrow>
          (case do_move cb (First t) (sv_fc s) of
             None \<Rightarrow> None
           | Some f \<Rightarrow> Some (set_pc t (Allocating p) (set_worker t (put_client p cl (sv_worker s t)) (s\<lparr>sv_fc := f\<rparr>)))))"

text \<open>
  The end of \<open>process_command\<close> and of the event: the struct the client points to holds what the
  execution left there.
\<close>

definition respond ::
    "'c service \<Rightarrow> bool \<Rightarrow> nat \<Rightarrow> addr \<Rightarrow> ('c, 'a) server \<Rightarrow> ('c, 'a) server option" where
  "respond sv ctl_ok t p s =
     (case clients (sv_worker s t) p of
        None \<Rightarrow> None
      | Some cl \<Rightarrow>
          (let r = struct_of (sv_fc s) t
           in case prepare_client_response sv (cl\<lparr>applicationSpecificStruct := Some r\<rparr>) of
                Inl _ \<Rightarrow> None
              | Inr cl' \<Rightarrow> Some (set_pc t Serving (set_worker t
                  ((put_client p (cl'\<lparr>bytes_read := 0, status := Writing\<rparr>) (sv_worker s t))
                     \<lparr>interest := (interest (sv_worker s t))(p := if ctl_ok then Await_out else Disarmed)\<rparr>)
                  (s\<lparr>transcript := (transcript s)(t := transcript s t @ [(p, last (requested (sv_fc s) t), r)])\<rparr>)))))"

definition at_rest :: "('c, 'a) fc \<Rightarrow> nat \<Rightarrow> bool" where
  "at_rest f t \<longleftrightarrow> t < NUMBER_OF_THREADS \<and> thread_pc f t = Idle \<and> thread_mmap f t = MNone"

inductive server_step ::
    "('c, 'a) callbacks \<Rightarrow> 'c service \<Rightarrow> (nat \<Rightarrow> 32 word) \<Rightarrow> ('c, 'a) server \<Rightarrow> ('c, 'a) server \<Rightarrow> bool"
  for cb sv fd where
  event:
    "at_rest (sv_fc s) t \<Longrightarrow> sv_pc s t = Serving \<Longrightarrow> completed_request (fd t) io (sv_worker s t) = None \<Longrightarrow>
     handle_event sv (fd t) io (sv_worker s t) = Inr w \<Longrightarrow> server_step cb sv fd s (set_worker t w s)"
| begin_request:
    "at_rest (sv_fc s) t \<Longrightarrow> sv_pc s t = Serving \<Longrightarrow> completed_request (fd t) io (sv_worker s t) = Some (p, cl) \<Longrightarrow>
     begin_request cb sv t p cl s = Some s' \<Longrightarrow> server_step cb sv fd s s'"
| allocated:
    "at_rest (sv_fc s) t \<Longrightarrow> sv_pc s t = Allocating p \<Longrightarrow> clients (sv_worker s t) p = Some cl \<Longrightarrow>
     issue cb sv t p cl (allocateThreadLocalServiceRequestStruct sv) s = Some s' \<Longrightarrow> server_step cb sv fd s s'"
| respond:
    "at_rest (sv_fc s) t \<Longrightarrow> sv_pc s t = Executing p \<Longrightarrow> respond sv ctl_ok t p s = Some s' \<Longrightarrow>
     server_step cb sv fd s s'"
| run: "do_move cb (Run t) (sv_fc s) = Some f \<Longrightarrow> server_step cb sv fd s (s\<lparr>sv_fc := f\<rparr>)"
| map: "do_move cb (Map t) (sv_fc s) = Some f \<Longrightarrow> server_step cb sv fd s (s\<lparr>sv_fc := f\<rparr>)"

definition server_start :: "'a \<Rightarrow> ('c, 'a) server \<Rightarrow> bool" where
  "server_start a s \<longleftrightarrow> fc_start a (sv_fc s)
     \<and> (\<forall>t. sv_pc s t = Serving \<and> transcript s t = [] \<and> (\<forall>p. clients (sv_worker s t) p = None))"

section \<open>The split of an event\<close>

text \<open>
  Beginning a request and responding to it is what \<open>handle_event\<close> does with an application that
  returns the struct the execution left.
\<close>

lemma begin_then_respond_is_handle_event:
  assumes "completed_request fd io w = Some (p, cl)"
  shows "handle_event (sv\<lparr>executeRequest := \<lambda>_. r\<rparr>) fd io w =
    and_then (prepare_client_response sv (cl\<lparr>applicationSpecificStruct := Some r\<rparr>)) (\<lambda>cl'. Inr
      ((put_client p (cl'\<lparr>bytes_read := 0, status := Writing\<rparr>) w)
         \<lparr>interest := (interest w)(p := if io_ctl_ok io then Await_out else Disarmed)\<rparr>))"
proof -
  obtain cl0 where c: "clients w p = Some cl0" "io_data io = p" "ucast p \<noteq> fd" "\<not> ev_err (io_events io)"
      "ev_in (io_events io)" "status cl0 = Reading"
      "read_loop (mangosteenResetMemoryAllocator cl0) (io_reads io) = Inr (cl, Some True)"
    using assms unfolding completed_request_def
    by (auto split: option.splits if_splits sum.splits prod.splits bool.splits)
  have "prepare_client_response (sv\<lparr>executeRequest := \<lambda>_. r\<rparr>) = prepare_client_response sv"
    by (simp add: prepare_client_response_def fun_eq_iff split: option.split)
  with c show ?thesis
    by (cases "prepare_client_response sv (cl\<lparr>applicationSpecificStruct := Some r\<rparr>)")
      (auto simp: handle_event_def handle_request_event_def do_event_def process_command_def
        mangosteenResetMemoryAllocator_def)
qed

section \<open>Invariant\<close>

lemma read_loop_status:
  "read_loop cl rs = Inr (cl', fin) \<Longrightarrow> status cl' = status cl \<or> status cl' = Ended"
proof (induction cl rs rule: read_loop.induct)
  case (1 cl rs)
  then show ?case
    by (subst (asm) (2) read_loop.simps)
      (auto simp: Let_def receive_def split: if_splits list.splits read_result.splits)
qed

lemma do_event_writing:
  assumes "do_event sv reads sends cl = Inr (cl', out)" "status cl' = Writing"
    "\<not> (status cl = Reading \<and> (\<exists>cl1. read_loop cl reads = Inr (cl1, Some True)))"
  shows "status cl = Writing" "responce_buffer cl' = responce_buffer cl"
  using assms read_loop_status [of cl reads]
  by (auto simp: do_event_def and_then_Inr split: req_status.splits option.splits if_splits)

lemma accept_writing:
  "handle_accept_events rs w = Inr w' \<Longrightarrow> clients w' q = Some cl \<Longrightarrow> status cl = Writing \<Longrightarrow> clients w q = Some cl"
proof (induction rs arbitrary: w)
  case (Cons r rs)
  show ?case
  proof (cases r)
    case (Accepted c b ok)
    obtain p buf where pb: "c = Some p" "b = Some buf" using Cons.prems(1) Accepted by (auto split: option.splits)
    let ?w = "put_client p (accepted_client buf) w"
    have "clients ?w q = Some cl"
      using Cons.IH [OF _ Cons.prems(2,3)] Cons.prems(1) Accepted pb by (fastforce simp: Let_def split: if_splits)
    then show ?thesis
      using Cons.prems(3) by (auto simp: accepted_client_def mangosteenResetMemoryAllocator_def split: if_splits)
  qed (use Cons.prems in auto)
qed simp

lemma handle_request_event_do_event:
  assumes "handle_request_event sv ok ev reads sends cl = Inr (cl', out, a)" "\<not> ev_err ev"
  shows "do_event sv reads sends (mangosteenResetMemoryAllocator cl) = Inr (cl', out) \<and> (status cl = Reading \<longrightarrow> ev_in ev)"
proof (cases "do_event sv reads sends (mangosteenResetMemoryAllocator cl)")
  case (Inr x)
  obtain cl1 o1 where "x = (cl1, o1)" by fastforce
  with Inr assms show ?thesis by (cases "status cl1") (auto simp: handle_request_event_def split: if_splits)
qed (use assms in \<open>auto simp: handle_request_event_def split: if_splits\<close>)

text \<open>An event that completes no request makes no connection wait to write.\<close>

lemma handle_event_writing:
  assumes "handle_event sv fd io w = Inr w'" "completed_request fd io w = None"
    "clients w' q = Some cl'" "status cl' = Writing"
  shows "\<exists>cl. clients w q = Some cl \<and> status cl = Writing \<and> responce_buffer cl = responce_buffer cl'"
proof (cases "ucast (io_data io) = fd")
  case True
  then show ?thesis using assms accept_writing [of "io_accepts io" w w' q cl'] by (auto simp: handle_event_def)
next
  case False
  then obtain cl cl1 out a where h: "clients w (io_data io) = Some cl"
      "handle_request_event sv (io_ctl_ok io) (io_events io) (io_reads io) (io_sends io) cl = Inr (cl1, out, a)"
      "clients w' = (clients w)(io_data io := if a = Released then None else Some cl1)"
    using assms(1) by (auto simp: handle_event_def and_then_Inr split: option.splits)
  show ?thesis
  proof (cases "q = io_data io")
    case q: True
    then have cl1: "cl1 = cl'" using h(3) assms(3) by (auto split: if_splits)
    show ?thesis
    proof (cases "ev_err (io_events io)")
      case True
      then show ?thesis using h q cl1 assms(4) by (auto simp: handle_request_event_def)
    next
      case err: False
      let ?c = "mangosteenResetMemoryAllocator cl"
      have c: "status ?c = status cl" "responce_buffer ?c = responce_buffer cl"
        by (simp_all add: mangosteenResetMemoryAllocator_def)
      have e: "do_event sv (io_reads io) (io_sends io) ?c = Inr (cl', out)" "status cl = Reading \<longrightarrow> ev_in (io_events io)"
        using handle_request_event_do_event [OF h(2) err] cl1 by simp_all
      have "\<not> (status ?c = Reading \<and> (\<exists>cl1. read_loop ?c (io_reads io) = Inr (cl1, Some True)))"
        using assms(2) h(1) err False e(2) c(1)
        by (auto simp: completed_request_def)
      then show ?thesis using do_event_writing [OF e(1) assms(4)] c h(1) q by simp
    qed
  next
    case False
    then show ?thesis using h(3) assms(3,4) by auto
  qed
qed

definition sequential_answers :: "('c, 'a) callbacks \<Rightarrow> 'a \<Rightarrow> ('c, 'a) fc \<Rightarrow> nat \<Rightarrow> ('c \<times> 'c) list" where
  "sequential_answers cb a f t = answers_to t (answered (processRequestCallBack cb) a (history f))"

text \<open>The request a worker has issued and not yet answered.\<close>

fun in_progress :: "request_pc \<Rightarrow> nat" where
  "in_progress (Executing p) = 1" | "in_progress _ = 0"

definition replies_ok :: "'c service \<Rightarrow> (addr \<times> 'c \<times> 'c) list \<Rightarrow> 'c worker \<Rightarrow> bool" where
  "replies_ok sv tr w \<longleftrightarrow>
     (\<forall>p cl. clients w p = Some cl \<and> status cl = Writing \<longrightarrow>
        (\<exists>c r. map_of (rev tr) p = Some (c, r) \<and> responce_buffer cl = Some (fst (getResponseInfo sv r))))"

definition server_inv :: "('c, 'a) callbacks \<Rightarrow> 'c service \<Rightarrow> 'a \<Rightarrow> ('c, 'a) server \<Rightarrow> bool" where
  "server_inv cb sv a s \<longleftrightarrow>
     (\<exists>f. fc_start a f \<and> rtranclp (fc_step cb) f (sv_fc s))
     \<and> (\<forall>t. \<exists>cs. requested (sv_fc s) t = map (fst \<circ> snd) (transcript s t) @ cs \<and> length cs = in_progress (sv_pc s t))
     \<and> (\<forall>t. \<exists>rest. sequential_answers cb a (sv_fc s) t = map snd (transcript s t) @ rest)
     \<and> (\<forall>t. replies_ok sv (transcript s t) (sv_worker s t))"

lemma server_invD:
  assumes "server_inv cb sv a s"
  shows "\<exists>f. fc_start a f \<and> rtranclp (fc_step cb) f (sv_fc s)"
    "\<exists>cs. requested (sv_fc s) t = map (fst \<circ> snd) (transcript s t) @ cs \<and> length cs = in_progress (sv_pc s t)"
    "\<exists>rest. sequential_answers cb a (sv_fc s) t = map snd (transcript s t) @ rest"
    "replies_ok sv (transcript s t) (sv_worker s t)"
  using assms by (auto simp: server_inv_def)

lemma server_inv_start: "server_start a s \<Longrightarrow> server_inv cb sv a s"
  by (auto simp: server_start_def server_inv_def fc_start_def replies_ok_def sequential_answers_def answers_to_def)

text \<open>The flat combining goes on: what was answered stays answered.\<close>

lemma answers_grow:
  assumes "fc_step cb f f'"
  shows "\<exists>rest. sequential_answers cb a f' t = sequential_answers cb a f t @ rest"
proof -
  obtain h where "history f' = history f @ h" using history_grows [of cb f f'] assms by blast
  then show ?thesis by (simp add: sequential_answers_def answered_append)
qed

lemma server_inv_move:
  assumes "server_inv cb sv a s" "do_move cb m (sv_fc s) = Some f"
    and "sv_fc s' = f" "transcript s' = transcript s" "\<forall>t. replies_ok sv (transcript s t) (sv_worker s' t)"
    and "\<forall>t. \<exists>cs. requested f t = map (fst \<circ> snd) (transcript s t) @ cs \<and> length cs = in_progress (sv_pc s' t)"
  shows "server_inv cb sv a s'"
proof -
  have step: "fc_step cb (sv_fc s) f" using do_move_step [OF assms(2)] .
  have "\<exists>f0. fc_start a f0 \<and> rtranclp (fc_step cb) f0 f"
    using server_invD(1) [OF assms(1)] step by (meson rtranclp.rtrancl_into_rtrancl)
  moreover have "\<exists>rest. sequential_answers cb a f t = map snd (transcript s t) @ rest" for t
    using server_invD(3) [OF assms(1), of t] answers_grow [OF step, of a t] by force
  ultimately show ?thesis using assms(3-6) by (simp add: server_inv_def)
qed

lemma replies_put:
  assumes "replies_ok sv tr w"
    and "status cl = Writing \<Longrightarrow>
      \<exists>cl0. clients w p = Some cl0 \<and> status cl0 = Writing \<and> responce_buffer cl0 = responce_buffer cl"
  shows "replies_ok sv tr (put_client p cl w)"
  using assms unfolding replies_ok_def by (auto split: if_splits) metis

lemma nothing_in_progress:
  "server_inv cb sv a s \<Longrightarrow> in_progress (sv_pc s t) = 0 \<Longrightarrow> requested (sv_fc s) t = map (fst \<circ> snd) (transcript s t)"
  using server_invD(2) [of cb sv a s t] by auto

lemma server_inv_issue:
  assumes inv: "server_inv cb sv a s" and pc: "in_progress (sv_pc s t) = 0"
    and cl: "replies_ok sv (transcript s t) (put_client p cl (sv_worker s t))"
    and issue: "issue cb sv t p cl c s = Some s'"
  shows "server_inv cb sv a s'"
proof -
  let ?c = "loadServiceRequest sv c (req cl)"
  let ?w = "put_client p (cl\<lparr>applicationSpecificStruct := Some ?c\<rparr>) (sv_worker s t)"
  obtain f where f: "do_move cb (Request t ?c) (sv_fc s) = Some f"
      and s': "s' = set_pc t (Executing p) (set_worker t ?w (s\<lparr>sv_fc := f\<rparr>))"
    using issue unfolding issue_def Let_def by (auto split: option.splits)
  have w: "replies_ok sv (transcript s t) ?w"
    using replies_put [OF cl, of "cl\<lparr>applicationSpecificStruct := Some ?c\<rparr>" p] by auto
  show ?thesis
  proof (rule server_inv_move [OF inv f])
    show "\<forall>u. replies_ok sv (transcript s u) (sv_worker s' u)" using server_invD(4) [OF inv] w by (simp add: s')
    show "\<forall>u. \<exists>cs. requested f u = map (fst \<circ> snd) (transcript s u) @ cs \<and> length cs = in_progress (sv_pc s' u)"
      using server_invD(2) [OF inv] nothing_in_progress [OF inv pc] by (simp add: requested_move [OF f] s')
  qed (simp_all add: s')
qed

lemma completed_not_writing:
  "completed_request fd io w = Some (p, cl) \<Longrightarrow> status cl \<noteq> Writing"
  using read_loop_status
  by (fastforce simp: completed_request_def mangosteenResetMemoryAllocator_def
      split: option.splits if_splits sum.splits prod.splits bool.splits)

lemma server_inv_begin:
  assumes inv: "server_inv cb sv a s" and pc: "sv_pc s t = Serving" and cl: "status cl \<noteq> Writing"
    and bgn: "begin_request cb sv t p cl s = Some s'"
  shows "server_inv cb sv a s'"
proof -
  have w: "replies_ok sv (transcript s t) (put_client p cl (sv_worker s t))"
    using replies_put [OF server_invD(4) [OF inv, of t]] cl by blast
  show ?thesis
  proof (cases "applicationSpecificStruct cl")
    case None
    then obtain f where f: "do_move cb (First t) (sv_fc s) = Some f"
        and s': "s' = set_pc t (Allocating p) (set_worker t (put_client p cl (sv_worker s t)) (s\<lparr>sv_fc := f\<rparr>))"
      using bgn unfolding begin_request_def by (auto split: option.splits)
    show ?thesis
    proof (rule server_inv_move [OF inv f])
      show "\<forall>u. replies_ok sv (transcript s u) (sv_worker s' u)" using server_invD(4) [OF inv] w by (simp add: s')
      show "\<forall>u. \<exists>cs. requested f u = map (fst \<circ> snd) (transcript s u) @ cs \<and> length cs = in_progress (sv_pc s' u)"
        using server_invD(2) [OF inv] nothing_in_progress [OF inv, of t] pc by (simp add: requested_move [OF f] s')
    qed (simp_all add: s')
  next
    case (Some c)
    then show ?thesis
      using server_inv_issue [OF inv _ w, of c] pc bgn by (simp add: begin_request_def)
  qed
qed

text \<open>A request that has returned: its answer is the struct it left.\<close>

lemma answer_at_rest:
  assumes inv: "server_inv cb sv a s" and pc: "sv_pc s t = Executing p" and idle: "thread_pc (sv_fc s) t = Idle"
  shows "sequential_answers cb a (sv_fc s) t =
    map snd (transcript s t) @ [(last (requested (sv_fc s) t), struct_of (sv_fc s) t)]"
proof -
  let ?f = "sv_fc s"
  obtain f0 where run: "fc_start a f0" "rtranclp (fc_step cb) f0 ?f" using server_invD(1) [OF inv] by blast
  obtain rest where rest: "sequential_answers cb a ?f t = map snd (transcript s t) @ rest"
    using server_invD(3) [OF inv] by blast
  obtain c where c: "requested ?f t = map (fst \<circ> snd) (transcript s t) @ [c]"
    using server_invD(2) [OF inv, of t] pc by (auto simp: length_Suc_conv)
  note q = reachable_is_sequential(2,3) [OF run idle, folded sequential_answers_def]
  from q(1) have "map fst rest = [c]" using rest c by simp
  then obtain r where r: "rest = [(c, r)]" by auto
  then have "r = struct_of ?f t" using q(2) rest by simp
  then show ?thesis using rest r c by simp
qed

lemma server_inv_respond:
  assumes inv: "server_inv cb sv a s" and pc: "sv_pc s t = Executing p" and idle: "thread_pc (sv_fc s) t = Idle"
    and respond: "respond sv ctl_ok t p s = Some s'"
  shows "server_inv cb sv a s'"
proof -
  let ?r = "struct_of (sv_fc s) t" and ?c = "last (requested (sv_fc s) t)"
  obtain cl cl' where cl': "prepare_client_response sv (cl\<lparr>applicationSpecificStruct := Some ?r\<rparr>) = Inr cl'"
      and s': "sv_fc s' = sv_fc s" "transcript s' = (transcript s)(t := transcript s t @ [(p, ?c, ?r)])"
        "sv_pc s' = (sv_pc s)(t := Serving)"
        "\<And>u. u \<noteq> t \<Longrightarrow> sv_worker s' u = sv_worker s u"
        "clients (sv_worker s' t) = (clients (sv_worker s t))(p \<mapsto> cl'\<lparr>bytes_read := 0, status := Writing\<rparr>)"
    using respond unfolding respond_def Let_def by (auto split: option.splits sum.splits)
  have buf: "responce_buffer cl' = Some (fst (getResponseInfo sv ?r))"
    using cl' by (auto simp: prepare_client_response_def Let_def split: prod.splits if_splits)
  have "replies_ok sv (transcript s' t) (sv_worker s' t)"
    using server_invD(4) [OF inv, of t] buf unfolding replies_ok_def s'(2,5) by auto
  then have "\<forall>u. replies_ok sv (transcript s' u) (sv_worker s' u)"
    using server_invD(4) [OF inv] s'(2,4) by (metis fun_upd_other)
  moreover have "\<exists>rest. sequential_answers cb a (sv_fc s') u = map snd (transcript s' u) @ rest" for u
    using answer_at_rest [OF inv pc idle] server_invD(3) [OF inv, of u] s'(1,2) by auto
  moreover have "\<exists>cs. requested (sv_fc s') u = map (fst \<circ> snd) (transcript s' u) @ cs \<and> length cs = in_progress (sv_pc s' u)" for u
    using server_invD(2) [OF inv, of u] pc s'(1-3) by (auto simp: length_Suc_conv)
  ultimately show ?thesis using server_invD(1) [OF inv] s'(1) by (simp add: server_inv_def)
qed

lemma server_inv_run:
  assumes inv: "server_inv cb sv a s" and f: "do_move cb m (sv_fc s) = Some f" and m: "m = Run t \<or> m = Map t"
  shows "server_inv cb sv a (s\<lparr>sv_fc := f\<rparr>)"
  using server_invD(2,4) [OF inv] m
  by (intro server_inv_move [OF inv f]) (auto simp: requested_move [OF f])

lemma server_inv_step:
  assumes inv: "server_inv cb sv a s" and "server_step cb sv fd s s'"
  shows "server_inv cb sv a s'"
  using assms(2)
proof cases
  case (event t io w)
  have "replies_ok sv (transcript s t) w"
    unfolding replies_ok_def
  proof (intro allI impI)
    fix p cl
    assume "clients w p = Some cl \<and> status cl = Writing"
    then obtain cl0 where "clients (sv_worker s t) p = Some cl0" "status cl0 = Writing"
        "responce_buffer cl0 = responce_buffer cl"
      using handle_event_writing event(4,5) by blast
    then show "\<exists>c r. map_of (rev (transcript s t)) p = Some (c, r) \<and> responce_buffer cl = Some (fst (getResponseInfo sv r))"
      using server_invD(4) [OF inv, of t] unfolding replies_ok_def by metis
  qed
  then show ?thesis using inv event(1) by (simp add: server_inv_def)
next
  case (begin_request t io p cl)
  then show ?thesis using server_inv_begin [OF inv] completed_not_writing by blast
next
  case (allocated t p cl)
  then have "replies_ok sv (transcript s t) (put_client p cl (sv_worker s t))"
    using replies_put [OF server_invD(4) [OF inv]] by blast
  with allocated show ?thesis using server_inv_issue [OF inv, of t p cl] by simp
next
  case (respond t p ctl_ok)
  then show ?thesis using server_inv_respond [OF inv] by (auto simp: at_rest_def)
next
  case (run t f)
  then show ?thesis using server_inv_run [OF inv run(2)] by simp
next
  case (map t f)
  then show ?thesis using server_inv_run [OF inv map(2)] by simp
qed

interpretation srv: invariant_system "server_start a" "server_step cb sv fd" "server_inv cb sv a"
  by unfold_locales (auto intro: server_inv_start server_inv_step)

text \<open>
  C5: The server answers as if it executed the requests of all connections one after the other. In every
  reachable state the application is the outcome of executing the history of requests sequentially;
  what each worker has answered, with the requests answered, is what the sequential execution
  answers to that worker's requests, up to the one request the worker may be executing; and a
  connection that waits to write holds the response to the last request that was answered on it.
\<close>

theorem server_answers_sequentially:
  assumes "server_start a s0" "rtranclp (server_step cb sv fd) s0 s"
  shows "app (sv_fc s) = outcome (processRequestCallBack cb) a (history (sv_fc s))
    \<and> (\<forall>t. \<exists>rest. answers_to t (answered (processRequestCallBack cb) a (history (sv_fc s))) = map snd (transcript s t) @ rest
          \<and> length rest \<le> in_progress (sv_pc s t))
    \<and> (\<forall>t p cl. clients (sv_worker s t) p = Some cl \<and> status cl = Writing \<longrightarrow>
          (\<exists>c r. map_of (rev (transcript s t)) p = Some (c, r) \<and> responce_buffer cl = Some (fst (getResponseInfo sv r))))"
proof -
  have inv: "server_inv cb sv a s" using srv.inv_reachable [OF assms] .
  obtain f0 where run: "fc_start a f0" "rtranclp (fc_step cb) f0 (sv_fc s)" using server_invD(1) [OF inv] by blast
  have "\<exists>rest. sequential_answers cb a (sv_fc s) t = map snd (transcript s t) @ rest \<and> length rest \<le> in_progress (sv_pc s t)" for t
  proof -
    obtain rest where r: "sequential_answers cb a (sv_fc s) t = map snd (transcript s t) @ rest"
      using server_invD(3) [OF inv] by blast
    obtain x where "requested (sv_fc s) t = map fst (sequential_answers cb a (sv_fc s) t) @ x"
      using reachable_is_sequential(4) [OF run, of t] unfolding sequential_answers_def by blast
    then have "length rest \<le> in_progress (sv_pc s t)"
      using server_invD(2) [OF inv, of t] r by auto
    with r show ?thesis by blast
  qed
  then show ?thesis
    using reachable_is_sequential(1) [OF run] server_invD(4) [OF inv]
    by (simp add: sequential_answers_def replies_ok_def)
qed

section \<open>Runs\<close>

text \<open>Runs as data, like the moves of \<open>Flat_Combining\<close>.\<close>

datatype server_move = Handle nat event_io | Proceed nat | Advance nat

fun do_server_move ::
    "('c, 'a) callbacks \<Rightarrow> 'c service \<Rightarrow> (nat \<Rightarrow> 32 word) \<Rightarrow> server_move \<Rightarrow> ('c, 'a) server \<Rightarrow> ('c, 'a) server option" where
  "do_server_move cb sv fd (Handle t io) s =
     (if at_rest (sv_fc s) t \<and> sv_pc s t = Serving
      then case completed_request (fd t) io (sv_worker s t) of
             None \<Rightarrow> (case handle_event sv (fd t) io (sv_worker s t) of Inl _ \<Rightarrow> None | Inr w \<Rightarrow> Some (set_worker t w s))
           | Some (p, cl) \<Rightarrow> begin_request cb sv t p cl s
      else None)"
| "do_server_move cb sv fd (Proceed t) s =
     (if at_rest (sv_fc s) t
      then case sv_pc s t of
             Serving \<Rightarrow> None
           | Allocating p \<Rightarrow>
               (case clients (sv_worker s t) p of
                  None \<Rightarrow> None
                | Some cl \<Rightarrow> issue cb sv t p cl (allocateThreadLocalServiceRequestStruct sv) s)
           | Executing p \<Rightarrow> respond sv True t p s
      else None)"
| "do_server_move cb sv fd (Advance t) s =
     (case do_move cb (Run t) (sv_fc s) of None \<Rightarrow> None | Some f \<Rightarrow> Some (s\<lparr>sv_fc := f\<rparr>))"

fun do_server_moves ::
    "('c, 'a) callbacks \<Rightarrow> 'c service \<Rightarrow> (nat \<Rightarrow> 32 word) \<Rightarrow> server_move list \<Rightarrow> ('c, 'a) server \<Rightarrow> ('c, 'a) server option" where
  "do_server_moves cb sv fd [] s = Some s"
| "do_server_moves cb sv fd (m # ms) s =
     (case do_server_move cb sv fd m s of None \<Rightarrow> None | Some s' \<Rightarrow> do_server_moves cb sv fd ms s')"

lemma do_server_move_step:
  assumes "do_server_move cb sv fd m s = Some s'"
  shows "server_step cb sv fd s s'"
proof (cases m)
  case (Handle t io)
  show ?thesis
  proof (cases "completed_request (fd t) io (sv_worker s t)")
    case None
    then show ?thesis
      using assms Handle server_step.event [of s t fd io sv _ cb] by (auto split: if_splits sum.splits)
  next
    case (Some x)
    then show ?thesis
      using assms Handle server_step.begin_request [of s t fd io] by (cases x) (auto split: if_splits)
  qed
next
  case (Proceed t)
  then show ?thesis
    using assms by (auto split: if_splits request_pc.splits option.splits intro: server_step.allocated server_step.respond)
next
  case (Advance t)
  then show ?thesis using assms server_step.run [of cb t s] by (auto split: option.splits simp del: do_move.simps)
qed

lemma do_server_moves_run: "do_server_moves cb sv fd ms s = Some s' \<Longrightarrow> rtranclp (server_step cb sv fd) s s'"
  by (induction ms arbitrary: s)
    (auto split: option.splits intro: converse_rtranclp_into_rtranclp do_server_move_step simp del: do_server_move.simps)

definition example_service :: "int service" where
  "example_service =
     \<lparr>allocateThreadLocalServiceRequestStruct = 0, loadServiceRequest = (\<lambda>_ bs. uint (hd bs)), executeRequest = id,
      getResponseInfo = (\<lambda>c. ([word_of_int c], 1))\<rparr>"

definition example_server :: "(int, int) server" where
  "example_server =
     \<lparr>sv_fc = example_fc,
      sv_worker = (\<lambda>_. \<lparr>clients = (\<lambda>_. None), interest = (\<lambda>_. Closed), client_connections = 0\<rparr>),
      sv_pc = (\<lambda>_. Serving), transcript = (\<lambda>_. [])\<rparr>"

definition example_io :: "addr \<Rightarrow> accept_result list \<Rightarrow> read_result list \<Rightarrow> event_io" where
  "example_io d accepts reads =
     \<lparr>io_data = d, io_events = \<lparr>ev_err = False, ev_in = True, ev_out = False\<rparr>, io_accepts = accepts,
      io_reads = reads, io_sends = [], io_ctl_ok = True\<rparr>"

text \<open>Worker 1 accepts a connection and executes the request it sends.\<close>

definition example_server_moves :: "server_move list" where
  "example_server_moves =
     [Handle 1 (example_io 3 [Accepted (Some 100) (Some (replicate 6 0)) True, Accept_again] []),
      Handle 1 (example_io 100 [] [Queued [5, 13], Queued [10], Read_again])]
     @ replicate 9 (Advance 1) @ [Proceed 1] @ replicate 24 (Advance 1) @ [Proceed 1]"

definition served_example :: "(int, int) server" where
  "served_example = the (do_server_moves example_callbacks example_service (\<lambda>_. 3) example_server_moves example_server)"

lemma served_example:
  "do_server_moves example_callbacks example_service (\<lambda>_. 3) example_server_moves example_server = Some served_example"
  "history (sv_fc served_example) = [(1, 5)]"
  "map_option status (clients (sv_worker served_example 1) 100) = Some Writing"
  "transcript served_example 1 = [(100, 5, 10)]"
proof -
  have "do_server_moves example_callbacks example_service (\<lambda>_. 3) example_server_moves example_server \<noteq> None"
    by code_simp
  then show "do_server_moves example_callbacks example_service (\<lambda>_. 3) example_server_moves example_server = Some served_example"
    by (auto simp: served_example_def)
  show "history (sv_fc served_example) = [(1, 5)]" by code_simp
  show "map_option status (clients (sv_worker served_example 1) 100) = Some Writing" by code_simp
  show "transcript served_example 1 = [(100, 5, 10)]" by code_simp
qed

theorem server_answers_sequentially_witness:
  "app (sv_fc served_example) = 15
   \<and> (\<exists>cl. clients (sv_worker served_example 1) 100 = Some cl \<and> responce_buffer cl = Some [10])"
proof -
  have "server_start 10 example_server"
    using example_fc_start by (simp add: server_start_def example_server_def)
  note th = server_answers_sequentially [OF this do_server_moves_run [OF served_example(1)]]
  obtain cl where cl: "clients (sv_worker served_example 1) 100 = Some cl" "status cl = Writing"
    using served_example(3) by (cases "clients (sv_worker served_example 1) 100") auto
  then have "responce_buffer cl = Some [10]"
    using th served_example(4) by (fastforce simp: example_service_def)
  with cl show ?thesis using th served_example(2) by (simp add: example_callbacks_def)
qed

end
