(* ===== verification/Worker_Startup.thy ===== *)
theory Worker_Startup
  imports Client_Connection Startup RPC_State_Machine
begin

text \<open>
  From the creation of a worker thread to its event loop: \<open>start_worker_thread\<close>, \<open>configure_cpu_set\<close>,
  \<open>setup_listen_fd\<close>, \<open>set_up_epoll\<close> and the beginning of \<open>start_event_loop\<close> in
  \<^verbatim>\<open>flat_combining/flat_combining.c\<close>, \<open>open_listenfd\<close> and \<open>setnonblocking\<close> in \<^verbatim>\<open>netutils/netutils.c\<close>. The outcome of each
  system call is an argument; the descriptors it opens and changes are the record \<open>descriptors\<close>.
\<close>

section \<open>Sockets\<close>

definition PORT_NUMBER :: nat where "PORT_NUMBER = 6379"
definition MAX_CONN :: nat where "MAX_CONN = 256"
definition O_NONBLOCK :: u32 where "O_NONBLOCK = 2048"
definition O_RDWR_flag :: u32 where "O_RDWR_flag = 2"

text \<open>The flags of the open descriptors, the ports they are bound to, the ones that listen (with
  their backlog), and what each epoll instance watches.\<close>

record descriptors =
  fd_flags :: "int \<Rightarrow> u32 option"
  bound_to :: "int \<Rightarrow> nat option"
  backlog :: "int \<Rightarrow> nat option"
  watched :: "int \<Rightarrow> int list"

text \<open>\<open>fcntl\<close> on a descriptor that is not open fails and changes nothing.\<close>

definition setnonblocking :: "int \<Rightarrow> descriptors \<Rightarrow> descriptors" where
  "setnonblocking fd d =
     (case fd_flags d fd of
        None \<Rightarrow> d
      | Some old_option \<Rightarrow> d\<lparr>fd_flags := (fd_flags d)(fd \<mapsto> old_option OR O_NONBLOCK)\<rparr>)"

text \<open>
  The results of \<open>socket\<close> (a new descriptor, or \<open>None\<close> where it returns \<open>-1\<close>), \<open>setsockopt\<close>, \<open>bind\<close>,
  \<open>listen\<close>, \<open>malloc\<close> for the events, \<open>epoll_create1\<close> and \<open>epoll_ctl\<close>.
\<close>

record listen_io =
  io_socket :: "int option"
  io_setsockopt :: bool
  io_bind :: bool
  io_listen :: bool
  io_malloc :: bool
  io_epoll_create :: "int option"
  io_epoll_ctl :: bool

definition open_listenfd :: "nat \<Rightarrow> listen_io \<Rightarrow> descriptors \<Rightarrow> int \<times> descriptors" where
  "open_listenfd port io d =
     (case io_socket io of
        None \<Rightarrow> (-1, d)
      | Some listenfd \<Rightarrow>
          (let d1 = d\<lparr>fd_flags := (fd_flags d)(listenfd \<mapsto> O_RDWR_flag)\<rparr>
           in if \<not> io_setsockopt io then (-1, d1)
              else if \<not> io_bind io then (-1, d1)
              else (let d2 = d1\<lparr>bound_to := (bound_to d1)(listenfd \<mapsto> port)\<rparr>
                    in if \<not> io_listen io then (-1, d2)
                       else (listenfd, d2\<lparr>backlog := (backlog d2)(listenfd \<mapsto> MAX_CONN)\<rparr>))))"

definition setup_listen_fd :: "listen_io \<Rightarrow> descriptors \<Rightarrow> int \<times> descriptors" where
  "setup_listen_fd io d = (let (listenfd, d1) = open_listenfd PORT_NUMBER io d in (listenfd, setnonblocking listenfd d1))"

text \<open>\<open>epoll_ctl\<close> fails on a descriptor that is not open.\<close>

definition set_up_epoll :: "int \<Rightarrow> listen_io \<Rightarrow> descriptors \<Rightarrow> (int \<times> descriptors) result" where
  "set_up_epoll listenfd io d =
     (case io_epoll_create io of
        None \<Rightarrow> Inl ExitFailure
      | Some epollfd \<Rightarrow>
          (let d1 = d\<lparr>fd_flags := (fd_flags d)(epollfd \<mapsto> O_RDWR_flag)\<rparr>
           in if fd_flags d1 listenfd = None \<or> \<not> io_epoll_ctl io then Inl ExitFailure
              else Inr (epollfd, d1\<lparr>watched := (watched d1)(epollfd := watched d1 epollfd @ [listenfd])\<rparr>)))"

section \<open>Worker threads\<close>

text \<open>CPU affinity is switched off in \<^verbatim>\<open>configuration.h\<close>.\<close>

definition RUN_WITHOUT_CPU_SET :: bool where "RUN_WITHOUT_CPU_SET = True"

record affinity_io =
  io_setaffinity :: "nat set \<Rightarrow> bool"
  io_getaffinity :: bool

definition configure_cpu_set :: "affinity_io \<Rightarrow> task \<Rightarrow> unit result" where
  "configure_cpu_set io threadEntry =
     (if RUN_WITHOUT_CPU_SET \<or> is_recovering threadEntry then Inr ()
      else if \<not> io_setaffinity io {thread_number threadEntry + 1} then Inl ExitFailure
      else if \<not> io_getaffinity io then Inl ExitFailure
      else Inr ())"

text \<open>
  The functions a worker looks up with \<open>dlsym\<close>, by name, null where the symbol is missing; and its
  per-thread application data.
\<close>

record thread_functions =
  transientAlloc :: addr
  transientFree :: addr
  mallctl1 :: addr
  per_thread_app :: "app_per_thread_data option"

text \<open>The loop that waits for \<open>READY_TO_INTIALISE\<close>, as the values its loads return.\<close>

fun await_initialise :: "int list \<Rightarrow> unit result" where
  "await_initialise [] = Inl Spinning"
| "await_initialise (r # rs) = (if r \<noteq> READY_TO_INTIALISE then await_initialise rs else Inr ())"

text \<open>
  \<open>start_worker_thread\<close> up to the first turn of the event loop. \<open>mallctl_addr\<close> is the address of the
  library function \<open>mallctl\<close>, which the assertion compares with null instead of the result of \<open>dlsym\<close>;
  \<open>setPerThread\<close> is the callback of the application and gets the address of the thread's entry.
\<close>

definition start_worker_thread ::
    "(string \<Rightarrow> addr) \<Rightarrow> addr \<Rightarrow> (addr \<Rightarrow> app_per_thread_data option result) \<Rightarrow> affinity_io \<Rightarrow> listen_io \<Rightarrow> int list \<Rightarrow>
     addr \<Rightarrow> task \<Rightarrow> nat \<times> descriptors \<Rightarrow> (nat \<times> thread_functions \<times> int \<times> int \<times> descriptors) result" where
  "start_worker_thread dlsym mallctl_addr setPerThread aio lio readys self threadEntry st =
     (let (initializedThreads, d) = st
      in and_then (await_initialise readys) (\<lambda>_.
         and_then (configure_cpu_set aio threadEntry) (\<lambda>_.
         if mallctl_addr = 0 then Inl AssertFail
         else and_then (setPerThread self) (\<lambda>ap.
         if \<not> io_malloc lio then Inl AssertFail
         else let (listenfd, d1) = setup_listen_fd lio d
              in and_then (set_up_epoll listenfd lio d1) (\<lambda>(epollfd, d2).
                 Inr (initializedThreads + 1,
                      \<lparr>transientAlloc = dlsym ''malloc'', transientFree = dlsym ''free'', mallctl1 = dlsym ''je_mallctl'',
                       per_thread_app = ap\<rparr>,
                      listenfd, epollfd, d2))))))"

section \<open>Start-up succeeds or ends the process\<close>

text \<open>What the event loop needs: an open, listening, non-blocking socket that its epoll instance watches.\<close>

definition serves_port :: "int \<Rightarrow> int \<Rightarrow> descriptors \<Rightarrow> bool" where
  "serves_port listenfd epollfd d \<longleftrightarrow>
     (\<exists>f. fd_flags d listenfd = Some f \<and> f AND O_NONBLOCK = O_NONBLOCK) \<and> bound_to d listenfd = Some PORT_NUMBER
     \<and> backlog d listenfd = Some MAX_CONN \<and> listenfd \<in> set (watched d epollfd) \<and> fd_flags d epollfd \<noteq> None"

definition calls_succeed :: "listen_io \<Rightarrow> bool" where
  "calls_succeed io \<longleftrightarrow> io_socket io \<noteq> None \<and> io_setsockopt io \<and> io_bind io \<and> io_listen io
     \<and> io_epoll_create io \<noteq> None \<and> io_epoll_ctl io"

text \<open>The kernel hands out descriptors that are not in use; \<open>-1\<close> is none.\<close>

definition fresh_fds :: "listen_io \<Rightarrow> descriptors \<Rightarrow> bool" where
  "fresh_fds io d \<longleftrightarrow> fd_flags d (-1) = None \<and> (\<forall>fd. io_socket io = Some fd \<longrightarrow> 0 \<le> fd \<and> fd_flags d fd = None)
     \<and> (\<forall>fd. io_epoll_create io = Some fd \<longrightarrow> 0 \<le> fd \<and> fd_flags d fd = None \<and> io_socket io \<noteq> Some fd)"

lemma nonblock_set: "(O_RDWR_flag OR O_NONBLOCK) AND O_NONBLOCK = O_NONBLOCK"
  by (simp add: O_RDWR_flag_def O_NONBLOCK_def)

lemma listen_set_up:
  assumes "calls_succeed io" "fresh_fds io d"
  shows "\<exists>lfd efd d'. io_socket io = Some lfd \<and> io_epoll_create io = Some efd
    \<and> set_up_epoll (fst (setup_listen_fd io d)) io (snd (setup_listen_fd io d)) = Inr (efd, d')
    \<and> fst (setup_listen_fd io d) = lfd \<and> serves_port lfd efd d'"
proof -
  obtain lfd efd where fds: "io_socket io = Some lfd" "io_epoll_create io = Some efd"
    using assms(1) by (auto simp: calls_succeed_def)
  then have "lfd \<noteq> efd" using assms(2) by (auto simp: fresh_fds_def)
  with fds show ?thesis
    using assms(1) nonblock_set
    by (auto simp: calls_succeed_def setup_listen_fd_def open_listenfd_def set_up_epoll_def setnonblocking_def
        serves_port_def Let_def)
qed

text \<open>A call that fails is noticed, if not at once then when the descriptor \<open>-1\<close> is added to the epoll instance.\<close>

lemma listen_set_up_fails:
  assumes "\<not> calls_succeed io" "fresh_fds io d"
  shows "set_up_epoll (fst (setup_listen_fd io d)) io (snd (setup_listen_fd io d)) = Inl ExitFailure"
proof (cases "io_socket io \<noteq> None \<and> io_setsockopt io \<and> io_bind io \<and> io_listen io")
  case True
  then show ?thesis using assms(1) by (auto simp: calls_succeed_def set_up_epoll_def split: option.splits)
next
  case False
  then have minus: "fst (setup_listen_fd io d) = -1"
    by (auto simp: setup_listen_fd_def open_listenfd_def Let_def split: option.splits)
  have "fd_flags (snd (open_listenfd PORT_NUMBER io d)) (-1) = None"
    using assms(2) by (auto simp: fresh_fds_def open_listenfd_def Let_def split: option.splits)
  then have "fd_flags (snd (setup_listen_fd io d)) (-1) = None"
    using minus by (auto simp: setup_listen_fd_def setnonblocking_def split_beta split: option.splits)
  then show ?thesis
    using minus assms(2) by (auto simp: set_up_epoll_def fresh_fds_def split: option.splits)
qed

lemma await_initialise_ok: "READY_TO_INTIALISE \<in> set rs \<Longrightarrow> await_initialise rs = Inr ()"
  by (induction rs) auto

text \<open>
  C28: A worker thread that has been told to initialise serves the port or ends the process. If every
  call of its start-up succeeds, it reaches its event loop with a listening socket on the port that
  is non-blocking and watched by its epoll instance; if any of them fails, the process exits (a
  failed \<open>socket\<close>, \<open>setsockopt\<close>, \<open>bind\<close> or \<open>listen\<close> only when the descriptor \<open>-1\<close> is added to the epoll instance):
  no worker ever waits for connections that cannot arrive.
\<close>

theorem worker_serves_port_or_exits:
  assumes "READY_TO_INTIALISE \<in> set readys" "mallctl_addr \<noteq> 0" "setPerThread self = Inr ap"
    and "io_malloc lio" "fresh_fds lio d"
  shows "if calls_succeed lio
    then \<exists>fs lfd efd d'. start_worker_thread dlsym mallctl_addr setPerThread aio lio readys self entry (n, d)
        = Inr (n + 1, fs, lfd, efd, d') \<and> io_socket lio = Some lfd \<and> serves_port lfd efd d'
    else start_worker_thread dlsym mallctl_addr setPerThread aio lio readys self entry (n, d) = Inl ExitFailure"
proof (cases "calls_succeed lio")
  case True
  then show ?thesis
    using listen_set_up [OF True assms(5)] await_initialise_ok [OF assms(1)] assms(2-4)
    by (auto simp: start_worker_thread_def configure_cpu_set_def RUN_WITHOUT_CPU_SET_def split_beta)
next
  case False
  then show ?thesis
    using listen_set_up_fails [OF False assms(5)] await_initialise_ok [OF assms(1)] assms(2-4)
    by (simp add: start_worker_thread_def configure_cpu_set_def RUN_WITHOUT_CPU_SET_def split_beta)
qed

definition example_listen :: listen_io where
  "example_listen =
     \<lparr>io_socket = Some 5, io_setsockopt = True, io_bind = True, io_listen = True, io_malloc = True,
      io_epoll_create = Some 6, io_epoll_ctl = True\<rparr>"

definition no_descriptors :: descriptors where
  "no_descriptors = \<lparr>fd_flags = (\<lambda>_. None), bound_to = (\<lambda>_. None), backlog = (\<lambda>_. None), watched = (\<lambda>_. [])\<rparr>"

definition example_task :: task where
  "example_task =
     \<lparr>task_ready = READY_TO_INTIALISE, connection_slot = 0, thread_number = 2, task_listenfd = 0, task_epollfd = 0,
      is_recovering = False, command_request = []\<rparr>"

definition example_start :: "listen_io \<Rightarrow> (nat \<times> thread_functions \<times> int \<times> int \<times> descriptors) result" where
  "example_start io =
     start_worker_thread (\<lambda>_. 4096) 8192 (\<lambda>_. Inr None) \<lparr>io_setaffinity = (\<lambda>_. True), io_getaffinity = True\<rparr> io
       [NONE, READY_TO_INTIALISE] 16384 example_task (0, no_descriptors)"

theorem worker_serves_port_or_exits_witness:
  "(\<exists>fs efd d'. example_start example_listen = Inr (1, fs, 5, efd, d') \<and> serves_port 5 efd d')
   \<and> example_start (example_listen\<lparr>io_bind := False\<rparr>) = Inl ExitFailure"
proof -
  note th = worker_serves_port_or_exits [where readys = "[NONE, READY_TO_INTIALISE]" and mallctl_addr = 8192
      and setPerThread = "\<lambda>_. Inr None" and ap = None and self = 16384 and d = no_descriptors and dlsym = "\<lambda>_. 4096"
      and aio = "\<lparr>io_setaffinity = (\<lambda>_. True), io_getaffinity = True\<rparr>" and entry = example_task and n = 0,
      folded example_start_def]
  have "io_malloc example_listen" "fresh_fds example_listen no_descriptors" "calls_succeed example_listen"
    by (simp_all add: example_listen_def fresh_fds_def no_descriptors_def calls_succeed_def)
  moreover have "io_malloc (example_listen\<lparr>io_bind := False\<rparr>)" "fresh_fds (example_listen\<lparr>io_bind := False\<rparr>) no_descriptors"
      "\<not> calls_succeed (example_listen\<lparr>io_bind := False\<rparr>)"
    by (simp_all add: example_listen_def fresh_fds_def no_descriptors_def calls_succeed_def)
  ultimately show ?thesis
    using th [of example_listen] th [of "example_listen\<lparr>io_bind := False\<rparr>"] by (auto simp: example_listen_def)
qed

section \<open>What goes unnoticed\<close>

text \<open>A failed \<open>setsockopt\<close>, \<open>bind\<close> or \<open>listen\<close> leaves the socket open.\<close>

lemma failed_listen_leaks_socket:
  assumes "io_socket io = Some fd" "\<not> (io_setsockopt io \<and> io_bind io \<and> io_listen io)"
  shows "fst (open_listenfd port io d) = -1 \<and> fd_flags (snd (open_listenfd port io d)) fd \<noteq> None"
  using assms by (auto simp: open_listenfd_def Let_def)

text \<open>
  A missing symbol goes unnoticed: \<open>dlsym\<close> returned null, and the thread goes on, since the assertion
  tests another function.
\<close>

lemma missing_symbol_unnoticed:
  assumes "start_worker_thread dlsym mallctl_addr setPerThread aio lio readys self entry st = Inr (n, fs, r)"
    and "dlsym ''malloc'' = 0" "dlsym ''mallctl'' = 0"
  shows "transientAlloc fs = 0"
  using assms
  by (auto simp: start_worker_thread_def and_then_Inr split_beta Let_def split: if_splits)

text \<open>
  The RPC example takes the argument of the callback for an allocation function; what it stores is the
  address of the thread's entry.
\<close>

lemma entry_taken_for_allocator:
  assumes "start_worker_thread dlsym mallctl_addr (\<lambda>p. and_then (set_per_thread_data p) (\<lambda>d. Inr (Some d)))
      aio lio readys self entry st = Inr (n, fs, r)"
  shows "\<exists>d. per_thread_app fs = Some d \<and> allocateMemory (enableCombiner d) = Persistent_alloc self"
proof -
  obtain ap where "and_then (set_per_thread_data self) (\<lambda>d. Inr (Some d)) = Inr ap" "ap = per_thread_app fs"
    using assms by (auto simp: start_worker_thread_def and_then_Inr split_beta Let_def split: if_splits)
  then show ?thesis
    by (cases "per_thread_app fs")
      (auto simp: set_per_thread_data_def allocateMemory_def enableCombiner_def split: if_splits)
qed

end
