(* ===== verification/Dr_Client.thy ===== *)
theory Dr_Client
  imports Instrumentation Startup
begin

text \<open>
  The registration side of the DynamoRIO client, \<^verbatim>\<open>instrumentation/instrument_front_end.c\<close>: what
  \<open>dr_client_main\<close> registers in the states of a front end, the exit event that undoes it, the life of a
  thread's blocks, wrapping of \<open>memcpy\<close> at module load, and the annotations of
  \<^verbatim>\<open>flat_combining/dr_annotations.c\<close>, which do nothing unless a handler is registered for them. DynamoRIO is not
  modelled: what its calls return is an argument, and that an unregistration succeeds exactly for what is
  registered is a hypothesis.
\<close>

section \<open>Registration\<close>

definition FRONT_END_INITIAL :: int where "FRONT_END_INITIAL = 0"

datatype dr_call =
    Annotation string
  | Drmgr_init | Drutil_init | Drwrap_init | Drreg_init | Drx_init
  | Mutex | Exit_event | Thread_init_event | Thread_exit_event | Bb_app2app_event | Bb_instrumentation_event
  | Module_load_event | Tls_field | Code_cache | Filter_syscall_event | Pre_syscall_event | Post_syscall_event

text \<open>A condition of calls joined by \<open>||\<close>: the first one that fails ends it with the assertion.\<close>

fun all_registered :: "(dr_call \<Rightarrow> bool) \<Rightarrow> dr_call list \<Rightarrow> dr_call list \<Rightarrow> dr_call list result" where
  "all_registered ok [] reg = Inr reg"
| "all_registered ok (c # cs) reg = (if ok c then all_registered ok cs (reg @ [c]) else Inl AssertFail)"

text \<open>Calls whose result the source ignores: they take effect where DynamoRIO accepts them, and nothing notices where not.\<close>

definition if_accepted :: "(dr_call \<Rightarrow> bool) \<Rightarrow> dr_call list \<Rightarrow> dr_call list \<Rightarrow> dr_call list" where
  "if_accepted ok cs reg = reg @ filter ok cs"

definition event_registrations :: "dr_call list" where
  "event_registrations =
     [Thread_init_event, Thread_exit_event, Bb_app2app_event, Bb_instrumentation_event, Drreg_init, Drx_init]"

definition register_syscall_events :: "(dr_call \<Rightarrow> bool) \<Rightarrow> dr_call list \<Rightarrow> dr_call list result" where
  "register_syscall_events ok reg = all_registered ok [Pre_syscall_event, Post_syscall_event] (reg @ [Filter_syscall_event])"

definition register_initial :: "(dr_call \<Rightarrow> bool) \<Rightarrow> dr_call list result" where
  "register_initial ok =
     and_then (all_registered ok event_registrations
                 (if_accepted ok [Annotation ''commit_rb_entries'', Drmgr_init, Drutil_init] [] @ [Mutex, Exit_event]))
       (register_syscall_events ok)"

text \<open>The code cache: one page, filled with a clean call and a jump back; it must fit.\<close>

definition code_cache_init :: "nat \<Rightarrow> nat \<Rightarrow> dr_call list \<Rightarrow> dr_call list result" where
  "code_cache_init page_size code_size reg = (if code_size < page_size then Inr (reg @ [Code_cache]) else Inl AssertFail)"

text \<open>The annotations that get a handler, in the order of their registration.\<close>

definition default_annotations :: "string list" where
  "default_annotations = [''instrument_start'', ''instrument_stop'', ''reset_hash_set'', ''copyDataFromPersistentMemory'',
     ''collect_mmaps'', ''commit_mmaps'', ''setCombinerToInitilise'', ''instrumented_memcpy'']"

definition register_default :: "nat \<Rightarrow> nat \<Rightarrow> (dr_call \<Rightarrow> bool) \<Rightarrow> dr_call list result" where
  "register_default page_size code_size ok =
     and_then (all_registered ok [Module_load_event] (if_accepted ok [Drmgr_init, Drwrap_init] [])) (\<lambda>reg.
       and_then (all_registered ok event_registrations (if_accepted ok [Drutil_init] reg @ [Mutex, Exit_event])) (\<lambda>reg1.
         and_then (all_registered ok [Tls_field] (if_accepted ok (map Annotation default_annotations) reg1)) (\<lambda>reg2.
           and_then (code_cache_init page_size code_size reg2) (register_syscall_events ok))))"

text \<open>\<open>dr_client_main\<close> in the states where it registers callbacks.\<close>

definition register_client :: "nat \<Rightarrow> nat \<Rightarrow> (dr_call \<Rightarrow> bool) \<Rightarrow> int \<Rightarrow> dr_call list result" where
  "register_client page_size code_size ok state =
     (if state = BACK_END_INITIAL \<or> state = BACK_END_RECOVERY then Inr []
      else if state = FRONT_END_INITIAL then register_initial ok
      else register_default page_size code_size ok)"

text \<open>
  The exit event: the page is freed, then five things are unregistered; \<open>unregister c reg\<close> is what
  DynamoRIO returns for \<open>c\<close> when \<open>reg\<close> is registered.
\<close>

definition exit_unregisters :: "dr_call list" where
  "exit_unregisters = [Tls_field, Thread_init_event, Thread_exit_event, Bb_instrumentation_event, Drreg_init]"

definition event_exit :: "(dr_call \<Rightarrow> dr_call list \<Rightarrow> bool) \<Rightarrow> dr_call list \<Rightarrow> dr_call list result" where
  "event_exit unregister reg =
     (if list_all (\<lambda>c. unregister c reg) exit_unregisters
      then Inr (filter (\<lambda>c. c \<notin> set ([Code_cache, Mutex, Drutil_init, Drmgr_init, Drx_init] @ exit_unregisters)) reg)
      else Inl AssertFail)"

section \<open>Annotations\<close>

text \<open>The annotations the application can call. Without a registered handler the body is empty.\<close>

definition annotations :: "string list" where
  "annotations = [''instrument_start'', ''instrument_stop'', ''reset_hash_set'', ''copyDataFromPersistentMemory'',
     ''commit_rb_entries'', ''setCombinerToInitilise'', ''instrumented_memcpy'']"

definition annotated :: "dr_call list \<Rightarrow> string \<Rightarrow> ('s \<Rightarrow> 's result) \<Rightarrow> 's \<Rightarrow> 's result" where
  "annotated reg name handler s = (if Annotation name \<in> set reg then handler s else Inr s)"

text \<open>\<open>commit_rb_entries\<close>: a commit with the consumer's copies of head and tail.\<close>

definition commit_rb_entries :: "ring_buffer \<times> rb_globals \<Rightarrow> u64 list \<Rightarrow> (ring_buffer \<times> rb_globals) result" where
  "commit_rb_entries x loads =
     (let (rb, g) = x
      in and_then (ring_buffer_commit_enqueued_entries rb (global_local_head g) (global_local_tail g) loads)
           (\<lambda>(rb', h, t, l). Inr (rb', g\<lparr>global_local_head := h, global_local_tail := t\<rparr>)))"

section \<open>Modules and basic blocks\<close>

text \<open>A loaded module: \<open>memcpy\<close> is wrapped where the module exports it; gives the functions wrapped so far.\<close>

definition module_load_event :: "(addr \<Rightarrow> bool) \<Rightarrow> addr option \<Rightarrow> addr list \<Rightarrow> addr list result" where
  "module_load_event drwrap_wrap towrap wrapped =
     (case towrap of
        None \<Rightarrow> Inr wrapped
      | Some f \<Rightarrow> if drwrap_wrap f then Inr (wrapped @ [f]) else Inl AssertFail)"

definition event_bb_app2app :: "('bb \<Rightarrow> 'bb option) \<Rightarrow> ('bb \<Rightarrow> 'bb option) \<Rightarrow> 'bb \<Rightarrow> 'bb result" where
  "event_bb_app2app expand_rep_string expand_scatter_gather bb =
     (case expand_rep_string bb of
        None \<Rightarrow> Inl AssertFail
      | Some bb1 \<Rightarrow>
          (case expand_scatter_gather bb1 of
             None \<Rightarrow> Inl AssertFail
           | Some bb2 \<Rightarrow> Inr bb2))"

text \<open>The per-block data of the analysis phase: no instruction seen yet.\<close>

definition event_bb_analysis :: "addr option" where
  "event_bb_analysis = None"

section \<open>Threads\<close>

text \<open>The blocks a thread allocates in \<open>event_thread_init\<close>, with their sizes; \<open>per_thread_size\<close> is \<open>sizeof(per_thread_t)\<close>.\<close>

datatype thread_block = Per_thread nat | Entry_count nat | Entries nat

definition thread_init_blocks :: "nat \<Rightarrow> thread_block list" where
  "thread_init_blocks per_thread_size = [Per_thread per_thread_size, Entry_count 4, Entries (unat HASH_SET_SIZE * 8)]"

text \<open>\<open>event_thread_exit\<close> adds the thread's count to the global one and frees its \<open>per_thread_t\<close>.\<close>

definition event_thread_exit :: "nat \<Rightarrow> u64 \<Rightarrow> u64 \<times> thread_block list \<Rightarrow> u64 \<times> thread_block list" where
  "event_thread_exit per_thread_size num_refs st =
     (let (global_num_refs, blocks) = st in (global_num_refs + num_refs, remove1 (Per_thread per_thread_size) blocks))"

section \<open>Properties\<close>

lemma all_registered_ok: "\<forall>c\<in>set cs. ok c \<Longrightarrow> all_registered ok cs reg = Inr (reg @ cs)"
  by (induction cs arbitrary: reg) auto

lemma all_registered_fails: "\<not> (\<forall>c\<in>set cs. ok c) \<Longrightarrow> all_registered ok cs reg = Inl AssertFail"
  by (induction cs arbitrary: reg) auto

lemma all_registered_eq:
  "all_registered ok cs reg = (if \<forall>c\<in>set cs. ok c then Inr (reg @ cs) else Inl AssertFail)"
  using all_registered_ok all_registered_fails by metis

text \<open>The calls whose failure ends the process.\<close>

definition checked_calls :: "dr_call list" where
  "checked_calls = [Module_load_event] @ event_registrations @ [Tls_field, Pre_syscall_event, Post_syscall_event]"

lemma register_default_result:
  "register_default ps cs ok =
     (if (\<forall>c\<in>set checked_calls. ok c) \<and> cs < ps
      then Inr (filter ok [Drmgr_init, Drwrap_init] @ [Module_load_event] @ filter ok [Drutil_init] @ [Mutex, Exit_event]
             @ event_registrations @ filter ok (map Annotation default_annotations)
             @ [Tls_field, Code_cache, Filter_syscall_event, Pre_syscall_event, Post_syscall_event])
      else Inl AssertFail)"
  by (auto simp: register_default_def all_registered_eq if_accepted_def code_cache_init_def register_syscall_events_def
      checked_calls_def)

lemma default_state: "register_client ps cs ok INSTRUMENTATION_DEFAULT_STATE = register_default ps cs ok"
  by (simp add: register_client_def state_defs FRONT_END_INITIAL_def)

text \<open>
  C29: The front end attaches with all its event callbacks or not at all. In the state the front end uses, the assertions
  end the process exactly when DynamoRIO refuses one of the calls whose result is checked or the code cache is too
  small. Otherwise every event callback is registered and the exit event finds everything it unregisters. The results
  of the initialisations of the manager, the wrapper and the utilities and of the annotations are ignored: an
  initialisation has happened exactly if it was accepted, and an annotation runs its handler exactly if its registration was
  accepted, with \<open>commit_rb_entries\<close> never registered; the call of any other annotation does nothing, and nothing
  reports it.
\<close>

theorem front_end_attaches_or_stops:
  assumes "\<forall>c reg. unregister c reg \<longleftrightarrow> c \<in> set reg"
  shows "case register_client page_size code_size ok INSTRUMENTATION_DEFAULT_STATE of
      Inl e \<Rightarrow> e = AssertFail \<and> ((\<exists>c\<in>set checked_calls. \<not> ok c) \<or> page_size \<le> code_size)
    | Inr reg \<Rightarrow> (\<forall>c\<in>set checked_calls. ok c) \<and> code_size < page_size
        \<and> set checked_calls \<union> {Filter_syscall_event, Exit_event, Code_cache} \<subseteq> set reg
        \<and> (\<forall>c\<in>{Drmgr_init, Drwrap_init, Drutil_init}. c \<in> set reg \<longleftrightarrow> ok c)
        \<and> (\<forall>a\<in>set annotations. \<forall>handler s.
             annotated reg a handler s = (if a \<noteq> ''commit_rb_entries'' \<and> ok (Annotation a) then handler s else Inr s))
        \<and> returns (event_exit unregister reg)"
proof (cases "(\<forall>c\<in>set checked_calls. ok c) \<and> code_size < page_size")
  case False
  then show ?thesis by (auto simp: default_state register_default_result)
next
  case True
  define reg where "reg = filter ok [Drmgr_init, Drwrap_init] @ [Module_load_event] @ filter ok [Drutil_init] @ [Mutex, Exit_event]
     @ event_registrations @ filter ok (map Annotation default_annotations)
     @ [Tls_field, Code_cache, Filter_syscall_event, Pre_syscall_event, Post_syscall_event]"
  have r: "register_client page_size code_size ok INSTRUMENTATION_DEFAULT_STATE = Inr reg"
    using True by (simp add: default_state register_default_result reg_def)
  have ev: "set checked_calls \<union> {Filter_syscall_event, Exit_event, Code_cache} \<subseteq> set reg"
    by (auto simp: reg_def checked_calls_def)
  have st: "set reg = {c\<in>{Drmgr_init, Drwrap_init, Drutil_init} \<union> Annotation ` set default_annotations. ok c}
      \<union> set checked_calls \<union> {Mutex, Exit_event, Code_cache, Filter_syscall_event}"
    unfolding reg_def checked_calls_def by auto
  have un: "\<forall>c\<in>{Drmgr_init, Drwrap_init, Drutil_init}. c \<in> set reg \<longleftrightarrow> ok c"
    unfolding st by (auto simp: checked_calls_def event_registrations_def)
  have "Annotation a \<in> set reg \<longleftrightarrow> a \<in> set default_annotations \<and> ok (Annotation a)" for a
    unfolding st by (auto simp: checked_calls_def event_registrations_def)
  moreover have "a \<in> set default_annotations \<longleftrightarrow> a \<noteq> ''commit_rb_entries''" if "a \<in> set annotations" for a
    using that by (auto simp: annotations_def default_annotations_def)
  ultimately have an: "Annotation a \<in> set reg \<longleftrightarrow> a \<noteq> ''commit_rb_entries'' \<and> ok (Annotation a)" if "a \<in> set annotations" for a
    using that by blast
  have "set exit_unregisters \<subseteq> set checked_calls"
    by (simp add: exit_unregisters_def checked_calls_def event_registrations_def)
  then have "list_all (\<lambda>c. unregister c reg) exit_unregisters" using ev assms by (auto simp: list_all_iff)
  then have "returns (event_exit unregister reg)" by (simp add: event_exit_def)
  moreover have "\<forall>a\<in>set annotations. \<forall>handler (s :: 'a).
      annotated reg a handler s = (if a \<noteq> ''commit_rb_entries'' \<and> ok (Annotation a) then handler s else Inr s)"
    using an by (simp add: annotated_def)
  ultimately show ?thesis unfolding r sum.case using True ev un by blast
qed

text \<open>A front end whose \<open>instrument_stop\<close> DynamoRIO refuses runs without it, and nothing fails.\<close>

theorem front_end_attaches_or_stops_witness:
  "\<exists>reg. register_client 4096 100 (\<lambda>c. c \<noteq> Annotation ''instrument_stop'') INSTRUMENTATION_DEFAULT_STATE = Inr reg
     \<and> annotated reg ''instrument_start'' (\<lambda>s. Inr (instrument_start s)) example_front = Inr (instrument_start example_front)
     \<and> annotated reg ''instrument_stop'' (\<lambda>s. Inr (instrument_start s)) example_front = Inr example_front
     \<and> returns (event_exit (\<lambda>c reg. c \<in> set reg) reg)"
proof -
  let ?ok = "\<lambda>c. c \<noteq> Annotation ''instrument_stop''"
  have "\<forall>c\<in>set checked_calls. ?ok c" by (simp add: checked_calls_def event_registrations_def)
  then obtain reg where reg: "register_client 4096 100 ?ok INSTRUMENTATION_DEFAULT_STATE = Inr reg"
    by (simp add: default_state register_default_result)
  have a: "''instrument_start'' \<in> set annotations" "''instrument_stop'' \<in> set annotations" by (simp_all add: annotations_def)
  have "\<forall>c reg. (c \<in> set reg) \<longleftrightarrow> c \<in> set reg" by simp
  from front_end_attaches_or_stops [where 'a = front and ok = ?ok and page_size = 4096 and code_size = 100, OF this, unfolded reg sum.case]
  have h: "\<forall>a\<in>set annotations. \<forall>handler s.
        annotated reg a handler (s :: front) = (if a \<noteq> ''commit_rb_entries'' \<and> ?ok (Annotation a) then handler s else Inr s)"
      "returns (event_exit (\<lambda>c reg. c \<in> set reg) reg)"
    by blast+
  show ?thesis
    using reg h(2) bspec [OF h(1) a(1)] bspec [OF h(1) a(2)] by (intro exI [of _ reg]) simp
qed

text \<open>
  In the other state of a front end, which no code sets, no handler of a batch is registered, and the
  exit event fails, as the thread-local field it unregisters was never registered.
\<close>

lemma initial_state_exit_fails:
  assumes "\<forall>c reg. unregister c reg \<longleftrightarrow> c \<in> set reg"
    and "register_client page_size code_size ok FRONT_END_INITIAL = Inr reg"
  shows "event_exit unregister reg = Inl AssertFail" "annotated reg ''instrument_stop'' h s = Inr s"
proof -
  have i: "register_initial ok = Inr reg" using assms(2) by (simp add: register_client_def state_defs FRONT_END_INITIAL_def)
  have reg: "reg = filter ok [Annotation ''commit_rb_entries'', Drmgr_init, Drutil_init] @ [Mutex, Exit_event] @ event_registrations
      @ [Filter_syscall_event, Pre_syscall_event, Post_syscall_event]"
    using i by (auto simp: register_initial_def all_registered_eq if_accepted_def register_syscall_events_def split: if_splits)
  show "event_exit unregister reg = Inl AssertFail"
    using assms(1) by (simp add: event_exit_def exit_unregisters_def reg event_registrations_def)
  show "annotated reg ''instrument_stop'' h s = Inr s"
    by (simp add: annotated_def reg event_registrations_def)
qed

text \<open>A thread that exits leaves its hash set behind.\<close>

lemma thread_exit_leaks_hash_set:
  "Entries 8192 \<in> set (snd (event_thread_exit n refs (g, thread_init_blocks n)))"
  by (simp add: event_thread_exit_def thread_init_blocks_def HASH_SET_SIZE_def)

end
