(* ===== verification/Allocator_Test.thy ===== *)
theory Allocator_Test
  imports Transient_Allocator
begin

text \<open>
  The self-test of the transient allocator, \<open>main\<close> of \<^verbatim>\<open>transient_allocator/transient_allocator.c\<close>: a list of 16384-byte
  blocks is created, drained, refilled and searched, and one block of 8192 bytes is allocated. The
  test is a client of \<open>block_pool\<close>: all its assertions hold, wherever the mappings are. The
  \<open>printf\<close> calls are left out, the walks they make over the list are the ones of \<open>get_list_length\<close>.
\<close>

section \<open>The test\<close>

text \<open>Sequencing of calls that may not return or may fail.\<close>

definition run_then :: "'a result option \<Rightarrow> ('a \<Rightarrow> 'b result option) \<Rightarrow> 'b result option" where
  "run_then r f = (case r of None \<Rightarrow> None | Some (Inl e) \<Rightarrow> Some (Inl e) | Some (Inr x) \<Rightarrow> f x)"

definition assert_length :: "nat \<Rightarrow> memory_node_list \<times> mem \<Rightarrow> unit result option" where
  "assert_length n s =
     map_option (\<lambda>k. if k = n then Inr () else Inl AssertFail) (get_list_length (fst s) (snd s))"

text \<open>The loop that pops every block, and the one that pushes them back.\<close>

fun pop_all :: "nat \<Rightarrow> memory_node_list \<times> mem \<Rightarrow> (addr list \<times> memory_node_list \<times> mem) result option" where
  "pop_all 0 s = Some (Inr ([], s))"
| "pop_all (Suc blocksRemaining) s =
     run_then (assert_length (Suc blocksRemaining) s) (\<lambda>_.
     run_then (Some (pop_node s)) (\<lambda>(p, s1).
     run_then (pop_all blocksRemaining s1) (\<lambda>(ps, s2). Some (Inr (p # ps, s2)))))"

fun push_all :: "nat \<Rightarrow> addr list \<Rightarrow> memory_node_list \<times> mem \<Rightarrow> (memory_node_list \<times> mem) result option" where
  "push_all i [] s = Some (Inr s)"
| "push_all i (p # ps) s =
     run_then (assert_length i s) (\<lambda>_.
     run_then (map_option Inr (push_node p s)) (push_all (Suc i) ps))"

text \<open>The search for one block; a null list is dereferenced.\<close>

partial_function (option) find_block :: "mem \<Rightarrow> addr \<Rightarrow> addr \<Rightarrow> unit result option" where
  "find_block m ptr iterator =
     (if iterator = 0 then Some (Inl SegFault)
      else if ptr = node_usable_space m iterator then Some (Inr ())
      else if node_next m iterator = 0 then Some (Inl AssertFail)
      else find_block m ptr (node_next m iterator))"

fun find_all :: "addr list \<Rightarrow> memory_node_list \<times> mem \<Rightarrow> unit result option" where
  "find_all [] s = Some (Inr ())"
| "find_all (p # ps) s = run_then (find_block (snd s) p (first (fst s))) (\<lambda>_. find_all ps s)"

text \<open>The part of the test after the list: one allocation of 8192 bytes.\<close>

definition alloc_test :: "addr option \<Rightarrow> mem \<Rightarrow> unit result option" where
  "alloc_test mmapped m =
     (let (transientAllocator, MAX_ALLOC) = initialise_allocator
      in run_then (ta_alloc mmapped MAX_ALLOC 8192 transientAllocator m) (\<lambda>(ptr, ta, m1).
         run_then (Some (get_block_index MAX_ALLOC 8192)) (\<lambda>i.
           Some (if i \<noteq> 13 then Inl AssertFail
                 else if ld32 m1 (ptr - 4 - 8) \<noteq> 8192 then Inl AssertFail
                 else Inr ()))))"

definition allocator_main :: "addr option \<Rightarrow> addr option \<Rightarrow> mem \<Rightarrow> unit result option" where
  "allocator_main mmapped1 mmapped2 m =
     (let memoryNodeList = \<lparr>block_size = 16384, first = 0\<rparr>;
          numberOfBlocks = MMAP_BLOCK_SIZE div (16384 + 24)
      in run_then (add_memory_blocks_to_list mmapped1 memoryNodeList m) (\<lambda>s.
         run_then (pop_all numberOfBlocks s) (\<lambda>(memoryBlockPointers, s1).
         run_then (push_all 0 memoryBlockPointers s1) (\<lambda>s2.
         run_then (find_all memoryBlockPointers s2) (\<lambda>_.
           alloc_test mmapped2 (snd s2))))))"

section \<open>The assertions hold\<close>

lemma run_then_simps [simp]:
  "run_then (Some (Inr x)) f = f x" "run_then (Some (Inl e)) f = Some (Inl e)"
  by (simp_all add: run_then_def)

lemma assert_length_ok: "pool s xs held \<Longrightarrow> length xs = n \<Longrightarrow> assert_length n s = Some (Inr ())"
  using count_nodes_ok [of "snd s" "first (fst s)" xs 0]
  by (cases xs) (auto simp: assert_length_def pool_def get_list_length_def list_is_empty_def)

lemma pop_all_ok:
  "pool s xs held \<Longrightarrow>
   \<exists>s'. pop_all (length xs) s = Some (Inr (map (\<lambda>x. x + 12) xs, s')) \<and> pool s' [] (held \<union> set xs)"
proof (induction xs arbitrary: s held)
  case (Cons x xs)
  obtain s1 where s1: "pop_node s = Inr (x + 12, s1)" "pool s1 xs (insert x held)"
    using pool_pop [OF Cons.prems] by blast
  then show ?case
    using Cons.IH [OF s1(2)] assert_length_ok [OF Cons.prems] by auto
qed simp

lemma push_all_ok:
  "pool s xs held \<Longrightarrow> distinct ys \<Longrightarrow> set ys \<subseteq> held \<Longrightarrow>
   \<exists>s'. push_all (length xs) (map (\<lambda>x. x + 12) ys) s = Some (Inr s') \<and> pool s' (xs @ ys) (held - set ys)"
proof (induction ys arbitrary: s xs held)
  case (Cons y ys)
  obtain s1 where s1: "push_node (y + 12) s = Some s1" "pool s1 (xs @ [y]) (held - {y})"
    using pool_push [OF Cons.prems(1), of y] Cons.prems(3) by auto
  have "held - {y} - set ys = held - set (y # ys)" by auto
  then show ?case
    using Cons.IH [OF s1(2)] Cons.prems(2,3) s1(1) assert_length_ok [OF Cons.prems(1)] by auto
qed simp

lemma find_block_ok:
  "free_nodes m p xs \<Longrightarrow> \<forall>x\<in>set xs. node_usable_space m x = x + 12 \<Longrightarrow> y \<in> set xs \<Longrightarrow> find_block m (y + 12) p = Some (Inr ())"
proof (induction xs arbitrary: p)
  case (Cons x xs)
  show ?case
  proof (cases "y = x")
    case True
    then show ?thesis using Cons.prems by (simp add: find_block.simps)
  next
    case False
    then have "y \<in> set xs" using Cons.prems(3) by simp
    moreover from this have "node_next m x \<noteq> 0" using Cons.prems(1) by (cases xs) auto
    ultimately show ?thesis
      using Cons.IH [of "node_next m x"] Cons.prems False by (simp add: find_block.simps [of m _ x])
  qed
qed simp

lemma find_all_ok: "pool s xs held \<Longrightarrow> set ys \<subseteq> set xs \<Longrightarrow> find_all (map (\<lambda>x. x + 12) ys) s = Some (Inr ())"
  by (induction ys) (auto simp: find_block_ok pool_def node_ok_def split: prod.splits)

lemma alloc_test_ok:
  assumes "b \<noteq> 0" "unat b + MMAP_BLOCK_SIZE \<le> 2 ^ 64"
  shows "alloc_test (Some b) m = Some (Inr ())"
proof -
  let ?l = "\<lparr>block_size = 8192, first = 0\<rparr>"
  have c: "good_class (2 ^ 13)" unfolding good_class_def by (intro exI [of _ 13]) simp
  then have c': "good_class (block_size ?l)" by simp
  obtain m' where m': "add_memory_blocks_to_list (Some b) ?l m = Some (Inr (?l\<lparr>first := b\<rparr>, m'))"
      "pool (?l\<lparr>first := b\<rparr>, m') (fresh_nodes b 8192) {}"
    using fresh_pool [OF c' assms, of m] by auto
  have f: "fresh_nodes b 8192 = b # map (\<lambda>j. b + of_nat (j * 8204)) [1..<7]"
    by (simp add: fresh_nodes_def upt_rec)
  have "ld32 m' b = 8192" "node_usable_space m' b = b + 12"
    using m'(2) by (simp_all add: pool_def f node_ok_def)
  moreover have i: "get_block_index 65536 8192 = Inr 13" using class_index(1) [OF c, of 8192] by simp
  moreover have "map (\<lambda>i. \<lparr>block_size = 2 ^ i, first = 0\<rparr>) [0..<16] ! 13 = ?l" by simp
  ultimately show ?thesis
    using m'(1) assms(1)
    by (simp add: alloc_test_def initialise_allocator_def MAX_BLOCK_POW_def ta_alloc_def Let_def list_is_empty_def
        pop_memory_block_def)
qed

text \<open>
  The allocator's own test passes. Wherever the two mappings of the test are placed, it returns and no
  assertion of it fails: the list has three blocks, each pop and push changes its length by one, all
  popped blocks are found again after they were pushed, and the block allocated afterwards records its size.
\<close>

lemma allocator_self_test_passes:
  assumes "a \<noteq> 0" "unat a + MMAP_BLOCK_SIZE \<le> 2 ^ 64" "b \<noteq> 0" "unat b + MMAP_BLOCK_SIZE \<le> 2 ^ 64"
  shows "allocator_main (Some a) (Some b) m = Some (Inr ())"
proof -
  let ?l = "\<lparr>block_size = 16384, first = 0\<rparr>" and ?xs = "fresh_nodes a 16384"
  have c: "good_class (block_size ?l)" unfolding good_class_def by (intro exI [of _ 14]) simp
  obtain m' where m': "add_memory_blocks_to_list (Some a) ?l m = Some (Inr (?l\<lparr>first := a\<rparr>, m'))"
      "pool (?l\<lparr>first := a\<rparr>, m') ?xs {}"
    using fresh_pool [OF c assms(1,2), of m] by auto
  have n: "length ?xs = 3" "MMAP_BLOCK_SIZE div (16384 + 24) = 3" by (simp_all add: fresh_nodes_def MMAP_BLOCK_SIZE_def)
  have d: "distinct ?xs" using m'(2) by (simp add: pool_def)
  obtain s1 where s1: "pop_all 3 (?l\<lparr>first := a\<rparr>, m') = Some (Inr (map (\<lambda>x. x + 12) ?xs, s1))" "pool s1 [] (set ?xs)"
    using pop_all_ok [OF m'(2)] n(1) by auto
  obtain s2 where s2: "push_all 0 (map (\<lambda>x. x + 12) ?xs) s1 = Some (Inr s2)" "pool s2 ?xs {}"
    using push_all_ok [OF s1(2) d] by auto
  have "find_all (map (\<lambda>x. x + 12) ?xs) s2 = Some (Inr ())" using find_all_ok [OF s2(2)] by simp
  then show ?thesis
    using m'(1) s1(1) s2(1) alloc_test_ok [OF assms(3,4)] unfolding allocator_main_def Let_def n(2) by simp
qed

lemma allocator_self_test_passes_witness: "allocator_main (Some 65536) (Some 131072) (\<lambda>_. 0) = Some (Inr ())"
  by (rule allocator_self_test_passes) (simp_all add: MMAP_BLOCK_SIZE_def)

end
