(* ===== verification/Region_Restore.thy ===== *)
theory Region_Restore
  imports Back_End
begin

text \<open>
  The older ways of mapping the recorded regions in \<^verbatim>\<open>region_table/region_table.c\<close>, which the program has
  kept beside \<open>remap_backend\<close> and \<open>restore_memory\<close>: \<open>region_table_restore_consumer\<close> maps regions of two
  sizes privately, \<open>region_table_restore_application\<close> copies the files over the application's memory
  from a mapping at address 0. The first shows the same memory as the mapping the back end uses,
  but stores to some of it do not reach the files.
\<close>

section \<open>Operations\<close>

text \<open>
  A private mapping of a file: the bytes of the file, and stores that go to a copy. Past the end of the
  file there is nothing.
\<close>

definition mmap_private :: "addr \<Rightarrow> u64 \<Rightarrow> nat \<Rightarrow> proc_mem \<Rightarrow> proc_mem" where
  "mmap_private a sz f p =
     (let file_at = (\<lambda>x. case files p f of None \<Rightarrow> None
                         | Some bs \<Rightarrow> if unat (x - a) < length bs then Some (bs ! unat (x - a)) else None)
      in p\<lparr>vmap := (\<lambda>x. if in_range a (unat sz) x then map_option (\<lambda>_. Anon_byte) (file_at x) else vmap p x),
           anon := (\<lambda>x. if in_range a (unat sz) x then (case file_at x of None \<Rightarrow> anon p x | Some b \<Rightarrow> b) else anon p x)\<rparr>)"

definition munmap_range :: "addr \<Rightarrow> u64 \<Rightarrow> proc_mem \<Rightarrow> proc_mem" where
  "munmap_range a sz p = p\<lparr>vmap := (\<lambda>x. if in_range a (unat sz) x then None else vmap p x)\<rparr>"

definition mapped_privately :: "region_table_entry \<Rightarrow> bool" where
  "mapped_privately r \<longleftrightarrow> mmap_size r = 32768 \<or> mmap_size r = 16384"

fun restore_consumer_regions :: "kernel \<Rightarrow> region_table \<Rightarrow> nat list \<Rightarrow> proc_mem \<Rightarrow> proc_mem result" where
  "restore_consumer_regions k t [] p = Inr p"
| "restore_consumer_regions k t (i # is) p =
     (let r = regionTable t (of_nat i)
      in if files p i \<noteq> None \<and> mmap_ok k (address r) (mmap_size r)
         then restore_consumer_regions k t is
                (if mapped_privately r then mmap_private (address r) (mmap_size r) i p
                 else mmap_file (address r) (mmap_size r) i p)
         else Inl AssertFail)"

definition region_table_restore_consumer :: "kernel \<Rightarrow> region_table \<Rightarrow> proc_mem \<Rightarrow> proc_mem result" where
  "region_table_restore_consumer k t p = restore_consumer_regions k t [0..<unat (number_of_entries t)] p"

text \<open>
  The source of the copy is mapped with \<open>MAP_FIXED\<close> at the null address; where the kernel refuses that,
  \<open>memcpy\<close> reads from \<open>MAP_FAILED\<close>.
\<close>

fun restore_application_regions :: "kernel \<Rightarrow> region_table \<Rightarrow> nat list \<Rightarrow> proc_mem \<Rightarrow> proc_mem result" where
  "restore_application_regions k t [] p = Inr p"
| "restore_application_regions k t (i # is) p =
     (let r = regionTable t (of_nat i)
      in case files p i of
           None \<Rightarrow> Inl SegFault
         | Some bs \<Rightarrow>
             if \<not> mmap_ok k 0 (mmap_size r) \<or> length bs < unat (mmap_size r) then Inl SegFault
             else and_then (memcpy_to (address r) (take (unat (mmap_size r)) bs) (mmap_file 0 (mmap_size r) i p))
                    (\<lambda>q. restore_application_regions k t is (munmap_range 0 (mmap_size r) q)))"

definition region_table_restore_application :: "kernel \<Rightarrow> region_table \<Rightarrow> proc_mem \<Rightarrow> proc_mem result" where
  "region_table_restore_application k t p = restore_application_regions k t [0..<unat (number_of_entries t)] p"

section \<open>The same memory\<close>

definition same_view :: "proc_mem \<Rightarrow> proc_mem \<Rightarrow> bool" where
  "same_view p q \<longleftrightarrow> files p = files q \<and> load_byte p = load_byte q"

lemma files_mmap [simp]: "files (mmap_private a sz f p) = files p" "files (mmap_file a sz f p) = files p"
  by (simp_all add: mmap_private_def mmap_file_def Let_def)

lemma load_mmap_private:
  "load_byte (mmap_private a sz f p) x =
     (if in_range a (unat sz) x
      then case files p f of None \<Rightarrow> None
           | Some bs \<Rightarrow> if unat (x - a) < length bs then Some (bs ! unat (x - a)) else None
      else load_byte p x)"
  by (auto simp: load_byte_def mmap_private_def Let_def split: option.splits backing.splits)

lemma load_mmap_shared:
  "load_byte (mmap_file a sz f p) x =
     (if in_range a (unat sz) x
      then case files p f of None \<Rightarrow> None
           | Some bs \<Rightarrow> if unat (x - a) < length bs then Some (bs ! unat (x - a)) else None
      else load_byte p x)"
  by (auto simp: load_byte_def mmap_file_def split: option.splits backing.splits)

lemma same_view_mmap:
  assumes "same_view p q"
  shows "same_view (mmap_file a sz f p) (if b then mmap_private a sz f q else mmap_file a sz f q)"
  using assms by (auto simp: same_view_def load_mmap_private load_mmap_shared fun_eq_iff)

lemma restore_consumer_same_view:
  "same_view p q \<Longrightarrow>
   case remap_regions k t is p of
     Inl e \<Rightarrow> restore_consumer_regions k t is q = Inl e
   | Inr p' \<Rightarrow> \<exists>q'. restore_consumer_regions k t is q = Inr q' \<and> same_view p' q'"
proof (induction "is" arbitrary: p q)
  case (Cons i "is")
  let ?r = "regionTable t (of_nat i)"
  have "files p = files q" using Cons.prems by (simp add: same_view_def)
  then show ?case
    using Cons.IH [OF same_view_mmap [OF Cons.prems, of "address ?r" "mmap_size ?r" i "mapped_privately ?r"]]
    by (auto simp: Let_def split: sum.splits)
qed simp

text \<open>
  \<open>region_table_restore_consumer\<close> restores the memory the back end's mapping restores. On every region table
  and set of memory files it fails exactly where mapping all regions shared fails, in the same way,
  and otherwise every address reads the same byte and the files are untouched, although regions of
  16384 and 32768 bytes are mapped privately.
\<close>

lemma restore_consumer_equals_remap:
  "case remap_regions k t [0..<unat (number_of_entries t)] p of
     Inl e \<Rightarrow> region_table_restore_consumer k t p = Inl e
   | Inr p' \<Rightarrow> \<exists>q. region_table_restore_consumer k t p = Inr q \<and> files q = files p' \<and> load_byte q = load_byte p'"
  using restore_consumer_same_view [of p p k t "[0..<unat (number_of_entries t)]"]
  by (auto simp: region_table_restore_consumer_def same_view_def split: sum.splits)

section \<open>What the old mappings lose\<close>

text \<open>A store to a privately mapped region does not reach its file, so the next recovery misses it.\<close>

lemma private_store_not_in_file:
  assumes "in_range a (unat sz) x" "files p f = Some bs" "unat (x - a) < length bs"
  shows "\<exists>q. store_byte x b (mmap_private a sz f p) = Inr q \<and> load_byte q x = Some b \<and> files q f = Some bs"
  using assms by (simp add: store_byte_def load_byte_def mmap_private_def Let_def)

text \<open>Where the kernel does not map the null page, restoring the application faults at the first region.\<close>

lemma restore_application_faults:
  assumes "0 < unat (number_of_entries t)" "\<forall>sz. \<not> mmap_ok k 0 sz"
  shows "region_table_restore_application k t p = Inl SegFault"
proof -
  have "[0..<unat (number_of_entries t)] = 0 # [1..<unat (number_of_entries t)]" using assms(1) by (simp add: upt_rec)
  then show ?thesis
    using assms(2) by (simp add: region_table_restore_application_def Let_def split: option.split)
qed

end
