(* ===== verification/KV_Main.thy ===== *)
theory KV_Main
  imports KV_Store Startup
begin

text \<open>
  The program around the key-value store, \<open>main\<close>, \<open>initAndRunWorkerThread\<close> and \<open>print_kv_elements\<close> of
  \<^verbatim>\<open>examples/KVStoreStateMachine/kv_state_machine.c\<close>, on top of the start-up of the library: every worker
  thread initialises the library again, which ends the process.
\<close>

section \<open>The program\<close>

text \<open>What \<open>print_kv_elements\<close> prints: offset and value of the slots that do not start with a zero byte.\<close>

definition print_kv_elements :: "byte list \<Rightarrow> (nat \<times> byte list) list" where
  "print_kv_elements st =
     map (\<lambda>i. (i * VAL_SZ, slot st i)) (filter (\<lambda>i. st ! (i * VAL_SZ) \<noteq> 0) [0..<STORE_SZ])"

definition number_of_threads :: nat where "number_of_threads = 1"

text \<open>The arguments both \<open>main\<close> and the workers pass; the other fields are what the stack holds.\<close>

definition kv_args :: "mangosteen_args \<Rightarrow> mangosteen_args" where
  "kv_args garbage =
     garbage\<lparr>cb_isReadOnly := App_function 1, cb_allocateThreadLocalServiceRequestStruct := App_function 2,
             cb_loadServiceRequest := App_function 3, cb_processRequest := App_function 4,
             cb_getResponseInfo := App_function 5, cb_freeThreadLocalServiceRequestStruct := App_function 6,
             mode := MULTI_THREAD\<rparr>"

text \<open>A worker: the command it passes to the library, from the uninitialised bytes of its value.\<close>

definition initAndRunWorkerThread :: "mangosteen_args \<Rightarrow> byte list \<Rightarrow> globals \<Rightarrow> (kvCmd \<times> globals) result" where
  "initAndRunWorkerThread garbage value_bytes g =
     and_then (initialise_mangosteen (Some (kv_args garbage)) g) (\<lambda>(g', _).
       and_then (worker_put value_bytes) (\<lambda>cmd. Inr (cmd, g')))"

fun run_workers :: "nat \<Rightarrow> mangosteen_args \<Rightarrow> byte list \<Rightarrow> globals \<Rightarrow> (kvCmd list \<times> globals) result" where
  "run_workers 0 garbage value_bytes g = Inr ([], g)"
| "run_workers (Suc n) garbage value_bytes g =
     and_then (initAndRunWorkerThread garbage value_bytes g) (\<lambda>(cmd, g1).
       and_then (run_workers n garbage value_bytes g1) (\<lambda>(cmds, g2). Inr (cmd # cmds, g2)))"

text \<open>The commands issued and what is printed before the threads start.\<close>

definition kv_main :: "mangosteen_args \<Rightarrow> byte list \<Rightarrow> globals \<Rightarrow> (kvCmd list \<times> (nat \<times> byte list) list) result" where
  "kv_main garbage value_bytes g =
     and_then (initialise_mangosteen (Some (kv_args garbage)) g) (\<lambda>(g1, _).
       let printed = print_kv_elements initKVStoreStateMachine @ print_kv_elements initKVStoreStateMachine
       in and_then (run_workers number_of_threads garbage value_bytes g1) (\<lambda>(cmds, _). Inr (cmds, printed)))"

section \<open>What it does\<close>

text \<open>
  C39: The key-value example never stores a value. In a process that has not initialised the library, \<open>main\<close>
  initialises it, and the first worker thread ends the process when it initialises it again; no
  command reaches the store.
\<close>

theorem kv_example_exits:
  assumes "\<not> imangosteen_initialized g"
  shows "(\<exists>g'. initialise_mangosteen (Some (kv_args garbage)) g = Inr (g', Some False)
      \<and> initAndRunWorkerThread garbage value_bytes g' = Inl ExitFailure)
    \<and> kv_main garbage value_bytes g = Inl ExitFailure"
proof -
  have m: "mode (kv_args garbage) = MULTI_THREAD" "cb_isReadOnly (kv_args garbage) \<noteq> Null"
      "cb_processRequest (kv_args garbage) \<noteq> Null" by (simp_all add: kv_args_def)
  then obtain g' rpc where g': "initialise_mangosteen (Some (kv_args garbage)) g = Inr (g', Some rpc)"
      "rpc \<longleftrightarrow> mode (kv_args garbage) = RPC" "\<forall>args. initialise_mangosteen args g' = Inl ExitFailure"
    using second_initialise_exits [OF assms, of "kv_args garbage"] by blast
  have "\<not> rpc" using g'(2) m(1) by (simp add: MULTI_THREAD_def RPC_def)
  moreover have "initAndRunWorkerThread garbage value_bytes g' = Inl ExitFailure"
    using g'(3) by (simp add: initAndRunWorkerThread_def)
  ultimately show ?thesis
    using g'(1) by (simp add: kv_main_def number_of_threads_def Let_def)
qed

theorem kv_example_exits_witness:
  "kv_main example_args (replicate 128 0)
     \<lparr>imangosteen_initialized = False, callbacks_set = callback_table.truncate example_args\<rparr> = Inl ExitFailure"
  using kv_example_exits [of "\<lparr>imangosteen_initialized = False, callbacks_set = callback_table.truncate example_args\<rparr>"]
  by simp

text \<open>The elements are printed in the order of their slots, each slot that starts with a nonzero byte once.\<close>

lemma printed_elements:
  "(off, v) \<in> set (print_kv_elements st) \<longleftrightarrow> (\<exists>i<STORE_SZ. off = i * VAL_SZ \<and> v = slot st i \<and> st ! off \<noteq> 0)"
  "sorted (map fst (print_kv_elements st))" "distinct (map fst (print_kv_elements st))"
proof -
  show "(off, v) \<in> set (print_kv_elements st) \<longleftrightarrow> (\<exists>i<STORE_SZ. off = i * VAL_SZ \<and> v = slot st i \<and> st ! off \<noteq> 0)"
    by (auto simp: print_kv_elements_def)
  have fst: "map fst (print_kv_elements st) = map (\<lambda>i. i * VAL_SZ) (filter (\<lambda>i. st ! (i * VAL_SZ) \<noteq> 0) [0..<STORE_SZ])"
    by (simp add: print_kv_elements_def o_def)
  have "sorted (filter (\<lambda>i. st ! (i * VAL_SZ) \<noteq> 0) [0..<STORE_SZ])" by (simp add: sorted_wrt_filter)
  then show "sorted (map fst (print_kv_elements st))"
    unfolding fst by (simp add: sorted_map sorted_wrt_mono_rel [of _ "(\<le>)"])
  show "distinct (map fst (print_kv_elements st))"
    unfolding fst by (simp add: distinct_map inj_on_def VAL_SZ_def)
qed

text \<open>An empty store prints nothing.\<close>

lemma empty_store_prints_nothing: "print_kv_elements initKVStoreStateMachine = []"
  unfolding print_kv_elements_def initKVStoreStateMachine_def
  by (simp add: filter_False size_defs)

end
