(* ===== verification/RPC_Client.thy ===== *)
theory RPC_Client
  imports RPC_State_Machine Client_Connection
begin

text \<open>
  The client of the RPC example, \<^verbatim>\<open>examples/mangosteen_rpc/rpc_state_machine/client_rpc.cpp\<close>, and the way of its
  request through the server: the connection assembles it, the application reads its operation code, and the
  client prints the byte the application answers.
\<close>

section \<open>The client\<close>

definition client_request :: "byte list" where
  "client_request = map of_char (''0First request'' @ [CHR 0x0D, CHR 0x0A])"

text \<open>
  \<open>main\<close> of the client, with what \<open>socket\<close>, \<open>inet_pton\<close>, \<open>connect\<close> and \<open>read\<close> give: the bytes it sends and the
  response it prints. The buffer has 1024 bytes and is printed up to the first zero.
\<close>

definition client_rpc :: "bool \<Rightarrow> bool \<Rightarrow> bool \<Rightarrow> byte list \<Rightarrow> (byte list \<times> string) result" where
  "client_rpc socket_ok pton_ok connect_ok reply =
     (if \<not> socket_ok \<or> \<not> pton_ok \<or> \<not> connect_ok then Inl ExitFailure
      else let valread = take 1024 reply;
               buffer = valread @ replicate (1024 - length valread) 0
           in if 0 \<in> set buffer then Inr (client_request, map (\<lambda>b. char_of (unat b)) (takeWhile (\<lambda>b. b \<noteq> 0) buffer))
              else Inl OutOfBounds)"

section \<open>The server of the example\<close>

text \<open>
  The callbacks of the example as the connections call them, on the machine \<open>m\<close> that the combiner executes the request
  on. \<open>c0\<close> is the structure as \<open>malloc\<close> returns it, and \<open>stack\<close> what lies behind the operation code on the
  stack. \<open>Inl\<close> stands for a process that has exited, which answers nothing.
\<close>

definition rpc_service :: "string \<Rightarrow> rpc_command \<Rightarrow> rpc_machine \<Rightarrow> rpc_command result service" where
  "rpc_service stack c0 m =
     \<lparr>allocateThreadLocalServiceRequestStruct = Inr c0,
      loadServiceRequest = (\<lambda>x buf. and_then x (\<lambda>c. load_service_request stack c (map (\<lambda>b. char_of (unat b)) buf))),
      executeRequest =
        (\<lambda>x. and_then x (\<lambda>c. and_then (is_read_only c) (\<lambda>_. and_then (rpc_process_command c m) (\<lambda>(c', _). Inr c')))),
      getResponseInfo =
        (\<lambda>x. case x of Inl e \<Rightarrow> ([], 1) | Inr c \<Rightarrow> (case get_responce c of (c', bytes, n) \<Rightarrow> (map of_char bytes, n)))\<rparr>"

text \<open>Successive events that bring data; each ends when nothing more is queued.\<close>

fun receive_events :: "'c service \<Rightarrow> byte list list list \<Rightarrow> 'c mangosteen_client \<Rightarrow> 'c mangosteen_client result" where
  "receive_events sv [] cl = Inr cl"
| "receive_events sv (chunks # evs) cl =
     and_then (do_event sv (map Queued chunks @ [Read_again]) [] cl) (\<lambda>(cl', _). receive_events sv evs cl')"

section \<open>A request and its answer\<close>

lemma client_request_bytes:
  "client_request = [48, 70, 105, 114, 115, 116, 32, 114, 101, 113, 117, 101, 115, 116] @ [13, 10]"
  unfolding client_request_def by simp

lemma client_prints_byte:
  assumes "b \<noteq> 0"
  shows "client_rpc True True True [b] = Inr (client_request, [char_of (unat b)])"
  using assms by (simp add: client_rpc_def Let_def)

lemma rpc_response_positive: "\<forall>x. unat (word_of_int (snd (getResponseInfo (rpc_service stack c0 m) x)) :: u64) > 0"
  by (auto simp: rpc_service_def get_responce_def Let_def split: sum.splits)

text \<open>A part of the request is not taken for a request.\<close>

lemma partial_request:
  assumes "p @ q = client_request" "q \<noteq> []"
  shows "\<not> (\<exists>body. body \<noteq> [] \<and> p = body @ [13, 10])"
proof -
  have "p @ butlast q = butlast client_request" using assms by (metis butlast_append)
  then have "set p \<subseteq> set (butlast client_request)" by (metis Un_upper1 set_append)
  moreover have "10 \<notin> set (butlast client_request)" by (simp add: client_request_bytes)
  ultimately show ?thesis by auto
qed

lemma received_length: "buffer_ok cl \<Longrightarrow> length (received cl) = bytes_read cl"
  by (simp add: buffer_ok_def received_def)

lemma partial_events:
  assumes "buffer_ok cl" "status cl = Reading" "received cl @ concat (concat evs) @ q = client_request" "q \<noteq> []"
    and "\<forall>chunks\<in>set evs. [] \<notin> set chunks"
  shows "\<exists>cl'. receive_events (rpc_service stack c0 m) evs cl = Inr cl' \<and> buffer_ok cl' \<and> status cl' = Reading
    \<and> received cl' = received cl @ concat (concat evs) \<and> applicationSpecificStruct cl' = applicationSpecificStruct cl"
  using assms
proof (induction evs arbitrary: cl)
  case Nil
  then show ?case by simp
next
  case (Cons chunks evs)
  let ?sv = "rpc_service stack c0 m"
  have split: "(received cl @ concat chunks) @ (concat (concat evs) @ q) = client_request" using Cons.prems(3) by simp
  then have "length (received cl @ concat chunks) \<le> length client_request" by (metis length_append le_add1)
  then have len: "bytes_read cl + length (concat chunks) < MAX_REQUEST_SIZE"
    using received_length [OF Cons.prems(1)] by (simp add: client_request_bytes MAX_REQUEST_SIZE_def)
  have part: "\<not> (\<exists>body. body \<noteq> [] \<and> received cl @ concat chunks = body @ [13, 10])"
    using partial_request [OF split] Cons.prems(4) by simp
  have ne: "[] \<notin> set chunks" using Cons.prems(5) by simp
  obtain c1 where c1: "do_event ?sv (map Queued chunks @ [Read_again]) [] cl = Inr (c1, [])"
      "received c1 = received cl @ concat chunks" "status c1 = Reading" "buffer_ok c1"
      "applicationSpecificStruct c1 = applicationSpecificStruct cl"
    using assemble_request [OF Cons.prems(1,2) ne len rpc_response_positive [of stack c0 m], of "[]" "[]"]
    unfolding if_not_P [OF part] by blast
  have "received c1 @ concat (concat evs) @ q = client_request" using split c1(2) by simp
  from Cons.IH [OF c1(4,3) this Cons.prems(4)] Cons.prems(5) c1 show ?case by auto
qed

lemma request_executes:
  assumes "rpc_op_type c = SM_OP_ADD" "\<not> is_digit g" "take 16 buf = client_request"
  shows "executeRequest (rpc_service (g # stack) c0 (after_steps k))
      (loadServiceRequest (rpc_service (g # stack) c0 (after_steps k)) (Inr c) buf) = Inr (c\<lparr>rpc_response := k mod 2 ^ 64 < 15\<rparr>)"
proof -
  obtain bs where "buf = 48 # bs" using assms(3) by (cases buf) (auto simp: client_request_bytes)
  moreover have "char_of (unat (48 :: byte)) = CHR ''0''" by (simp add: char_of_eq_iff)
  ultimately have "load_service_request (g # stack) c (map (\<lambda>b. char_of (unat b)) buf) = Inr c"
    using zero_request [OF _ assms(2), of c stack] assms(1) by (simp add: SM_OP_ADD_def)
  then show ?thesis
    using assms(1) by (simp add: rpc_service_def is_read_only_def rpc_process_command_def do_step_after)
qed

text \<open>A structure that \<open>malloc\<close> returns with another value in \<open>op_type\<close> ends the server at its first request.\<close>

lemma stale_operation_exits:
  assumes "rpc_op_type c \<noteq> SM_OP_ADD" "\<not> is_digit g" "buf \<noteq> []" "hd buf = 48"
  shows "executeRequest (rpc_service (g # stack) c0 m) (loadServiceRequest (rpc_service (g # stack) c0 m) (Inr c) buf) = Inl ExitFailure"
proof -
  obtain bs where "buf = 48 # bs" using assms(3,4) by (cases buf) auto
  moreover have "char_of (unat (48 :: byte)) = CHR ''0''" by (simp add: char_of_eq_iff)
  moreover have "is_digit CHR ''0''" by (simp add: is_digit_def digit_value_def)
  ultimately show ?thesis
    using assms(1,2) by (simp add: rpc_service_def load_service_request_def strtoll_digit is_read_only_def)
qed

text \<open>
  C21: The client of the RPC example gets the answer of the application. Its request may be split in any way over reads
  and over events: the connection collects the parts, and the event that brings the last one executes the request,
  on the machine after \<open>k\<close> earlier requests. The request copies the next slice and the machine has executed \<open>k + 1\<close>; when
  the connection's sends do not fail and take the byte of the answer, the connection reads again, and the client prints
  the byte as \<open>0\<close> if the request copied a slice of the text and as \<open>1\<close> if all 15 were there (up to the wrap of the counter).
  The conditions on the uninitialised data the example reads: the structure of the connection has
  \<open>op_type\<close> 0, whether it is new from \<open>malloc\<close> or left by an earlier request (with another value the server exits), and the
  byte behind the operation code on the stack is no digit.
\<close>

theorem rpc_client_gets_answer:
  assumes "buffer_ok cl" "status cl = Reading" "bytes_read cl = 0"
    and "concat (concat (evs @ [chunks])) = client_request" "\<forall>x\<in>set (evs @ [chunks]). [] \<notin> set x" "chunks \<noteq> []"
    and "(case applicationSpecificStruct cl of None \<Rightarrow> Inr c0 | Some x \<Rightarrow> x) = Inr c"
    and "rpc_op_type c = SM_OP_ADD" "\<not> is_digit g" "serialized_response c \<noteq> []"
    and "\<forall>rs\<in>set rss. Send_again \<in> set rs \<and> no_failure rs" "0 < sum_list (map takes rss)"
    and "sv = rpc_service (g # stack) c0 (after_steps k)"
  shows "\<exists>cl1 cl2 c' out. receive_events sv (evs @ [chunks]) cl = Inr cl1
    \<and> rpc_process_command c (after_steps k) = Inr (c', after_steps (Suc k)) \<and> applicationSpecificStruct cl1 = Some (Inr c')
    \<and> send_events sv rss cl1 = Inr (cl2, out) \<and> status cl2 = Reading
    \<and> client_rpc True True True out = Inr (client_request, if k mod 2 ^ 64 < 15 then ''0'' else ''1'')"
proof -
  let ?r = "k mod 2 ^ 64 < 15" and ?q = "concat chunks"
  let ?c = "c\<lparr>rpc_response := ?r\<rparr>"
  have r0: "received cl = []" using assms(3) by (simp add: received_def)
  have q: "?q \<noteq> []" "[] \<notin> set chunks" "\<forall>x\<in>set evs. [] \<notin> set x" using assms(5,6) by (cases chunks; auto)+
  have "received cl @ concat (concat evs) @ ?q = client_request" using r0 assms(4) by simp
  from partial_events [OF assms(1,2) this q(1,3), of "g # stack" c0 "after_steps k"]
  obtain c1 where c1: "receive_events sv evs cl = Inr c1" "buffer_ok c1" "status c1 = Reading"
      "received c1 @ ?q = client_request" "applicationSpecificStruct c1 = applicationSpecificStruct cl"
    using r0 assms(4,13) by auto
  have n: "bytes_read c1 + length ?q = 16"
    using arg_cong [OF c1(4), of length] received_length [OF c1(2)] by (simp add: client_request_bytes)
  then have len: "bytes_read c1 + length ?q < MAX_REQUEST_SIZE" by (simp add: MAX_REQUEST_SIZE_def)
  have whole: "\<exists>body. body \<noteq> [] \<and> received c1 @ ?q = body @ [13, 10]" unfolding c1(4) client_request_bytes by blast
  have pos: "\<forall>x. unat (word_of_int (snd (getResponseInfo sv x)) :: u64) > 0"
    unfolding assms(13) by (rule rpc_response_positive)
  obtain c2 buf x where c2: "do_event sv (map Queued chunks @ [Read_again]) [] c1 = Inr (c2, [])"
      "take 16 buf = client_request" "x = executeRequest sv (loadServiceRequest sv
         (case applicationSpecificStruct c1 of None \<Rightarrow> allocateThreadLocalServiceRequestStruct sv | Some c \<Rightarrow> c) buf)"
      "applicationSpecificStruct c2 = Some x" "responce_buffer c2 = Some (fst (getResponseInfo sv x))"
      "left c2 = response_len c2" "status c2 = Writing"
      "response_len c2 = unat (word_of_int (snd (getResponseInfo sv x)) :: u64)"
    using assemble_request [OF c1(2,3) q(2) len pos, of "[]" "[]"] unfolding if_P [OF whole] unfolding n c1(4) by blast
  have "(case applicationSpecificStruct c1 of None \<Rightarrow> allocateThreadLocalServiceRequestStruct sv | Some c \<Rightarrow> c) = Inr c"
    using assms(7) c1(5) unfolding assms(13) by (auto simp: rpc_service_def split: option.splits)
  then have x: "x = Inr ?c" using c2(2,3) request_executes [OF assms(8,9)] assms(13) by simp
  obtain s0 ss where ss: "serialized_response c = s0 # ss" using assms(10) by (cases "serialized_response c") auto
  let ?b = "of_char (if ?r then CHR ''0'' else CHR ''1'') :: byte"
  have info: "getResponseInfo sv x = (?b # map of_char ss, 1)"
    unfolding x assms(13) by (simp add: rpc_service_def get_responce_def Let_def ss)
  have w: "responce_buffer c2 = Some (?b # map of_char ss)" "response_len c2 \<le> length (?b # map of_char ss)"
      "left c2 \<le> response_len c2" "0 < left c2" "unsent c2 = [?b]" "left c2 = 1"
    using c2(5,6,8) info by (simp_all add: unsent_def)
  have "\<forall>rs\<in>set rss. Send_again \<in> set rs \<or> Send_error \<in> set rs" using assms(11) by blast
  from send_events_in_order [OF c2(7) w(1-4) this, of sv] obtain cl2 out where o: "send_events sv rss c2 = Inr (cl2, out)"
      "status cl2 = Reading \<longleftrightarrow> out = unsent c2"
      "(\<forall>rs\<in>set rss. no_failure rs) \<longrightarrow> left c2 \<le> sum_list (map takes rss) \<longrightarrow> status cl2 = Reading"
    by blast
  have rd: "status cl2 = Reading" "out = [?b]" using o(2,3) assms(11,12) w(5,6) by auto
  have "receive_events sv (evs @ [chunks]) cl = Inr c2"
    using c1(1) c2(1) by (induction evs arbitrary: cl) (auto simp: and_then_Inr split_beta)
  moreover have "rpc_process_command c (after_steps k) = Inr (?c, after_steps (Suc k))"
    using assms(8) by (simp add: rpc_process_command_def do_step_after)
  moreover have "client_rpc True True True out = Inr (client_request, if ?r then ''0'' else ''1'')"
    unfolding rd(2) by (auto simp: client_prints_byte char_of_eq_iff)
  ultimately show ?thesis using c2(4) x o(1) rd(1) by blast
qed

definition example_connection :: "rpc_command result mangosteen_client" where
  "example_connection = accepted_client (replicate 2048 0)"

theorem rpc_client_gets_answer_witness:
  "\<exists>cl1 cl2 out. receive_events (rpc_service [CHR 0x00] \<lparr>rpc_op_type = 0, rpc_response = False, serialized_response = [CHR 0x00]\<rparr>
        (after_steps 3)) [[[48], take 4 (drop 1 client_request)], [drop 5 client_request]] example_connection = Inr cl1
    \<and> send_events (rpc_service [CHR 0x00] \<lparr>rpc_op_type = 0, rpc_response = False, serialized_response = [CHR 0x00]\<rparr>
        (after_steps 3)) [[Send_again], [Sent 1, Send_again]] cl1 = Inr (cl2, out)
    \<and> client_rpc True True True out = Inr (client_request, ''0'')"
proof -
  let ?c0 = "\<lparr>rpc_op_type = 0, rpc_response = False, serialized_response = [CHR 0x00]\<rparr>"
  let ?evs = "[[[48], take 4 (drop 1 client_request)]]" and ?chunks = "[drop 5 client_request]"
  let ?rss = "[[Send_again], [Sent 1, Send_again]]"
  have c: "buffer_ok example_connection" "status example_connection = Reading" "bytes_read example_connection = 0"
      "(case applicationSpecificStruct example_connection of None \<Rightarrow> Inr ?c0 | Some x \<Rightarrow> x) = Inr ?c0"
    by (simp_all add: example_connection_def accepted_client_def mangosteenResetMemoryAllocator_def buffer_ok_def MAX_REQUEST_SIZE_def)
  have r: "concat (concat (?evs @ [?chunks])) = client_request" "\<forall>x\<in>set (?evs @ [?chunks]). [] \<notin> set x" "?chunks \<noteq> []"
    by (simp_all add: client_request_bytes)
  have g: "rpc_op_type ?c0 = SM_OP_ADD" "\<not> is_digit CHR 0x00" "serialized_response ?c0 \<noteq> []"
      "\<forall>rs\<in>set ?rss. Send_again \<in> set rs \<and> no_failure rs" "0 < sum_list (map takes ?rss)"
    by (simp_all add: SM_OP_ADD_def is_digit_def digit_value_def no_failure_def)
  from rpc_client_gets_answer [OF c(1-3) r c(4) g refl, of "[]" 3] show ?thesis by auto
qed

end
