(* ===== verification/Store_Transaction.thy ===== *)
theory Store_Transaction
  imports Persistence
begin

text \<open>
  A transaction of an instrumented program: between \<open>instrument_start\<close> and \<open>instrument_stop\<close> it executes
  stores, each preceded by the code that \<open>instrument_mem\<close> emits, and calls \<open>memcpy\<close>, which \<open>wrap_pre\<close>
  wraps. The theory joins three components that were verified alone: the emitted code on machine memory
  (\<open>Redo_Collector\<close>), the callbacks on the thread's record (\<open>Instrumentation\<close>), and the back end
  (\<open>Back_End\<close>). Whatever the stores and copies are, the back end ends with their effect.
\<close>

section \<open>The thread's record in memory\<close>

text \<open>Where DynamoRIO has put \<open>per_thread_t\<close> and the two blocks it points to.\<close>

record tool_layout =
  tl_thread :: addr
  tl_entries :: addr
  tl_count :: addr

text \<open>The bytes \<open>[a, a + n)\<close> and \<open>[b, b + k)\<close> do not meet.\<close>

definition apart :: "addr \<Rightarrow> nat \<Rightarrow> addr \<Rightarrow> nat \<Rightarrow> bool" where
  "apart a n b k \<longleftrightarrow> n \<le> unat (b - a) \<and> k \<le> unat (a - b)"

definition layout_ok :: "tool_layout \<Rightarrow> bool" where
  "layout_ok L \<longleftrightarrow> apart (tl_thread L) 5920 (tl_entries L) 8192 \<and> apart (tl_thread L) 5920 (tl_count L) 8
     \<and> apart (tl_entries L) 8192 (tl_count L) 8"

text \<open>
  The memory the emitted code sees: that of the application, with the fields of the thread's record the
  code uses. The code reads and writes the two \<open>int\<close> fields with eight bytes; their upper halves are zero.
\<close>

definition tool_memory :: "tool_layout \<Rightarrow> front \<Rightarrow> mem" where
  "tool_memory L s =
     st64 (st64 (st64 (st64
       (write_bytes (fe_mem s) (tl_entries L) (concat (map le_bytes (hash_set_entries (data s)))))
       (tl_count L) (ucast (number_of_hash_set_entries (data s))))
       (tl_thread L + offset_number_of_hash_set_entries) (tl_count L))
       (tl_thread L + offset_hash_set_entries) (tl_entries L))
       (tl_thread L + offset_combiner) (ucast (combiner (data s)))"

section \<open>Operations of the application\<close>

datatype app_op =
    Store addr "byte list"
  | Memcpy addr addr u64

text \<open>Their effect in a program that is not instrumented.\<close>

fun plain_op :: "app_op \<Rightarrow> mem \<Rightarrow> mem" where
  "plain_op (Store a bs) m = write_bytes m a bs"
| "plain_op (Memcpy d src n) m = write_bytes m d (read_bytes m src (unat n))"

definition plain_ops :: "app_op list \<Rightarrow> mem \<Rightarrow> mem" where
  "plain_ops ops m = fold plain_op ops m"

text \<open>
  A store with the code in front of it; \<open>fuel\<close> bounds the instructions of that code, \<open>r\<close> and \<open>sv\<close> are the
  registers it finds.
\<close>

definition instrumented_store ::
    "nat \<Rightarrow> tool_layout \<Rightarrow> (reg \<Rightarrow> u64) \<Rightarrow> u64 \<Rightarrow> addr \<Rightarrow> byte list \<Rightarrow> front \<Rightarrow> front result" where
  "instrumented_store fuel L r sv a bs s =
     (let code = instrument_mem \<lparr>is_memory_reference = True, is_base_disp = False, base_is_xsp = False,
                                 opnd_size = of_nat (length bs)\<rparr>
      in and_then (run code a sv fuel
                     \<lparr>pc = 0, regs = r(RSet := tl_thread L), flags = None, memory = tool_memory L s,
                      overflowBuffer = fe_overflow s\<rparr>) (\<lambda>t.
           if pc t < length code then Inl Spinning
           else Inr (s\<lparr>data := (data s)\<lparr>hash_set_entries := table_at (memory t) (tl_entries L),
                                         number_of_hash_set_entries := ucast (ld64 (memory t) (tl_count L))\<rparr>,
                       fe_overflow := overflowBuffer t, fe_mem := write_bytes (fe_mem s) a bs\<rparr>)))"

text \<open>A call of \<open>memcpy\<close>: the wrapper, and the call itself with the size the wrapper leaves it.\<close>

definition wrapped_memcpy :: "addr \<Rightarrow> addr \<Rightarrow> u64 \<Rightarrow> front \<Rightarrow> front result" where
  "wrapped_memcpy d src n s =
     and_then (wrap_pre d src n s) (\<lambda>(rest, s').
       Inr (s'\<lparr>fe_mem := write_bytes (fe_mem s') d (read_bytes (fe_mem s') src (unat rest))\<rparr>))"

fun app_step :: "nat \<Rightarrow> tool_layout \<Rightarrow> (reg \<Rightarrow> u64) \<Rightarrow> u64 \<Rightarrow> app_op \<Rightarrow> front \<Rightarrow> front result" where
  "app_step fuel L r sv (Store a bs) s = instrumented_store fuel L r sv a bs s"
| "app_step fuel L r sv (Memcpy d src n) s = wrapped_memcpy d src n s"

fun app_steps :: "nat \<Rightarrow> tool_layout \<Rightarrow> (reg \<Rightarrow> u64) \<Rightarrow> u64 \<Rightarrow> app_op list \<Rightarrow> front \<Rightarrow> front result" where
  "app_steps fuel L r sv [] s = Inr s"
| "app_steps fuel L r sv (x # xs) s = and_then (app_step fuel L r sv x s) (app_steps fuel L r sv xs)"

definition transaction ::
    "nat \<Rightarrow> tool_layout \<Rightarrow> (reg \<Rightarrow> u64) \<Rightarrow> u64 \<Rightarrow> app_op list \<Rightarrow> front \<Rightarrow> u64 list \<Rightarrow> (front \<times> u64 list) result" where
  "transaction fuel L r sv ops s loads =
     and_then (app_steps fuel L r sv ops (instrument_start s)) (\<lambda>s1. instrument_stop s1 loads)"

section \<open>Reading the record back\<close>

lemma unat_neg: "(w :: u64) \<noteq> 0 \<Longrightarrow> unat (- w) = 2 ^ 64 - unat w"
  using unat_sub_if_size [of 0 w] unat_eq_zero [of w] by (auto simp: word_size)

lemma apart_sub:
  assumes "apart a n b k" "i + n' \<le> n" "j + k' \<le> k" "0 < n'" "0 < k'"
  shows "apart (a + of_nat i) n' (b + of_nat j) k'"
proof -
  define w where "w = b - a"
  have w: "n \<le> unat w" "k \<le> unat (- w)" using assms(1) by (simp_all add: apart_def w_def)
  have "w \<noteq> 0" using w(1) assms(2,4) by auto
  then have u: "unat w + unat (- w) = 2 ^ 64" "k \<le> 2 ^ 64 - unat w" "n < 2 ^ 64" "k < 2 ^ 64"
    using w assms(2-5) unat_lt64 [of w] unat_lt64 [of "- w"] unat_neg [of w] by auto
  have ij: "unat (of_nat i :: u64) = i" "unat (of_nat j :: u64) = j"
    using assms(2-5) u(3,4) by (simp_all add: unat_of_nat)
  have "b + of_nat j - (a + of_nat i) = w + of_nat j - of_nat i" by (simp add: w_def)
  moreover have 1: "unat (w + of_nat j) = unat w + j"
    using u(2) assms(3,5) ij(2) by (simp add: unat_word_ariths)
  have "unat (w + of_nat j - of_nat i) = unat w + j - i"
    using w(1) assms(2) ij(1) 1 by (simp add: unat_sub word_le_nat_alt)
  ultimately have d: "unat (b + of_nat j - (a + of_nat i)) = unat w + j - i" by (simp only:)
  moreover have "unat (b + of_nat j - (a + of_nat i)) \<noteq> 0" unfolding d using w(1) assms(2,4) by simp
  then have nz: "b + of_nat j - (a + of_nat i) \<noteq> 0" by (metis unat_0)
  have "unat (a + of_nat i - (b + of_nat j)) = 2 ^ 64 - (unat w + j - i)"
    using unat_neg [OF nz] unfolding minus_diff_eq d .
  ultimately show ?thesis using w(1) u(2) assms(2,3,5) by (auto simp: apart_def)
qed

lemma read_bytes_write_apart:
  assumes "apart a (length bs) b n"
  shows "read_bytes (write_bytes m a bs) b n = read_bytes m b n"
proof (rule nth_equalityI)
  fix i assume "i < length (read_bytes (write_bytes m a bs) b n)"
  then have i: "i < n" by simp
  have "length bs \<le> unat (b + of_nat i - a)"
  proof (cases bs)
    case (Cons y ys)
    then show ?thesis using apart_sub [OF assms, of 0 "length bs" i 1] i by (simp add: apart_def)
  qed simp
  then show "read_bytes (write_bytes m a bs) b n ! i = read_bytes m b n ! i"
    using i by (simp add: nth_read_bytes write_bytes_def)
qed simp

lemma ld64_write_apart: "apart a (length bs) b 8 \<Longrightarrow> ld64 (write_bytes m a bs) b = ld64 m b"
  by (simp add: ld64_def read_bytes_write_apart)

lemma concat_uniform_nth:
  "\<forall>x\<in>set xs. length x = n \<Longrightarrow> i < length xs \<Longrightarrow> j < n \<Longrightarrow> concat xs ! (n * i + j) = xs ! i ! j"
proof (induction xs arbitrary: i)
  case (Cons x xs)
  then show ?case by (cases i) (auto simp: nth_append)
qed simp

lemma ld64_word_array:
  assumes "i < length ws" "8 * length ws < 2 ^ 64"
  shows "ld64 (write_bytes m a (concat (map le_bytes ws))) (slot_addr a i) = ws ! i"
proof -
  have len: "length (concat (map le_bytes ws)) = 8 * length ws" by (induction ws) simp_all
  have "read_bytes (write_bytes m a (concat (map le_bytes ws))) (slot_addr a i) 8 = le_bytes (ws ! i)"
  proof (rule nth_equalityI)
    fix j assume "j < length (read_bytes (write_bytes m a (concat (map le_bytes ws))) (slot_addr a i) 8)"
    then have j: "j < 8" by simp
    have "slot_addr a i + of_nat j - a = of_nat (8 * i + j)" by (simp add: slot_addr_def)
    moreover have "unat (of_nat (8 * i + j) :: u64) = 8 * i + j"
      using assms j unfolding unat_of_nat by (intro mod_less) simp
    ultimately have "unat (slot_addr a i + of_nat j - a) = 8 * i + j" by (simp only:)
    then show "read_bytes (write_bytes m a (concat (map le_bytes ws))) (slot_addr a i) 8 ! j = le_bytes (ws ! i) ! j"
      using assms(1) j len concat_uniform_nth [of "map le_bytes ws" 8 i j]
      by (simp add: nth_read_bytes write_bytes_def)
  qed simp
  then show ?thesis by (simp add: ld64_def)
qed

lemma table_at_word_array:
  "length ws = 1024 \<Longrightarrow> table_at (write_bytes m a (concat (map le_bytes ws))) a = ws"
  by (rule nth_equalityI) (simp_all add: table_at_nth ld64_word_array)

lemma apart_commute: "apart a n b k \<longleftrightarrow> apart b k a n"
  by (auto simp: apart_def)

lemma apart_counter:
  assumes "apart base 8192 c 8"
  shows "counter_apart base c"
  unfolding counter_apart_def
proof (intro allI impI)
  fix i :: nat assume "i < 1024"
  then have "apart (base + of_nat (8 * i)) 8 (c + of_nat 0) 8" by (intro apart_sub [OF assms]) simp_all
  then show "8 \<le> unat (c - slot_addr base i) \<and> 8 \<le> unat (slot_addr base i - c)" by (simp add: apart_def slot_addr_def)
qed

lemma apart_field:
  assumes "apart a 5920 b k" "i + 8 \<le> 5920" "0 < k"
  shows "apart b k (a + of_nat i) 8"
  using apart_sub [OF assms(1,2), of 0 k] assms(3) by (simp add: apart_commute)

lemmas offset_defs = offset_combiner_def offset_hash_set_entries_def offset_number_of_hash_set_entries_def

text \<open>What the emitted code reads of the record.\<close>

lemma tool_memory_fields:
  assumes "layout_ok L" "length (hash_set_entries (data s)) = 1024"
  shows "ld64 (tool_memory L s) (tl_thread L + offset_hash_set_entries) = tl_entries L"
    and "ld64 (tool_memory L s) (tl_thread L + offset_number_of_hash_set_entries) = tl_count L"
    and "ld64 (tool_memory L s) (tl_thread L + offset_combiner) = ucast (combiner (data s))"
    and "ld64 (tool_memory L s) (tl_count L) = ucast (number_of_hash_set_entries (data s))"
    and "table_at (tool_memory L s) (tl_entries L) = hash_set_entries (data s)"
    and "counter_apart (tl_entries L) (tl_count L)"
proof -
  have a: "apart (tl_thread L) 5920 (tl_entries L) 8192" "apart (tl_thread L) 5920 (tl_count L) 8"
      "apart (tl_entries L) 8192 (tl_count L) 8"
    using assms(1) by (simp_all add: layout_ok_def)
  note f = apart_field [OF a(1), of 5912] apart_field [OF a(1), of 8] apart_field [OF a(1), of 0]
    apart_field [OF a(2), of 5912] apart_field [OF a(2), of 8] apart_field [OF a(2), of 0]
  show "counter_apart (tl_entries L) (tl_count L)" using apart_counter [OF a(3)] .
  show "ld64 (tool_memory L s) (tl_thread L + offset_hash_set_entries) = tl_entries L"
    "ld64 (tool_memory L s) (tl_thread L + offset_number_of_hash_set_entries) = tl_count L"
    "ld64 (tool_memory L s) (tl_thread L + offset_combiner) = ucast (combiner (data s))"
    by (simp_all add: tool_memory_def offset_defs mem_simps)
  show "ld64 (tool_memory L s) (tl_count L) = ucast (number_of_hash_set_entries (data s))"
    using f(4-6) by (simp add: tool_memory_def offset_defs mem_simps apart_def)
  show "table_at (tool_memory L s) (tl_entries L) = hash_set_entries (data s)"
    using f(1-3) apart_counter [OF a(3)] assms(2)
    by (simp add: tool_memory_def offset_defs table_at_counter apart_counter table_at_word_array)
qed

section \<open>One operation\<close>

lemma instrumented_store_ok:
  assumes "layout_ok L" "combiner (data s) = 1" "lp_inv rc_hash (hash_set_entries (data s))"
    and "length (hash_set_entries (data s)) = 1024"
    and "32 \<le> unat a" "length bs < 2 ^ 31" "unat a + length bs < 2 ^ 63 - 32"
    and "card (lp_elems (hash_set_entries (data s)) \<union> covered_blocks a (length bs)) \<le> 1024"
  shows "\<exists>F hs n. lp_inv rc_hash hs \<and> length hs = 1024
    \<and> lp_elems hs = lp_elems (hash_set_entries (data s)) \<union> covered_blocks a (length bs)
    \<and> (\<forall>fuel\<ge>F. instrumented_store fuel L r sv a bs s =
         Inr (s\<lparr>data := (data s)\<lparr>hash_set_entries := hs, number_of_hash_set_entries := n\<rparr>,
                fe_mem := write_bytes (fe_mem s) a bs\<rparr>))"
proof -
  let ?sz = "of_nat (length bs) :: u32" and ?code = "store_address_in_hash_set (of_nat (length bs))"
  let ?m = "\<lparr>pc = 0, regs = r(RSet := tl_thread L), flags = None, memory = tool_memory L s, overflowBuffer = fe_overflow s\<rparr>"
  note f = tool_memory_fields [OF assms(1,4)]
  have sz: "unat ?sz = length bs" using assms(6) by (simp add: unat_of_nat)
  obtain n t where t: "run ?code a sv n ?m = Inr t" "pc t = length ?code"
      "lp_inv rc_hash (table_at (memory t) (tl_entries L))"
      "lp_elems (table_at (memory t) (tl_entries L)) = lp_elems (hash_set_entries (data s)) \<union> covered_blocks a (length bs)"
      "overflowBuffer t = fe_overflow s"
    using emitted_code_ok [of ?m a ?sz sv] f assms sz by auto
  have "instrumented_store fuel L r sv a bs s =
      Inr (s\<lparr>data := (data s)\<lparr>hash_set_entries := table_at (memory t) (tl_entries L),
                                number_of_hash_set_entries := ucast (ld64 (memory t) (tl_count L))\<rparr>,
             fe_mem := write_bytes (fe_mem s) a bs\<rparr>)" if "n \<le> fuel" for fuel
  proof -
    have "run ?code a sv fuel ?m = Inr t" using run_end [OF t(1) _ that] t(2) by simp
    then show ?thesis using t(2,5) by (simp add: instrumented_store_def instrument_mem_def)
  qed
  then show ?thesis
    using t(3,4) length_table_at by blast
qed

lemma covered_blocks_cover:
  assumes "unat a + n < 2 ^ 63" "in_range a n x"
  shows "\<exists>b\<in>covered_blocks a n. in_range b 32 x"
proof -
  have x: "unat x = unat a + unat (x - a)" "unat (x - a) < n"
  proof -
    have "x = a + (x - a)" by simp
    moreover have "unat (a + (x - a)) = unat a + unat (x - a)"
      using assms unat_lt64 [of "x - a"] unfolding unat_word_ariths(1) in_range_def by (intro mod_less) simp
    ultimately show "unat x = unat a + unat (x - a)" by simp
    show "unat (x - a) < n" using assms(2) by (simp add: in_range_def)
  qed
  let ?b = "x AND BLOCK_MASK"
  have b: "unat ?b = unat x div 32 * 32" by (rule unat_block)
  then have "unat a div 32 * 32 \<le> unat ?b" using x(1) by (simp add: div_le_mono)
  moreover have "unat ?b \<le> unat x" unfolding b by simp
  moreover have "unat (x - ?b) < 32"
    using b calculation(2) by (simp add: unat_sub word_le_nat_alt minus_div_mult_eq_mod)
  ultimately show ?thesis using b x by (intro bexI [of _ ?b]) (auto simp: covered_blocks_def in_range_def)
qed

lemma wrapped_memcpy_ok:
  assumes "combiner (data s) = 1" "unat n < 2 ^ 31" "ma_count (memcpyArray (data s)) < length (ma_array (memcpyArray (data s)))"
  shows "\<exists>ma. wrapped_memcpy d src n s = Inr (s\<lparr>data := (data s)\<lparr>memcpyArray := ma\<rparr>,
      fe_mem := write_bytes (fe_mem s) d (read_bytes (fe_mem s) src (unat n))\<rparr>)
    \<and> ma_count ma = ma_count (memcpyArray (data s)) + 1 \<and> length (ma_array ma) = length (ma_array (memcpyArray (data s)))
    \<and> take (ma_count ma) (ma_array ma) = recorded_copies s @ [\<lparr>me_start = d, me_end = d + n\<rparr>]"
proof -
  have "write_bytes m a [] = m" for m a by (simp add: write_bytes_def)
  then show ?thesis
    using assms size_through_int [OF assms(2)] by (auto simp: wrapped_memcpy_def wrap_pre_def record_memcpy_def recorded_copies_def Let_def
        take_Suc_conv_app_nth read_bytes_def)
qed

section \<open>All operations of a transaction\<close>

text \<open>
  Operations the tool records completely: addresses in the lower half of the address space and not below
  1024, which the end of the batch takes for no address; sizes that fit an \<open>int\<close>.
\<close>

fun op_ok :: "app_op \<Rightarrow> bool" where
  "op_ok (Store a bs) \<longleftrightarrow> 1024 \<le> unat a \<and> length bs < 2 ^ 31 \<and> unat a + length bs < 2 ^ 63 - 32"
| "op_ok (Memcpy d src n) \<longleftrightarrow> unat n < 2 ^ 31"

fun store_blocks :: "app_op \<Rightarrow> addr set" where
  "store_blocks (Store a bs) = covered_blocks a (length bs)"
| "store_blocks (Memcpy d src n) = {}"

fun op_copies :: "app_op \<Rightarrow> memcpy_entry list" where
  "op_copies (Store a bs) = []"
| "op_copies (Memcpy d src n) = [\<lparr>me_start = d, me_end = d + n\<rparr>]"

definition op_blocks :: "app_op \<Rightarrow> addr set" where
  "op_blocks x = store_blocks x \<union> (\<Union>e\<in>set (op_copies x). set (memcpy_blocks e))"

abbreviation all_copies :: "app_op list \<Rightarrow> memcpy_entry list" where
  "all_copies ops \<equiv> concat (map op_copies ops)"

lemma plain_op_changes:
  assumes "op_ok x" "plain_op x m y \<noteq> m y"
  shows "\<exists>b\<in>op_blocks x. in_range b 32 y"
proof (cases x)
  case (Store a bs)
  then have "in_range a (length bs) y" using assms(2) write_bytes_outside [of a bs y m] by auto
  then show ?thesis using Store assms(1) covered_blocks_cover [of a "length bs" y] by (auto simp: op_blocks_def)
next
  case (Memcpy d src n)
  then have "in_range d (unat n) y" using assms(2) write_bytes_outside [of d "read_bytes m src (unat n)" y m] by auto
  then show ?thesis using Memcpy assms(1) memcpy_blocks_cover [of n d y] by (auto simp: op_blocks_def)
qed

lemma plain_ops_changes:
  "\<forall>x\<in>set ops. op_ok x \<Longrightarrow> plain_ops ops m y \<noteq> m y \<Longrightarrow> \<exists>x\<in>set ops. \<exists>b\<in>op_blocks x. in_range b 32 y"
proof (induction ops arbitrary: m)
  case (Cons x ops)
  show ?case
  proof (cases "plain_op x m y = m y")
    case True
    then have "plain_ops ops (plain_op x m) y \<noteq> plain_op x m y" using Cons.prems(2) by (simp add: plain_ops_def)
    then show ?thesis using Cons.IH Cons.prems(1) by auto
  qed (use plain_op_changes Cons.prems(1) in auto)
qed (simp add: plain_ops_def)

text \<open>A thread in the middle of a batch.\<close>

definition collecting :: "front \<Rightarrow> bool" where
  "collecting s \<longleftrightarrow> combiner (data s) = 1 \<and> lp_inv rc_hash (hash_set_entries (data s))
     \<and> length (hash_set_entries (data s)) = 1024
     \<and> ma_count (memcpyArray (data s)) \<le> length (ma_array (memcpyArray (data s)))"

text \<open>What the operations of a batch have recorded, and that they did what they do without the tool.\<close>

definition recorded :: "app_op list \<Rightarrow> front \<Rightarrow> front \<Rightarrow> bool" where
  "recorded ops s s' \<longleftrightarrow> collecting s' \<and> fe_mem s' = plain_ops ops (fe_mem s)
     \<and> lp_elems (hash_set_entries (data s')) = lp_elems (hash_set_entries (data s)) \<union> (\<Union>x\<in>set ops. store_blocks x)
     \<and> recorded_copies s' = recorded_copies s @ all_copies ops
     \<and> fe_rb s' = fe_rb s \<and> fe_overflow s' = fe_overflow s
     \<and> ma_count (memcpyArray (data s')) = ma_count (memcpyArray (data s)) + length (all_copies ops)
     \<and> length (ma_array (memcpyArray (data s'))) = length (ma_array (memcpyArray (data s)))"

lemma recorded_trans: "recorded [x] s t \<Longrightarrow> recorded ops t u \<Longrightarrow> recorded (x # ops) s u"
  by (auto simp: recorded_def plain_ops_def)

lemma app_step_records:
  assumes "collecting s" "layout_ok L" "op_ok x"
    and "card (lp_elems (hash_set_entries (data s)) \<union> store_blocks x) \<le> 1024"
    and "ma_count (memcpyArray (data s)) + length (op_copies x) \<le> length (ma_array (memcpyArray (data s)))"
  shows "\<exists>F s'. (\<forall>fuel\<ge>F. app_step fuel L r sv x s = Inr s') \<and> recorded [x] s s'"
proof (cases x)
  case (Store a bs)
  then obtain F hs n where st: "lp_inv rc_hash hs" "length hs = 1024"
      "lp_elems hs = lp_elems (hash_set_entries (data s)) \<union> covered_blocks a (length bs)"
      "\<forall>fuel\<ge>F. instrumented_store fuel L r sv a bs s =
         Inr (s\<lparr>data := (data s)\<lparr>hash_set_entries := hs, number_of_hash_set_entries := n\<rparr>,
                fe_mem := write_bytes (fe_mem s) a bs\<rparr>)"
    using instrumented_store_ok [OF assms(2), of s a bs r sv] assms(1,3,4) by (auto simp: collecting_def)
  have rec: "recorded [x] s (s\<lparr>data := (data s)\<lparr>hash_set_entries := hs, number_of_hash_set_entries := n\<rparr>,
                fe_mem := write_bytes (fe_mem s) a bs\<rparr>)"
    using Store assms(1) st(1-3) by (simp add: recorded_def collecting_def plain_ops_def recorded_copies_def)
  show ?thesis using Store st(4) rec by auto
next
  case (Memcpy d src n)
  have "combiner (data s) = 1" "unat n < 2 ^ 31"
      "ma_count (memcpyArray (data s)) < length (ma_array (memcpyArray (data s)))"
    using assms(1,3,5) Memcpy by (simp_all add: collecting_def)
  from wrapped_memcpy_ok [OF this, of d src]
  obtain ma where ma: "wrapped_memcpy d src n s = Inr (s\<lparr>data := (data s)\<lparr>memcpyArray := ma\<rparr>,
        fe_mem := write_bytes (fe_mem s) d (read_bytes (fe_mem s) src (unat n))\<rparr>)"
      "ma_count ma = ma_count (memcpyArray (data s)) + 1" "length (ma_array ma) = length (ma_array (memcpyArray (data s)))"
      "take (ma_count ma) (ma_array ma) = recorded_copies s @ [\<lparr>me_start = d, me_end = d + n\<rparr>]"
    by blast
  have "recorded [x] s (s\<lparr>data := (data s)\<lparr>memcpyArray := ma\<rparr>,
        fe_mem := write_bytes (fe_mem s) d (read_bytes (fe_mem s) src (unat n))\<rparr>)"
    using Memcpy assms(1,5) ma(2-4) by (simp add: recorded_def collecting_def plain_ops_def recorded_copies_def)
  then show ?thesis using ma(1) Memcpy by auto
qed

lemma app_steps_record:
  "collecting s \<Longrightarrow> layout_ok L \<Longrightarrow> \<forall>x\<in>set ops. op_ok x \<Longrightarrow>
   card (lp_elems (hash_set_entries (data s)) \<union> (\<Union>x\<in>set ops. store_blocks x)) \<le> 1024 \<Longrightarrow>
   ma_count (memcpyArray (data s)) + length (all_copies ops) \<le> length (ma_array (memcpyArray (data s))) \<Longrightarrow>
   \<exists>F s'. (\<forall>fuel\<ge>F. app_steps fuel L r sv ops s = Inr s') \<and> recorded ops s s'"
proof (induction ops arbitrary: s)
  case Nil
  then show ?case by (auto simp: recorded_def plain_ops_def)
next
  case (Cons x ops)
  let ?hs = "lp_elems (hash_set_entries (data s))"
  have "card (?hs \<union> store_blocks x) \<le> card (?hs \<union> (\<Union>y\<in>set (x # ops). store_blocks y))"
    by (rule card_mono) auto
  then obtain F1 s1 where s1: "\<forall>fuel\<ge>F1. app_step fuel L r sv x s = Inr s1" "recorded [x] s s1"
    using app_step_records [of s L x r sv] Cons.prems by auto
  then obtain F2 s2 where s2: "\<forall>fuel\<ge>F2. app_steps fuel L r sv ops s1 = Inr s2" "recorded ops s1 s2"
    using Cons.IH [of s1] Cons.prems by (auto simp: recorded_def Un_assoc)
  then show ?case
    using s1 recorded_trans [OF s1(2) s2(2)] by (intro exI [of _ "max F1 F2"] exI [of _ s2]) simp
qed

section \<open>Transactions are durable\<close>

text \<open>Between two batches: an empty log, the same memory in both processes, nothing recorded.\<close>

definition in_sync :: "front \<Rightarrow> backend \<Rightarrow> bool" where
  "in_sync s b \<longleftrightarrow> be_rb b = fe_rb s \<and> valid_index (last_persisted_head (fe_rb s))
     \<and> last_persisted_tail (fe_rb s) = last_persisted_head (fe_rb s)
     \<and> remote_head (fe_rb s) = last_persisted_head (fe_rb s)
     \<and> global_local_head (be_g b) = last_persisted_head (fe_rb s)
     \<and> no_alias (pmem (be_proc b)) \<and> be_contents b = fe_mem s
     \<and> batch_cleared s \<and> length (ma_array (memcpyArray (data s))) = MAX_NUM_OF_MEMCPY"

text \<open>The operations of one transaction fit the hash set, the array of copies and the log.\<close>

definition fits :: "app_op list \<Rightarrow> bool" where
  "fits ops \<longleftrightarrow> (\<forall>x\<in>set ops. op_ok x) \<and> card (\<Union>x\<in>set ops. store_blocks x) \<le> 1024
     \<and> length (all_copies ops) \<le> MAX_NUM_OF_MEMCPY
     \<and> sum_list (map (\<lambda>e. length (memcpy_blocks e) + 1) (all_copies ops)) + 1025 \<le> 65535"

definition ops_mapped :: "app_op list \<Rightarrow> backend \<Rightarrow> bool" where
  "ops_mapped ops b \<longleftrightarrow> (\<forall>y. (\<exists>x\<in>set ops. \<exists>a\<in>op_blocks x. in_range a 32 y) \<longrightarrow> be_mapped b y)"

lemma covered_above_1000:
  assumes "1024 \<le> unat a" "b \<in> covered_blocks a n"
  shows "1000 < b"
proof -
  have "1024 \<le> unat a div 32 * 32" using div_le_mono [OF assms(1), of 32] by simp
  then have "1024 \<le> unat b" using assms(2) by (simp add: covered_blocks_def)
  then show ?thesis by (simp add: word_less_nat_alt)
qed

lemma recorded_batch_blocks:
  assumes "recorded ops (instrument_start s) s1" "batch_cleared s" "\<forall>x\<in>set ops. op_ok x"
  shows "set (batch_blocks s1) = (\<Union>x\<in>set ops. op_blocks x)" "recorded_copies s1 = all_copies ops"
    "ob_size (fe_overflow s1) = 0"
proof -
  have c: "recorded_copies (instrument_start s) = []" "lp_elems (hash_set_entries (data (instrument_start s))) = {}"
      "ob_size (fe_overflow (instrument_start s)) = 0"
    using assms(2) by (simp_all add: batch_cleared_def recorded_copies_def instrument_start_def)
  then show rc: "recorded_copies s1 = all_copies ops" and ob: "ob_size (fe_overflow s1) = 0"
    using assms(1) by (simp_all add: recorded_def)
  have el: "lp_elems (hash_set_entries (data s1)) = (\<Union>x\<in>set ops. store_blocks x)"
    using assms(1) c(2) by (simp add: recorded_def)
  have "1000 < b" if "x \<in> set ops" "b \<in> store_blocks x" for x b
  proof -
    have "op_ok x" using that(1) assms(3) by blast
    then show ?thesis using that(2) covered_above_1000 by (cases x) auto
  qed
  moreover have "b \<in> set (hash_set_entries (data s1)) \<and> 1000 < b \<longleftrightarrow>
      b \<in> lp_elems (hash_set_entries (data s1)) \<and> 1000 < b" for b
    by (auto simp: lp_elems_def)
  ultimately have "b \<in> set (hash_set_entries (data s1)) \<and> 1000 < b \<longleftrightarrow> (\<exists>x\<in>set ops. b \<in> store_blocks x)" for b
    unfolding el by blast
  then show "set (batch_blocks s1) = (\<Union>x\<in>set ops. op_blocks x)"
    by (auto simp: batch_blocks_def payload_blocks_def rc ob op_blocks_def)
qed

lemma start_collecting:
  assumes "batch_cleared s"
  shows "collecting (instrument_start s)"
  using assms by (simp add: batch_cleared_def collecting_def instrument_start_def)

text \<open>The transaction returns, and what the back end then sees is a log with its effect.\<close>

lemma transaction_publishes:
  assumes "in_sync s b" "layout_ok L" "fits ops" "ops_mapped ops b"
  shows "\<exists>F s' es. (\<forall>fuel\<ge>F. transaction fuel L r sv ops s l = Inr (s', l)) \<and> replaying es (published s' b)
    \<and> (\<forall>y. log_writes es y \<longleftrightarrow> (\<exists>x\<in>set ops. \<exists>a\<in>op_blocks x. in_range a 32 y))
    \<and> apply_log es (fe_mem s) = plain_ops ops (fe_mem s) \<and> fe_mem s' = plain_ops ops (fe_mem s)
    \<and> batch_cleared s' \<and> length (ma_array (memcpyArray (data s'))) = MAX_NUM_OF_MEMCPY
    \<and> last_persisted_head (fe_rb s') = remote_head (fe_rb s') \<and> remote_head (fe_rb s') = remote_head (fe_rb s)
    \<and> remote_tail (fe_rb s') = last_persisted_tail (fe_rb s')
    \<and> commit_metadata (fe_rb s') = commit_metadata (fe_rb s)"
proof -
  let ?s = "instrument_start s" and ?m = "plain_ops ops (fe_mem s)"
  have sy: "batch_cleared s" "length (ma_array (memcpyArray (data s))) = MAX_NUM_OF_MEMCPY"
    using assms(1) by (simp_all add: in_sync_def)
  have st: "lp_elems (hash_set_entries (data ?s)) = {}" "ma_count (memcpyArray (data ?s)) = 0"
      "memcpyArray (data ?s) = memcpyArray (data s)" "fe_rb ?s = fe_rb s" "fe_mem ?s = fe_mem s"
    using sy(1) by (simp_all add: batch_cleared_def instrument_start_def)
  obtain F s1 where s1: "\<forall>fuel\<ge>F. app_steps fuel L r sv ops ?s = Inr s1" "recorded ops ?s s1"
    using app_steps_record [OF start_collecting [OF sy(1)] assms(2), of ops r sv] st sy(2) assms(3)
    by (auto simp: fits_def)
  note bb = recorded_batch_blocks [OF s1(2) sy(1)]
  have ok: "\<forall>x\<in>set ops. op_ok x" using assms(3) by (simp add: fits_def)
  have m: "fe_mem s1 = ?m" "fe_rb s1 = fe_rb s" "length (ma_array (memcpyArray (data s1))) = MAX_NUM_OF_MEMCPY"
    using s1(2) st sy(2) by (simp_all add: recorded_def)
  have "valid_index (last_persisted_head (fe_rb s1))" "last_persisted_tail (fe_rb s1) = last_persisted_head (fe_rb s1)"
      "remote_head (fe_rb s1) = last_persisted_head (fe_rb s1)" "global_local_head (be_g b) = last_persisted_head (fe_rb s1)"
      "no_alias (pmem (be_proc b))"
    using assms(1) m(2) by (simp_all add: in_sync_def)
  moreover have "buffers_ok s1" using s1(2) bb(3) [OF ok] by (simp add: recorded_def collecting_def buffers_ok_def)
  moreover have "sum_list (map (\<lambda>e. length (memcpy_blocks e) + 1) (recorded_copies s1)) + ob_size (fe_overflow s1) + 1025 \<le> 65535"
    using assms(3) bb [OF ok] by (simp add: fits_def)
  moreover have "\<forall>x. (\<exists>a\<in>set (batch_blocks s1). in_range a 32 x) \<longrightarrow> be_mapped b x"
    using assms(4) bb(1) [OF ok] by (auto simp: ops_mapped_def)
  ultimately obtain s' es where s': "instrument_stop s1 l = Inr (s', l)" "replaying es (published s' b)"
      "\<forall>x. log_writes es x \<longleftrightarrow> (\<exists>a\<in>set (batch_blocks s1). in_range a 32 x)"
      "\<And>m x. m x = fe_mem s1 x \<or> (\<exists>a\<in>set (batch_blocks s1). in_range a 32 x) \<Longrightarrow> apply_log es m x = fe_mem s1 x"
      "batch_cleared s'" "fe_mem s' = fe_mem s1"
      "last_persisted_head (fe_rb s') = last_persisted_head (fe_rb s1)" "remote_head (fe_rb s') = remote_head (fe_rb s1)"
      "remote_tail (fe_rb s') = last_persisted_tail (fe_rb s')"
      "commit_metadata (fe_rb s') = commit_metadata (fe_rb s1)"
      "ma_array (memcpyArray (data s')) = ma_array (memcpyArray (data s1))"
    using batch_log [of s1 b l] by blast
  have w: "log_writes es y \<longleftrightarrow> (\<exists>x\<in>set ops. \<exists>a\<in>op_blocks x. in_range a 32 y)" for y
    using s'(3) bb(1) [OF ok] by auto
  have "apply_log es (fe_mem s) y = ?m y" for y
    using s'(4) [of "fe_mem s" y] s'(3) w [of y] plain_ops_changes [OF ok, of "fe_mem s" y] unfolding m(1) by metis
  then have "apply_log es (fe_mem s) = ?m" by (rule ext)
  moreover have "transaction fuel L r sv ops s l = Inr (s', l)" if "F \<le> fuel" for fuel
    using s1(1) that s'(1) by (simp add: transaction_def)
  ultimately show ?thesis using s' w m assms(1) unfolding in_sync_def by metis
qed

text \<open>The back end consumes the log, and the two processes are in sync again.\<close>

lemma transaction_durable:
  assumes "in_sync s b" "layout_ok L" "fits ops" "ops_mapped ops b"
  shows "\<exists>F s' b'. (\<forall>fuel\<ge>F. transaction fuel L r sv ops s l = Inr (s', l))
    \<and> replay_log k (published s' b) = Some (Inr b') \<and> in_sync (s'\<lparr>fe_rb := be_rb b'\<rparr>) b'
    \<and> fe_mem s' = plain_ops ops (fe_mem s) \<and> be_mapped b' = be_mapped b"
proof -
  obtain F s' es where s': "\<forall>fuel\<ge>F. transaction fuel L r sv ops s l = Inr (s', l)" "replaying es (published s' b)"
      "apply_log es (fe_mem s) = plain_ops ops (fe_mem s)" "fe_mem s' = plain_ops ops (fe_mem s)"
      "batch_cleared s'" "length (ma_array (memcpyArray (data s'))) = MAX_NUM_OF_MEMCPY"
      "last_persisted_head (fe_rb s') = remote_head (fe_rb s')"
      "remote_tail (fe_rb s') = last_persisted_tail (fe_rb s')"
    using transaction_publishes [OF assms, of r sv l] by blast
  obtain b' where b': "replay_log k (published s' b) = Some (Inr b')" "replaying [] b'"
      "be_contents b' = apply_log es (be_contents (published s' b))" "be_mapped b' = be_mapped (published s' b)"
    using replay_ok [OF s'(2), of k] by blast
  have "ring_indices b' = ring_indices (published s' b)"
    using replay_indices [OF b'(1)] s'(7) by simp
  then have i: "remote_tail (be_rb b') = last_persisted_tail (be_rb b')" "last_persisted_head (be_rb b') = remote_head (be_rb b')"
    using s'(7,8) by (simp_all add: ring_indices_def)
  have r: "valid_index (global_local_head (be_g b'))" "valid_index (remote_tail (be_rb b'))" "no_alias (pmem (be_proc b'))"
      "remote_head (be_rb b') = remote_tail (be_rb b')"
      "rb_entries (buffer (be_rb b')) (global_local_head (be_g b')) (remote_tail (be_rb b')) = []"
    using b'(2) by (simp_all add: replaying_def)
  then have "global_local_head (be_g b') = remote_tail (be_rb b')" using rb_entries_Nil_iff by blast
  then have "in_sync (s'\<lparr>fe_rb := be_rb b'\<rparr>) b'"
    using r i s'(3-6) b'(3) assms(1) by (simp add: in_sync_def batch_cleared_def)
  moreover have "be_mapped b' = be_mapped b" using b'(4) by simp
  ultimately show ?thesis using s'(1,4) b'(1) by blast
qed

section \<open>Sessions\<close>

text \<open>Transactions one after the other, each consumed by the back end before the next.\<close>

fun session ::
    "nat \<Rightarrow> kernel \<Rightarrow> tool_layout \<Rightarrow> (reg \<Rightarrow> u64) \<Rightarrow> u64 \<Rightarrow> app_op list list \<Rightarrow> front \<times> backend \<Rightarrow>
     (front \<times> backend) result option" where
  "session fuel k L r sv [] sb = Some (Inr sb)"
| "session fuel k L r sv (ops # txns) (s, b) =
     (case transaction fuel L r sv ops s [] of
        Inl e \<Rightarrow> Some (Inl e)
      | Inr (s', _) \<Rightarrow>
          (case replay_log k (published s' b) of
             None \<Rightarrow> None
           | Some (Inl e) \<Rightarrow> Some (Inl e)
           | Some (Inr b') \<Rightarrow> session fuel k L r sv txns (s'\<lparr>fe_rb := be_rb b'\<rparr>, b')))"

text \<open>
  C2: Transactions are durable, whatever the application does in them. Take a front end and a back end between
  two batches, with an empty log and the same memory, and any sequence of transactions, each any sequence of
  stores and calls of \<open>memcpy\<close> that fits the hash set, the array of copies and the log, on memory that the back
  end has mapped. With enough fuel for the emitted code every transaction returns and the back end consumes its
  log; at the end both memories are what the plain, uninstrumented operations make of the memory at the start, and
  the two processes are between two batches again.
\<close>

theorem session_is_durable:
  assumes "in_sync s b" "layout_ok L" "\<forall>ops\<in>set txns. fits ops \<and> ops_mapped ops b"
  shows "\<exists>F. \<forall>fuel\<ge>F. \<exists>s' b'. session fuel k L r sv txns (s, b) = Some (Inr (s', b')) \<and> in_sync s' b'
    \<and> fe_mem s' = fold plain_ops txns (fe_mem s) \<and> be_contents b' = fold plain_ops txns (fe_mem s)"
  using assms
proof (induction txns arbitrary: s b)
  case Nil
  then show ?case by (simp add: in_sync_def)
next
  case (Cons ops txns)
  obtain F s1 b1 where s1: "\<forall>fuel\<ge>F. transaction fuel L r sv ops s [] = Inr (s1, [])"
      "replay_log k (published s1 b) = Some (Inr b1)" "in_sync (s1\<lparr>fe_rb := be_rb b1\<rparr>) b1"
      "fe_mem s1 = plain_ops ops (fe_mem s)" "be_mapped b1 = be_mapped b"
    using transaction_durable [OF Cons.prems(1,2), of ops r sv "[]" k] Cons.prems(3) by auto
  have "\<forall>ops\<in>set txns. fits ops \<and> ops_mapped ops b1" using Cons.prems(3) s1(5) by (simp add: ops_mapped_def)
  from Cons.IH [OF s1(3) Cons.prems(2) this] obtain G where G: "\<forall>fuel\<ge>G. \<exists>s' b'.
      session fuel k L r sv txns (s1\<lparr>fe_rb := be_rb b1\<rparr>, b1) = Some (Inr (s', b')) \<and> in_sync s' b'
      \<and> fe_mem s' = fold plain_ops txns (plain_ops ops (fe_mem s)) \<and> be_contents b' = fold plain_ops txns (plain_ops ops (fe_mem s))"
    using s1(4) by auto
  show ?case using s1(1,2) G by (intro exI [of _ "max F G"]) simp
qed

section \<open>Witnesses\<close>

text \<open>An idle thread, its record at 65536, and a back end with all memory mapped.\<close>

definition idle_front :: "mem \<Rightarrow> front" where
  "idle_front m =
     example_front\<lparr>data := example_thread\<lparr>combiner := 0, number_of_hash_set_entries := 0, hash_set_entries := replicate 1024 0,
                     memcpyArray := \<lparr>ma_count = 0, ma_array = replicate 100 \<lparr>me_start = 0, me_end = 0\<rparr>\<rparr>\<rparr>,
                   fe_mem := m\<rparr>"

definition idle_backend :: "mem \<Rightarrow> backend" where
  "idle_backend m =
     \<lparr>be_rb = zero_ring_buffer,
      be_g = \<lparr>global_local_head = 0, global_local_tail = 0, number_of_mmaped_memory_regions = 0\<rparr>,
      be_proc = \<lparr>rt = zero_region_table, sequenceNumber = 0,
        pmem = \<lparr>vmap = (\<lambda>_. Some Anon_byte), anon = m, files = (\<lambda>_. None)\<rparr>\<rparr>\<rparr>"

definition example_layout :: tool_layout where
  "example_layout = \<lparr>tl_thread = 0x10000, tl_entries = 0x12000, tl_count = 0x20000\<rparr>"

lemma idle_in_sync: "in_sync (idle_front m) (idle_backend m)"
  by (simp add: in_sync_def idle_front_def idle_backend_def example_front_def example_thread_def zero_ring_buffer_def
      batch_cleared_def MAX_NUM_OF_MEMCPY_def no_alias_def contents_def load_byte_def fun_eq_iff valid_index_def)

lemma example_layout_ok: "layout_ok example_layout"
  by (simp add: layout_ok_def example_layout_def apart_def)

lemma idle_mapped: "ops_mapped ops (idle_backend m)"
  by (simp add: ops_mapped_def idle_backend_def mapped_def load_byte_def)

theorem session_is_durable_witness:
  "\<exists>fuel s' b'. session fuel accepting_kernel example_layout (\<lambda>_. 0) 0
      [[Store 0x40010 (replicate 24 7)], [Memcpy 0x50000 0x40010 24]] (idle_front (\<lambda>_. 0), idle_backend (\<lambda>_. 0))
    = Some (Inr (s', b')) \<and> be_contents b' 0x50017 = 7"
proof -
  let ?txns = "[[Store 0x40010 (replicate 24 7)], [Memcpy 0x50000 0x40010 24]]"
  have "fits [Store 0x40010 (replicate 24 7)]" by (simp add: fits_def example_blocks)
  moreover have "fits [Memcpy 0x50000 0x40010 24]"
    by (simp add: fits_def MAX_NUM_OF_MEMCPY_def memcpy_blocks_def Let_def)
  ultimately have "\<forall>ops\<in>set ?txns. fits ops \<and> ops_mapped ops (idle_backend (\<lambda>_. 0))" by (simp add: idle_mapped)
  from session_is_durable [OF idle_in_sync example_layout_ok this, of accepting_kernel "\<lambda>_. 0" 0]
  obtain fuel s' b' where s': "session fuel accepting_kernel example_layout (\<lambda>_. 0) 0 ?txns
        (idle_front (\<lambda>_. 0), idle_backend (\<lambda>_. 0)) = Some (Inr (s', b'))"
      "be_contents b' = fold plain_ops ?txns (fe_mem (idle_front (\<lambda>_. 0)))"
    by blast
  have "be_contents b' 0x50017 = 7"
    by (simp add: s'(2) plain_ops_def write_bytes_def read_bytes_def)
  then show ?thesis using s'(1) by blast
qed

end
