(* ===== verification/Crash_Recovery.thy ===== *)
theory Crash_Recovery
  imports Store_Transaction Startup
begin

text \<open>
  A crash and the recovery from it, over all components: the front end has published the log of a transaction,
  the back end dies after any number of its entries, and new processes start with \<open>launch_mangosteen\<close> over the
  ring buffer, the region table and the memory files that are left. Their start-up interleaves in every possible
  way. The recovered front end has the effect of the whole transaction.
\<close>

section \<open>What a dead process leaves\<close>

lemma recorded_mapped:
  assumes "regions_recorded d" "in_table (rt (be_proc d)) x"
  shows "be_mapped d x"
proof -
  let ?s = "numbered (be_proc d)"
  obtain i where i: "unat i < unat (number_of_entries (rt ?s))" "in_region (rt ?s) i x" using assms(2) by auto
  have inv: "region_inv ?s" "number_of_entries (rt ?s) = uncommited_number_of_entries (rt ?s)"
    using assms(1) by (simp_all add: regions_recorded_def)
  then have n: "unat i < sequenceNumber ?s" using i(1) by (auto simp: region_inv_def)
  then obtain bs where bs: "files (pmem ?s) (unat i) = Some bs" "length bs = unat (mmap_size (regionTable (rt ?s) i))"
    using inv(1) by (auto simp: region_inv_def files_match_def)
  have "vmap (pmem ?s) x = Some (File_byte (unat i) (unat (x - address (regionTable (rt ?s) i))))"
    using inv(1) n i(2) by (simp add: region_inv_def)
  then show ?thesis using bs i(2) by (simp add: mapped_def load_byte_def in_region_def in_range_def)
qed

text \<open>
  In a first run the back end gets into such a state when its address space is moved into the memory files. The commit
  record of the log is not touched, so it names no region yet.
\<close>

lemma first_run_recorded:
  assumes "region_inv p" "scan_memory True infos 0 [] (rt p) = Inr (sel, t)"
    and "sequenceNumber p + length sel \<le> 65536" "disjoint_infos sel" "\<forall>info\<in>set sel. replaceable k p info"
  shows "\<exists>p'. synchronize_address_space True k infos p = Inr p'
    \<and> regions_recorded \<lparr>be_rb = rb, be_g = g, be_proc = p'\<rparr>"
  using synchronize_result [OF assms] region_inv_numbered by (fastforce simp: regions_recorded_def)

text \<open>The kernel accepts the mappings of all regions, at their address and anywhere.\<close>

definition regions_mappable :: "kernel \<Rightarrow> region_table \<Rightarrow> bool" where
  "regions_mappable k t \<longleftrightarrow>
     (\<forall>i. unat i < unat (number_of_entries t) \<longrightarrow>
        mmap_ok k 0 (mmap_size (regionTable t i)) \<and>
        mmap_ok k (address (regionTable t i)) (mmap_size (regionTable t i)))"

text \<open>The start of new processes over what \<open>d\<close> has left, from a memory in which only the files exist.\<close>

definition restart :: "bool \<Rightarrow> backend \<Rightarrow> addr \<Rightarrow> nat option \<Rightarrow> task list \<Rightarrow> rb_globals \<Rightarrow> startup result" where
  "restart rpc d a sem tasks g0 =
     launch_mangosteen rpc (Some (be_rb d)) (Some a) (Some (rt (be_proc d))) True sem
       (fresh_mem (files (pmem (be_proc d)))) tasks g0"

lemma restart_recoverable:
  assumes "Back_End.settled d" "unreleased d = es" "redo_log es" "es \<noteq> [] \<longrightarrow> entry_type (last es) = COMMIT_ENTRY"
    and "\<forall>x. log_writes es x \<longrightarrow> in_table (rt (be_proc d)) x"
    and "valid_index (remote_head (be_rb d))" "valid_index (remote_tail (be_rb d))"
    and "regions_mappable k (rt (be_proc d))" "number_of_entries (rt (be_proc d)) \<noteq> 0"
    and "restart rpc d a sem tasks g0 = Inr su"
  shows "\<exists>s0. recoverable k es s0 \<and> recovery_from sem s0 su \<and> be_contents s0 = be_contents d
    \<and> (\<forall>x. in_table (rt (be_proc s0)) x \<longleftrightarrow> in_table (rt (be_proc d)) x)"
proof -
  let ?rb = "be_rb d" and ?t = "rt (be_proc d)"
  define rb where "rb = ?rb\<lparr>last_persisted_head := remote_head ?rb, last_persisted_tail := remote_tail ?rb\<rparr>"
  define g where "g = g0\<lparr>global_local_tail := remote_tail ?rb, global_local_head := remote_head ?rb,
      number_of_mmaped_memory_regions := ucast (numberOfRegions (commit_metadata ?rb))\<rparr>"
  define tab where "tab = ?t\<lparr>number_of_new_entries := 0, needsSync := False\<rparr>"
  define s0 where "s0 = \<lparr>be_rb = rb, be_g = g, be_proc = (be_proc d)\<lparr>rt := tab\<rparr>\<rparr>"
  have n: "ucast (numberOfRegions (commit_metadata ?rb)) = number_of_entries ?t"
    using assms(1) by (simp add: Back_End.settled_def)
  have rec: "regions_recorded d" using assms(1) by (rule settled_recorded)
  have tab: "?t\<lparr>number_of_entries := ucast (numberOfRegions (commit_metadata rb)), number_of_new_entries := 0, needsSync := False\<rparr> = tab"
    using n by (simp add: tab_def rb_def)
  have su: "su = \<lparr>su_new = False, su_rpc = rpc, su_sem = sem, su_be = restarted s0,
      su_fe = fresh_mem (files (pmem (be_proc d))), su_fe_g = g, su_tasks = tasks, su_be_pc = BE_start, su_fe_pc = FE_start\<rparr>"
    using assms(9,10) tab n
    by (auto simp: restart_def launch_mangosteen_def ring_buffer_create_and_initialise_def region_table_create_or_open_def
        and_then_Inr restarted_def s0_def new_process_def rb_def g_def tab_def Let_def split: if_splits)
  have "region_inv (numbered (be_proc s0))"
    by (rule region_inv_table [of "numbered (be_proc d)"]) (use rec in \<open>simp_all add: regions_recorded_def s0_def tab_def\<close>)
  then have "Back_End.settled s0"
    using assms(1) by (simp add: Back_End.settled_def regions_recorded_def s0_def tab_def rb_def)
  moreover have "replaying es s0"
  proof -
    have "remote_head ?rb = remote_tail ?rb \<longleftrightarrow> es = []"
      using assms(2,6,7) rb_entries_Nil_iff [of "remote_head ?rb" "remote_tail ?rb" "buffer ?rb"] by (simp add: unreleased_def)
    then show ?thesis
      using assms(2-7) rec recorded_mapped [OF rec]
      by (simp add: replaying_def s0_def rb_def g_def unreleased_def regions_recorded_def region_inv_def)
  qed
  moreover have "\<forall>x. in_table (rt (be_proc s0)) x \<longleftrightarrow> in_table ?t x" by (simp add: s0_def tab_def in_region_def)
  ultimately have "recoverable k es s0"
    using assms(5,8) by (simp add: recoverable_def regions_mappable_def) (simp add: s0_def tab_def)
  moreover have "recovery_from sem s0 su" by (simp add: recovery_from_def su s0_def)
  moreover have "be_contents s0 = be_contents d" by (simp add: s0_def)
  ultimately show ?thesis by (intro exI [of _ s0]) (simp add: s0_def tab_def in_region_def)
qed

text \<open>
  A published log, a crash after any number of its entries with the regions in the commit record of the log, and
  any interleaving of the recovery.
\<close>

lemma crash_then_recovery:
  assumes "replaying es p" "regions_recorded p" "global_local_head (be_g p) = remote_head (be_rb p)"
    and "\<forall>x. log_writes es x \<longrightarrow> in_table (rt (be_proc p)) x"
    and "regions_mappable k (rt (be_proc p))" "number_of_entries (rt (be_proc p)) \<noteq> 0"
    and "length obs \<le> length es" "run_consumer k obs p = Inr d" "sem \<in> {None, Some 0}"
    and "restart rpc d a sem tasks g0 = Inr su" "Back_End.settled p \<or> has_commit (take (length obs) es)"
  shows "(\<forall>t. (startup_step k infos)\<^sup>*\<^sup>* su t \<longrightarrow> su_fe_pc t \<in> {FE_attach, FE_ready, FE_running} \<longrightarrow>
      (\<forall>x. in_table (rt (be_proc p)) x \<longrightarrow> load_byte (su_fe t) x = Some (apply_log es (be_contents p) x)))
    \<and> (\<exists>t. (startup_step k infos)\<^sup>*\<^sup>* su t \<and> su_fe_pc t = FE_running)"
proof -
  have un: "unreleased p = [] @ es" "valid_index (remote_head (be_rb p))"
    using assms(1,3) by (simp_all add: unreleased_def replaying_def)
  from consumer_run [OF assms(1,2) un assms(7,8)] assms(11) obtain c where c: "c \<le> length obs"
      "unreleased d = drop c es" "Back_End.settled d" "rt (be_proc d) = rt (be_proc p)" "valid_index (remote_head (be_rb d))"
      "be_contents d = apply_log (take (length obs) es) (be_contents p)" "replaying (drop (length obs) es) d"
    by auto
  have es: "redo_log (drop c es)" "drop c es \<noteq> [] \<longrightarrow> entry_type (last (drop c es)) = COMMIT_ENTRY"
      "\<forall>x. log_writes (drop c es) x \<longrightarrow> in_table (rt (be_proc d)) x"
    using assms(1,4) c(4) redo_log_drop(1) [of es c] redo_log_drop(2) [of c es]
    by (auto simp: replaying_def last_drop)
  have vt: "valid_index (remote_tail (be_rb d))" using c(7) by (simp add: replaying_def)
  obtain s0 where s0: "recoverable k (drop c es) s0" "recovery_from sem s0 su" "be_contents s0 = be_contents d"
      "\<forall>x. in_table (rt (be_proc s0)) x \<longleftrightarrow> in_table (rt (be_proc d)) x"
    using restart_recoverable [OF c(3,2) es c(5) vt _ _ assms(10), of k] assms(5,6) c(4) by auto
  have log: "apply_log (drop c es) (be_contents s0) = apply_log es (be_contents p)"
    using s0(3) c(6) replay_after_crash [OF c(1)] by simp
  show ?thesis using recovery_sees_log [OF s0(1) assms(9) s0(2), of infos] s0(4) c(4) unfolding log by auto
qed

section \<open>A transaction survives a crash\<close>

text \<open>
  After the front end has published the log as \<open>s'\<close>, the machine may crash with the back end anywhere in it, provided
  the commit record of the log names the regions: it already did, or the back end has consumed a commit entry. New
  processes over what is left, with no semaphore or one of value 0, come up with the memory \<open>m\<close> in all regions,
  and can always come up.
\<close>

definition survives_crash :: "kernel \<Rightarrow> mem_info list \<Rightarrow> front \<Rightarrow> backend \<Rightarrow> mem \<Rightarrow> bool" where
  "survives_crash k infos s' b m \<longleftrightarrow>
     (\<forall>obs d sem rpc a tasks g0 su. length obs \<le> length (unreleased (published s' b)) \<longrightarrow>
        run_consumer k obs (published s' b) = Inr d \<longrightarrow>
        Back_End.settled b \<or> has_commit (take (length obs) (unreleased (published s' b))) \<longrightarrow>
        sem \<in> {None, Some 0} \<longrightarrow> restart rpc d a sem tasks g0 = Inr su \<longrightarrow>
        (\<forall>t. (startup_step k infos)\<^sup>*\<^sup>* su t \<longrightarrow> su_fe_pc t = FE_running \<longrightarrow>
           (\<forall>y. in_table (rt (be_proc b)) y \<longrightarrow> load_byte (su_fe t) y = Some (m y)))
        \<and> (\<exists>t. (startup_step k infos)\<^sup>*\<^sup>* su t \<and> su_fe_pc t = FE_running))"

lemma published_facts:
  assumes "in_sync s b" "regions_recorded b" "replaying es (published s' b)"
    and "remote_head (fe_rb s') = remote_head (fe_rb s)" "commit_metadata (fe_rb s') = commit_metadata (fe_rb s)"
  shows "regions_recorded (published s' b) \<and> (Back_End.settled (published s' b) \<longleftrightarrow> Back_End.settled b)
    \<and> global_local_head (be_g (published s' b)) = remote_head (be_rb (published s' b))
    \<and> unreleased (published s' b) = es \<and> be_contents (published s' b) = fe_mem s
    \<and> commit_metadata (be_rb (published s' b)) = commit_metadata (be_rb b)"
proof -
  have "be_rb b = fe_rb s" "be_contents b = fe_mem s" "global_local_head (be_g b) = remote_head (fe_rb s)"
    using assms(1) by (simp_all add: in_sync_def)
  then show ?thesis
    using assms(2-5) by (simp add: unreleased_def replaying_def Back_End.settled_def regions_recorded_def)
qed

lemma published_log_survives:
  assumes "in_sync s b" "regions_recorded b" "replaying es (published s' b)"
    and "remote_head (fe_rb s') = remote_head (fe_rb s)" "commit_metadata (fe_rb s') = commit_metadata (fe_rb s)"
    and "\<forall>y. log_writes es y \<longrightarrow> in_table (rt (be_proc b)) y"
    and "regions_mappable k (rt (be_proc b))" "number_of_entries (rt (be_proc b)) \<noteq> 0"
  shows "survives_crash k infos s' b (apply_log es (fe_mem s))"
proof -
  have p: "regions_recorded (published s' b)" "global_local_head (be_g (published s' b)) = remote_head (be_rb (published s' b))"
      "unreleased (published s' b) = es" "be_contents (published s' b) = fe_mem s"
      "Back_End.settled (published s' b) \<longleftrightarrow> Back_End.settled b"
    using published_facts [OF assms(1-5)] by blast+
  have rm: "\<forall>y. log_writes es y \<longrightarrow> in_table (rt (be_proc (published s' b))) y"
      "regions_mappable k (rt (be_proc (published s' b)))" "number_of_entries (rt (be_proc (published s' b))) \<noteq> 0"
    using assms(6-8) by simp_all
  note cr = crash_then_recovery [OF assms(3) p(1,2) rm, where infos = infos, unfolded p(4,5)]
  have "(\<forall>t. (startup_step k infos)\<^sup>*\<^sup>* su t \<longrightarrow> su_fe_pc t = FE_running \<longrightarrow>
          (\<forall>y. in_table (rt (be_proc b)) y \<longrightarrow> load_byte (su_fe t) y = Some (apply_log es (fe_mem s) y)))
       \<and> (\<exists>t. (startup_step k infos)\<^sup>*\<^sup>* su t \<and> su_fe_pc t = FE_running)"
    if "length obs \<le> length es" "run_consumer k obs (published s' b) = Inr d"
      "Back_End.settled b \<or> has_commit (take (length obs) es)" "sem \<in> {None, Some 0}"
      "restart rpc d a sem tasks g0 = Inr su" for obs d sem rpc a tasks g0 su
    using cr [OF that(1,2,4,5,3)] by simp
  then show ?thesis unfolding survives_crash_def p(3) by blast
qed


section \<open>A crash before the first commit\<close>

text \<open>A front end of a new process restores nothing.\<close>

definition restores_nothing :: "proc_mem \<Rightarrow> startup \<Rightarrow> bool" where
  "restores_nothing p s \<longleftrightarrow> su_new s \<and> su_fe_pc s \<notin> {FE_wait, FE_restore} \<and> su_fe s = p"

lemma restores_nothing_step:
  assumes "restores_nothing p s" "startup_step k infos s s'"
  shows "restores_nothing p s'"
  using assms(2)
proof (rule startup_stepE)
  assume "start_front_end_step k s = Inr s'"
  then show ?thesis
    using assms(1) unfolding restores_nothing_def
    by (cases "su_fe_pc s") (auto simp: start_front_end_step_def dr_client_main_def state_defs)
next
  assume "start_back_end_step k infos s = Inr s'"
  then show ?thesis
    using assms(1) unfolding restores_nothing_def
    by (cases "su_be_pc s")
      (auto simp: start_back_end_step_def and_then_Inr split: option.splits nat.splits if_splits)
qed

interpretation nw: invariant_system "\<lambda>s. su_new s \<and> su_fe_pc s = FE_start \<and> su_fe s = p" "startup_step k infos"
    "restores_nothing p"
  by unfold_locales (auto intro: restores_nothing_step, simp add: restores_nothing_def)

lemma unnamed_restart_is_new:
  assumes "numberOfRegions (commit_metadata (be_rb d)) = 0" "restart rpc d a sem tasks g0 = Inr su"
  shows "su_new su \<and> su_fe_pc su = FE_start \<and> su_fe su = fresh_mem (files (pmem (be_proc d)))"
  using assms
  by (auto simp: restart_def launch_mangosteen_def ring_buffer_create_and_initialise_def region_table_create_or_open_def
      and_then_Inr new_process_def Let_def split: if_splits)

lemma unnamed_log_is_lost:
  assumes "in_sync s b" "regions_recorded b" "numberOfRegions (commit_metadata (be_rb b)) = 0" "replaying es (published s' b)"
    and "remote_head (fe_rb s') = remote_head (fe_rb s)" "commit_metadata (fe_rb s') = commit_metadata (fe_rb s)"
    and "length obs \<le> length es" "\<not> has_commit (take (length obs) es)" "run_consumer k obs (published s' b) = Inr d"
    and "restart rpc d a sem tasks g0 = Inr su" "(startup_step k' infos)\<^sup>*\<^sup>* su t"
  shows "su_new t \<and> (\<forall>y. load_byte (su_fe t) y = None)"
proof -
  note p = published_facts [OF assms(1,2,4-6)]
  have un: "unreleased (published s' b) = [] @ es" "valid_index (remote_head (be_rb (published s' b)))"
    using p assms(4) by (auto simp: replaying_def)
  have "numberOfRegions (commit_metadata (be_rb d)) = 0"
    using consumer_run [OF assms(4) _ un assms(7,9)] p assms(3,8) by auto
  from nw.inv_reachable [OF unnamed_restart_is_new [OF this assms(10)] assms(11)] show ?thesis
    by (simp add: restores_nothing_def load_byte_def fresh_mem_def)
qed

text \<open>
  The crash that loses the regions. In a first run the regions are recorded in the table, but the commit record
  of the log still says that there are none. Any transaction returns, and its log is committed; but when the back end dies
  before it has consumed a commit entry of it, then new processes take themselves for a first run: in every interleaving of
  their start-up, no byte of any recorded region is mapped, and the transaction is lost with everything else.
\<close>

lemma crash_before_first_commit_loses_regions:
  assumes "in_sync s b" "layout_ok L" "fits ops" "regions_recorded b" "numberOfRegions (commit_metadata (be_rb b)) = 0"
    and "\<forall>y. (\<exists>x\<in>set ops. \<exists>a\<in>op_blocks x. in_range a 32 y) \<longrightarrow> in_table (rt (be_proc b)) y"
  shows "\<exists>F s'. (\<forall>fuel\<ge>F. transaction fuel L r sv ops s l = Inr (s', l)) \<and>
    (\<forall>obs d sem rpc a tasks g0 su t. length obs \<le> length (unreleased (published s' b)) \<longrightarrow>
       \<not> has_commit (take (length obs) (unreleased (published s' b))) \<longrightarrow>
       run_consumer k obs (published s' b) = Inr d \<longrightarrow> restart rpc d a sem tasks g0 = Inr su \<longrightarrow>
       (startup_step k infos)\<^sup>*\<^sup>* su t \<longrightarrow> su_new t \<and> (\<forall>y. load_byte (su_fe t) y = None))"
proof -
  have "ops_mapped ops b" using assms(6) recorded_mapped [OF assms(4)] by (simp add: ops_mapped_def)
  from transaction_publishes [OF assms(1-3) this, of r sv l]
  obtain F s' es where s': "\<forall>fuel\<ge>F. transaction fuel L r sv ops s l = Inr (s', l)" "replaying es (published s' b)"
      "remote_head (fe_rb s') = remote_head (fe_rb s)" "commit_metadata (fe_rb s') = commit_metadata (fe_rb s)"
    by blast
  have es: "unreleased (published s' b) = es" using published_facts [OF assms(1,4) s'(2-4)] by blast
  note lost = unnamed_log_is_lost [OF assms(1,4,5) s'(2-4)]
  show ?thesis
    by (rule exI [of _ F], rule exI [of _ s']) (use s'(1) lost in \<open>unfold es, blast\<close>)
qed

section \<open>Witness\<close>

text \<open>
  One region of \<open>sz\<close> bytes at \<open>base\<close> in one file, and an idle front end with the same memory; \<open>n\<close> is the number of
  regions in the commit record of the log, 0 in a first run.
\<close>

definition region_backend :: "u32 \<Rightarrow> addr \<Rightarrow> u64 \<Rightarrow> mem \<Rightarrow> backend" where
  "region_backend n base sz m =
     \<lparr>be_rb = zero_ring_buffer\<lparr>commit_metadata := \<lparr>numberOfRegions = n, ringBufferHead = 0\<rparr>\<rparr>,
      be_g = \<lparr>global_local_head = 0, global_local_tail = 0, number_of_mmaped_memory_regions = ucast n\<rparr>,
      be_proc = \<lparr>rt = zero_region_table\<lparr>currentTableSize := INITIAL_TABLE_SIZE, number_of_entries := 1,
                   uncommited_number_of_entries := 1,
                   regionTable := (\<lambda>_. zero_region)(0 := \<lparr>address = base, file_index = 0, mmap_size = sz, entry_commit_index = 1\<rparr>)\<rparr>,
        sequenceNumber = 1,
        pmem = mmap_file base sz 0 \<lparr>vmap = (\<lambda>_. None), anon = (\<lambda>_. 0), files = [0 \<mapsto> read_bytes m base (unat sz)]\<rparr>\<rparr>\<rparr>"

definition region_memory :: "addr \<Rightarrow> u64 \<Rightarrow> mem \<Rightarrow> mem" where
  "region_memory base sz m = (\<lambda>x. if in_range base (unat sz) x then m x else 0)"

definition region_front :: "u32 \<Rightarrow> addr \<Rightarrow> u64 \<Rightarrow> mem \<Rightarrow> front" where
  "region_front n base sz m = (idle_front (region_memory base sz m))\<lparr>fe_rb := be_rb (region_backend n base sz m)\<rparr>"

lemma region_in_table: "in_table (rt (be_proc (region_backend n base sz m))) x \<longleftrightarrow> in_range base (unat sz) x"
proof -
  have "unat i < 1 \<longleftrightarrow> i = 0" for i :: u64 by (simp add: unat_eq_zero)
  then show ?thesis by (simp add: region_backend_def in_region_def)
qed

lemma region_recorded:
  "regions_recorded (region_backend n base sz m)" "no_alias (pmem (be_proc (region_backend n base sz m)))"
proof -
  have u: "unat i < 1 \<longleftrightarrow> i = 0" for i :: u64 by (simp add: unat_eq_zero)
  show na: "no_alias (pmem (be_proc (region_backend n base sz m)))"
    unfolding region_backend_def backend.simps rt_process.simps by (rule no_alias_mmap_file) (simp_all add: no_alias_def)
  then have "region_inv (be_proc (region_backend n base sz m))"
    by (auto simp: region_inv_def u region_backend_def files_match_def mmap_file_def in_region_def
        in_range_def zero_region_table_def unat_eq_zero split: if_splits)
  from region_inv_numbered [OF this] show "regions_recorded (region_backend n base sz m)"
    by (simp add: regions_recorded_def) (simp add: region_backend_def)
qed

lemma region_settled: "Back_End.settled (region_backend 1 base sz m)"
  by (simp add: Back_End.settled_def region_recorded(1)) (simp add: region_backend_def)

lemma region_contents: "be_contents (region_backend n base sz m) = region_memory base sz m"
  by (auto simp: region_backend_def contents_def load_byte_def mmap_file_def region_memory_def in_range_def nth_read_bytes
      fun_eq_iff)

lemma region_in_sync: "in_sync (region_front n base sz m) (region_backend n base sz m)"
  using idle_in_sync [of "region_memory base sz m"] region_recorded(2) [of n base sz m]
  by (simp add: in_sync_def region_contents region_front_def batch_cleared_def)
    (simp add: region_backend_def zero_ring_buffer_def idle_front_def)

lemma region_mappable: "regions_mappable accepting_kernel t"
  by (simp add: regions_mappable_def accepting_kernel_def)

lemma restart_returns: "\<exists>su. restart rpc d 64 sem tasks g0 = Inr su"
  by (simp add: restart_def launch_mangosteen_def ring_buffer_create_and_initialise_def region_table_create_or_open_def Let_def)

text \<open>A store of 24 bytes over a block boundary.\<close>

abbreviation example_ops :: "app_op list" where
  "example_ops \<equiv> [Store 0x40010 (replicate 24 7)]"

lemma example_ops_fit: "fits example_ops"
  by (simp add: fits_def example_blocks)

lemma example_ops_inside:
  "\<forall>y. (\<exists>x\<in>set example_ops. \<exists>a\<in>op_blocks x. in_range a 32 y) \<longrightarrow> in_table (rt (be_proc (region_backend n 0x40000 4096 m))) y"
proof -
  have bl: "op_blocks (Store 0x40010 (replicate 24 7)) = {0x40000, 0x40020}" by (simp add: op_blocks_def example_blocks)
  have "in_range 0x40000 4096 y" if "in_range 0x40020 32 y" for y
  proof -
    have "y - 0x40000 = (y - 0x40020) + 0x20" by simp
    then have "unat (y - 0x40000) \<le> unat (y - 0x40020) + 32" using unat_plus_if_size [of "y - 0x40020" "0x20"]
      by (simp add: word_size split: if_splits)
    then show ?thesis using that by (simp add: in_range_def)
  qed
  then show ?thesis unfolding region_in_table by (auto simp: bl in_range_def)
qed


lemma crash_before_first_commit_loses_regions_witness:
  "\<exists>fuel s' su. transaction fuel example_layout (\<lambda>_. 0) 0 example_ops (region_front 0 0x40000 4096 (\<lambda>_. 0)) [] = Inr (s', [])
    \<and> restart False (published s' (region_backend 0 0x40000 4096 (\<lambda>_. 0))) 64 None example_tasks (be_g example_backend) = Inr su
    \<and> (\<forall>t. (startup_step accepting_kernel [])\<^sup>*\<^sup>* su t \<longrightarrow> load_byte (su_fe t) 0x40020 = None)"
proof -
  let ?s = "region_front 0 0x40000 4096 (\<lambda>_. 0)" and ?b = "region_backend 0 0x40000 4096 (\<lambda>_. 0)"
  have "numberOfRegions (commit_metadata (be_rb ?b)) = 0" by (simp add: region_backend_def)
  from crash_before_first_commit_loses_regions [OF region_in_sync example_layout_ok example_ops_fit region_recorded(1)
      this example_ops_inside, of "\<lambda>_. 0" 0 "[]" accepting_kernel "[]"]
  obtain F s' where s': "\<forall>fuel\<ge>F. transaction fuel example_layout (\<lambda>_. 0) 0 example_ops ?s [] = Inr (s', [])"
      and lost: "\<forall>obs d sem rpc a tasks g0 su t. length obs \<le> length (unreleased (published s' ?b)) \<longrightarrow>
        \<not> has_commit (take (length obs) (unreleased (published s' ?b))) \<longrightarrow>
        run_consumer accepting_kernel obs (published s' ?b) = Inr d \<longrightarrow> restart rpc d a sem tasks g0 = Inr su \<longrightarrow>
        (startup_step accepting_kernel [])\<^sup>*\<^sup>* su t \<longrightarrow> su_new t \<and> (\<forall>y. load_byte (su_fe t) y = None)"
    by blast
  obtain su where su: "restart False (published s' ?b) 64 None example_tasks (be_g example_backend) = Inr su"
    using restart_returns by blast
  have "load_byte (su_fe t) 0x40020 = None" if "(startup_step accepting_kernel [])\<^sup>*\<^sup>* su t" for t
    using lost [rule_format, OF _ _ _ su that, of "[]"] by simp
  then show ?thesis using s' su by (metis order_refl)
qed

end
