(* ===== verification/Launch.thy ===== *)
theory Launch
  imports Startup
begin

text \<open>
  What happens around the start of the two processes, \<open>take_initial_checkpoint\<close>, \<open>configure_common_args\<close> and the
  call of \<open>fork\<close> in \<open>launch_mangosteen\<close> of \<^verbatim>\<open>mangosteen_instrumentation.c\<close>, and
  \<open>mangosteen_instrument_init_front_end\<close> of \<^verbatim>\<open>instrumentation/instrument_front_end.c\<close>. CRIU and DynamoRIO
  are external: what their calls return is an argument. Of the results the code gets, it looks at that of
  \<open>criu_dump\<close> only; the lemmas say what follows when one of the others is an error.
\<close>

section \<open>The checkpoint\<close>

text \<open>The options of a CRIU request, and what it answers.\<close>

record criu_opts =
  service_address :: string
  criu_pid :: int
  images_dir_fd :: int
  log_level :: int
  leave_running :: bool
  log_file :: string
  file_locks :: bool
  shell_job :: bool
  ext_sharing :: bool
  evasive_devices :: bool

record criu_service =
  default_opts :: criu_opts
  address_result :: int
  dump_result :: "criu_opts \<Rightarrow> int"

definition criu_socket :: string where "criu_socket = ''/home/vagrant/criu_service/criu_service.socket''"

text \<open>
  \<open>fd\<close> is what \<open>open\<close> returns for the directory of the image. The result has the lines that were printed and
  the options of the dump.
\<close>

definition take_initial_checkpoint :: "criu_service \<Rightarrow> int \<Rightarrow> int \<Rightarrow> (string list \<times> criu_opts) result" where
  "take_initial_checkpoint criu pid fd =
     (let printed = (if address_result criu \<noteq> 0 then [''Criu setup failed''] else []);
          opts = (default_opts criu)
            \<lparr>service_address := if address_result criu \<noteq> 0 then service_address (default_opts criu) else criu_socket,
             criu_pid := pid, images_dir_fd := fd, log_level := 4, leave_running := True, log_file := ''restore.log'',
             file_locks := True, shell_job := True, ext_sharing := True, evasive_devices := True\<rparr>
      in if dump_result criu opts < 0 then Inl ExitFailure else Inr (printed, opts))"

section \<open>The arguments of the instrumentation\<close>

record instrument_args =
  ia_state :: int
  ia_region_table :: addr
  ia_ringBuffer :: addr
  ia_writers :: addr

text \<open>\<open>writers_pointer\<close> is the address \<open>getWritersPointer\<close> returns.\<close>

definition configure_common_args :: "addr \<Rightarrow> addr \<Rightarrow> addr \<Rightarrow> instrument_args \<Rightarrow> instrument_args" where
  "configure_common_args table ringBuffer writers_pointer args =
     args\<lparr>ia_region_table := table, ia_ringBuffer := ringBuffer, ia_writers := writers_pointer\<rparr>"

text \<open>
  \<open>r\<close> is what \<open>dr_app_setup_and_start\<close> returns; the result has the lines that were printed, and does not
  tell whether DynamoRIO has started.
\<close>

definition mangosteen_instrument_init_front_end :: "int \<Rightarrow> string list \<times> int" where
  "mangosteen_instrument_init_front_end r = (if r \<noteq> 0 then [''failed to setup and start''] else [], 0)"

section \<open>The fork\<close>

text \<open>
  The whole of \<open>launch_mangosteen\<close> up to the fork. With the checkpoint goes what \<open>fork\<close> returns in the parent,
  and whether there is a back end.
\<close>

definition launch ::
    "criu_service \<Rightarrow> int \<Rightarrow> int \<Rightarrow> int \<Rightarrow> bool \<Rightarrow> ring_buffer option \<Rightarrow> addr option \<Rightarrow> region_table option \<Rightarrow> bool \<Rightarrow>
     nat option \<Rightarrow> proc_mem \<Rightarrow> task list \<Rightarrow> rb_globals \<Rightarrow> (bool \<times> startup) result" where
  "launch criu pid fd child rpc_mode rb_file rb_mapped rt_file rt_mapped sem p tasks g0 =
     and_then (take_initial_checkpoint criu pid fd) (\<lambda>_.
       and_then (launch_mangosteen rpc_mode rb_file rb_mapped rt_file rt_mapped sem p tasks g0) (\<lambda>s.
         Inr (0 < child, s)))"

text \<open>A parent whose fork has failed runs \<open>start_front_end\<close> as if it had succeeded.\<close>

inductive forked_step :: "bool \<Rightarrow> kernel \<Rightarrow> mem_info list \<Rightarrow> startup \<Rightarrow> startup \<Rightarrow> bool" for forked k infos where
  parent: "start_front_end_step k s = Inr s' \<Longrightarrow> forked_step forked k infos s s'"
| child: "forked \<Longrightarrow> start_back_end_step k infos s = Inr s' \<Longrightarrow> forked_step forked k infos s s'"

inductive_cases forked_stepE: "forked_step forked k infos s s'"

text \<open>With a back end these are the steps of \<open>Startup\<close>.\<close>

lemma forked_is_startup: "forked_step True k infos = startup_step k infos"
proof (intro ext iffI)
  fix s s'
  show "forked_step True k infos s s' \<Longrightarrow> startup_step k infos s s'"
    by (auto elim: forked_stepE intro: startup_step.intros)
  show "startup_step k infos s s' \<Longrightarrow> forked_step True k infos s s'"
    by (auto elim: startup_stepE intro: forked_step.intros)
qed

text \<open>Nothing is started unless the dump succeeded, whatever the other calls returned.\<close>

lemma launch_needs_dump:
  assumes "launch criu pid fd child rpc_mode rb_file rb_mapped rt_file rt_mapped sem p tasks g0 = Inr (forked, s)"
  shows "\<exists>opts. dump_result criu opts \<ge> 0 \<and> images_dir_fd opts = fd \<and> leave_running opts \<and> criu_pid opts = pid"
proof -
  obtain x where "take_initial_checkpoint criu pid fd = Inr x"
    using assms by (cases "take_initial_checkpoint criu pid fd") (simp_all add: launch_def)
  then show ?thesis by (auto simp: take_initial_checkpoint_def Let_def not_less split: if_splits)
qed

text \<open>
  After a failed fork a recovering front end waits for a semaphore that nobody posts: it never serves a
  request, and never ends.
\<close>

definition waits_alone :: "startup \<Rightarrow> bool" where
  "waits_alone s \<longleftrightarrow> \<not> su_new s \<and> (su_fe_pc s = FE_start \<and> (su_sem s = None \<or> su_sem s = Some 0)
     \<or> su_fe_pc s = FE_wait \<and> su_sem s = Some 0)"

interpretation alone: invariant_system "\<lambda>s. recovery_from None s0 s" "forked_step False k infos" waits_alone
proof unfold_locales
  fix s assume "recovery_from None s0 s"
  then show "waits_alone s" by (simp add: recovery_from_def waits_alone_def)
next
  fix s s' assume "waits_alone s" "forked_step False k infos s s'"
  then show "waits_alone s'"
    by (auto simp: waits_alone_def start_front_end_step_def sem_open_def split: fe_pc.splits elim!: forked_stepE)
qed

lemma failed_fork_blocks_recovery:
  assumes "recovery_from None s0 s" "(forked_step False k infos)\<^sup>*\<^sup>* s s'"
  shows "su_fe_pc s' \<in> {FE_start, FE_wait}"
  using alone.inv_reachable [OF assms] by (auto simp: waits_alone_def)

text \<open>
  In a first start the front end goes on without a back end: it serves requests whose log nobody
  consumes.
\<close>

lemma failed_fork_serves_alone:
  assumes "su_new s" "su_fe_pc s = FE_start"
  shows "\<exists>s'. (forked_step False k infos)\<^sup>*\<^sup>* s s' \<and> su_fe_pc s' = FE_running \<and> su_be s' = su_be s \<and> su_be_pc s' = su_be_pc s"
proof -
  define s1 where "s1 = s\<lparr>su_sem := sem_open (su_sem s), su_fe_pc := FE_attach\<rparr>"
  define s2 where "s2 = s1\<lparr>su_tasks := if su_rpc s1 then start_worker_threads 0 0 (su_tasks s1) else su_tasks s1,
    su_fe_pc := FE_post\<rparr>"
  define s3 where "s3 = s2\<lparr>su_sem := sem_post (su_sem s2), su_fe_pc := FE_ready\<rparr>"
  define s4 where "s4 = s3\<lparr>su_tasks := if su_rpc s3
      then map (\<lambda>t. t\<lparr>is_recovering := \<not> su_new s3, task_ready := READY_TO_INTIALISE\<rparr>) (su_tasks s3) else su_tasks s3,
    su_fe_pc := FE_running\<rparr>"
  note defs = s1_def s2_def s3_def s4_def
  let ?st = "forked_step False k infos"
  have "?st s s1" by (rule parent) (simp add: start_front_end_step_def s1_def assms)
  moreover have "?st s1 s2"
    by (rule parent) (simp add: start_front_end_step_def s1_def s2_def assms dr_client_main_def state_defs)
  moreover have "?st s2 s3" by (rule parent) (simp add: start_front_end_step_def s2_def s3_def)
  moreover have "?st s3 s4" by (rule parent) (simp add: start_front_end_step_def s3_def s4_def)
  ultimately have "?st\<^sup>*\<^sup>* s s4" by (meson converse_rtranclp_into_rtranclp rtranclp.rtrancl_refl)
  then show ?thesis by (intro exI [of _ s4]) (simp add: defs)
qed

end
