(* ===== verification/Local_Main.thy ===== *)
theory Local_Main
  imports Local_State_Machine Crash_Recovery
begin

text \<open>
  The whole program of the single-threaded example, \<^verbatim>\<open>examples/mangosteen_local/local_state_machine.c\<close>: what it
  prints in a first run, and what it prints when it is started again after a crash, which the comment at its
  top promises to be the text. The lines with an address or a process number are left out.
\<close>

section \<open>The program\<close>

text \<open>\<open>printf\<close> with \<open>%s\<close> of the array: the bytes up to the first zero byte, which must be inside the array.\<close>

fun c_string :: "byte list \<Rightarrow> byte list result" where
  "c_string [] = Inl OutOfBounds"
| "c_string (c # cs) = (if c = 0 then Inr [] else and_then (c_string cs) (\<lambda>t. Inr (c # t)))"

definition byte_char :: "byte \<Rightarrow> char" where
  "byte_char c = char_of (unat c)"

definition newline :: string where "newline = [CHR 0x0A]"

definition array_content :: "addr \<Rightarrow> mem \<Rightarrow> string result" where
  "array_content arr m =
     and_then (c_string (read_bytes m arr 4096)) (\<lambda>t. Inr (''Array content: '' @ map byte_char t @ newline))"

text \<open>The loop over \<open>strlen(test_string)\<close> characters.\<close>

definition array_characters :: "addr \<Rightarrow> mem \<Rightarrow> string" where
  "array_characters arr m = map byte_char (read_bytes m arr (length local_test_string)) @ newline"

text \<open>\<open>s\<close> is the front end when \<open>initialise_mangosteen\<close> has returned.\<close>

definition local_main ::
    "mangosteen_args \<Rightarrow> globals \<Rightarrow> addr \<Rightarrow> addr \<Rightarrow> front \<Rightarrow> u64 list \<Rightarrow> (string list \<times> front) result" where
  "local_main args g arr src s loads =
     and_then (initialise_mangosteen (Some (args\<lparr>mode := SINGLE_THREAD\<rparr>)) g) (\<lambda>_.
     and_then (array_content arr (fe_mem s)) (\<lambda>before.
     and_then (local_transaction arr src s loads) (\<lambda>(s', _).
     and_then (array_content arr (fe_mem s')) (\<lambda>after.
       Inr ([before, array_characters arr (fe_mem s), after], s')))))"

section \<open>Printing\<close>

lemma byte_char_of_char [simp]: "byte_char (of_char c) = c"
proof -
  have "unat (of_char c :: byte) = of_char c"
    using unat_of_nat [of "of_char c", where ?'a = 8] of_char_mod_256 [of c, where ?'a = nat] by (simp add: of_nat_of_char)
  then show ?thesis by (simp add: byte_char_def)
qed

lemma map_byte_char_text: "map byte_char text_bytes = local_test_string"
  by (simp add: text_bytes_def comp_def)

lemma c_string_append: "0 \<notin> set xs \<Longrightarrow> c_string (xs @ 0 # ys) = Inr xs"
  by (induction xs) auto

lemma text_bytes_nonzero: "0 \<notin> set text_bytes"
  by (simp add: text_bytes_def local_test_string_def)

lemma read_bytes_split: "k \<le> n \<Longrightarrow> read_bytes m a n = read_bytes m a k @ read_bytes m (a + of_nat k) (n - k)"
  by (rule nth_equalityI) (auto simp: nth_append nth_read_bytes)

text \<open>The array with the text at its start.\<close>

lemma array_with_text:
  assumes "read_bytes m arr 378 = text_bytes" "m (arr + 378) = 0"
  shows "array_content arr m = Inr (''Array content: '' @ local_test_string @ newline)"
proof -
  have "read_bytes m arr 4096 = text_bytes @ read_bytes m (arr + 378) 3718"
    using read_bytes_split [of 378 4096 m arr] assms(1) by simp
  moreover have "read_bytes m (arr + 378) 1 = [0]" using assms(2) by (simp add: read_bytes_def)
  then obtain ys where "read_bytes m (arr + 378) 3718 = 0 # ys" using read_bytes_split [of 1 3718 m "arr + 378"] by simp
  ultimately have "c_string (read_bytes m arr 4096) = Inr text_bytes"
    using c_string_append [OF text_bytes_nonzero] by simp
  then show ?thesis by (simp add: array_content_def map_byte_char_text)
qed

lemma empty_array:
  assumes "read_bytes m arr 4096 = replicate 4096 0"
  shows "array_content arr m = Inr (''Array content: '' @ newline)"
    "array_characters arr m = replicate 378 (CHR 0x00) @ newline" "m (arr + 378) = 0"
proof -
  have m: "m (arr + of_nat i) = 0" if "i < 4096" for i
    using arg_cong [OF assms, of "\<lambda>xs. xs ! i"] that by (simp add: nth_read_bytes)
  have "replicate 4096 0 = 0 # replicate 4095 (0 :: byte)" by (simp add: numeral_eq_Suc)
  then show "array_content arr m = Inr (''Array content: '' @ newline)" using assms by (simp add: array_content_def)
  have "read_bytes m arr 378 = replicate 378 0" using m by (intro nth_equalityI) (simp_all add: nth_read_bytes)
  moreover have "byte_char 0 = CHR 0x00" using byte_char_of_char [of "CHR 0x00"] by simp
  ultimately show "array_characters arr m = replicate 378 (CHR 0x00) @ newline" by (simp add: array_characters_def)
  show "m (arr + 378) = 0" using m [of 378] by simp
qed

lemma array_content_cong:
  assumes "\<And>x. in_range arr 4096 x \<Longrightarrow> m x = m' x"
  shows "array_content arr m = array_content arr m'"
proof -
  have "in_range arr 4096 (arr + of_nat i)" if "i < 4096" for i
    using that by (simp add: in_range_def unat_of_nat)
  then have "read_bytes m arr 4096 = read_bytes m' arr 4096"
    using assms by (intro nth_equalityI) (simp_all add: nth_read_bytes)
  then show ?thesis by (simp add: array_content_def)
qed

text \<open>The text copied into an empty array.\<close>

lemma text_after_copy:
  assumes "read_bytes m arr 4096 = replicate 4096 0"
  shows "array_content arr (write_bytes m arr text_bytes) = Inr (''Array content: '' @ local_test_string @ newline)"
proof (rule array_with_text)
  show "read_bytes (write_bytes m arr text_bytes) arr 378 = text_bytes" using read_write_bytes [of text_bytes] by simp
  have "\<not> in_range arr 378 (arr + 378)" by (simp add: in_range_def)
  then show "write_bytes m arr text_bytes (arr + 378) = 0"
    using empty_array(3) [OF assms] write_bytes_outside [of arr text_bytes "arr + 378"] by simp
qed

section \<open>The text survives a crash\<close>

text \<open>The log of the transaction.\<close>

lemma local_log:
  assumes "in_sync s b" "read_bytes (fe_mem s) src 378 = text_bytes"
    and "\<forall>x. in_range arr 384 x \<longrightarrow> be_mapped b x"
  shows "\<exists>s' es. local_transaction arr src s l = Inr (s', l) \<and> replaying es (published s' b)
    \<and> (\<forall>x. log_writes es x \<longrightarrow> in_range arr 384 x)
    \<and> apply_log es (fe_mem s) = write_bytes (fe_mem s) arr text_bytes \<and> fe_mem s' = write_bytes (fe_mem s) arr text_bytes
    \<and> remote_head (fe_rb s') = remote_head (fe_rb s) \<and> commit_metadata (fe_rb s') = commit_metadata (fe_rb s)"
proof -
  let ?e = "\<lparr>me_start = arr, me_end = arr + 378\<rparr>" and ?m = "write_bytes (fe_mem s) arr text_bytes"
  have sy: "batch_cleared s" "length (ma_array (memcpyArray (data s))) = 100"
    using assms(1) by (simp_all add: in_sync_def MAX_NUM_OF_MEMCPY_def)
  have "combiner (data (instrument_start s)) = 1" "ma_count (memcpyArray (data (instrument_start s))) < length (ma_array (memcpyArray (data (instrument_start s))))"
    using sy by (simp_all add: instrument_start_def batch_cleared_def)
  define s1 where "s1 = (instrument_start s)\<lparr>data := (data (instrument_start s))\<lparr>memcpyArray := (memcpyArray (data s))
      \<lparr>ma_array := (ma_array (memcpyArray (data s)))[0 := ?e], ma_count := 1\<rparr>\<rparr>, fe_mem := ?m\<rparr>"
  have t: "local_transaction arr src s l = instrument_stop s1 l"
    using sy assms(2)
    by (simp add: local_transaction_def instrumented_memcpy_def instrument_start_def record_memcpy_def batch_cleared_def s1_def)
  have rc: "recorded_copies s1 = [?e]" and pb: "payload_blocks s1 = []"
    using sy by (simp_all add: recorded_copies_def payload_blocks_def s1_def batch_cleared_def instrument_start_def take_Suc_conv_app_nth)
  then have bb: "batch_blocks s1 = memcpy_blocks ?e" by (simp add: batch_blocks_def)
  have "buffers_ok s1" using sy by (simp add: buffers_ok_def s1_def batch_cleared_def instrument_start_def)
  moreover have "sum_list (map (\<lambda>e. length (memcpy_blocks e) + 1) (recorded_copies s1)) + ob_size (fe_overflow s1) + 1025 \<le> 65535"
    using sy by (simp add: rc text_blocks) (simp add: s1_def batch_cleared_def instrument_start_def)
  moreover have "\<forall>x. (\<exists>a\<in>set (batch_blocks s1). in_range a 32 x) \<longrightarrow> be_mapped b x"
    using assms(3) text_blocks_inside [of _ arr] unfolding bb by blast
  moreover have "fe_rb s1 = fe_rb s" "fe_mem s1 = ?m" by (simp_all add: s1_def instrument_start_def)
  moreover from this have "valid_index (last_persisted_head (fe_rb s1))" "last_persisted_tail (fe_rb s1) = last_persisted_head (fe_rb s1)"
      "remote_head (fe_rb s1) = last_persisted_head (fe_rb s1)" "global_local_head (be_g b) = last_persisted_head (fe_rb s1)"
      "no_alias (pmem (be_proc b))"
    using assms(1) by (simp_all add: in_sync_def)
  ultimately obtain s' es where s': "instrument_stop s1 l = Inr (s', l)" "replaying es (published s' b)"
      "\<forall>x. log_writes es x \<longleftrightarrow> (\<exists>a\<in>set (memcpy_blocks ?e). in_range a 32 x)"
      "\<And>m x. m x = ?m x \<or> (\<exists>a\<in>set (memcpy_blocks ?e). in_range a 32 x) \<Longrightarrow> apply_log es m x = ?m x"
      "fe_mem s' = ?m" "remote_head (fe_rb s') = remote_head (fe_rb s)" "commit_metadata (fe_rb s') = commit_metadata (fe_rb s)"
    using batch_log [of s1 b l, unfolded bb] bb by metis
  have "apply_log es (fe_mem s) x = ?m x" for x
  proof (cases "in_range arr 378 x")
    case True
    then show ?thesis using s'(4) memcpy_blocks_cover [of 378 arr x] by simp
  next
    case False
    then show ?thesis using s'(4) [of "fe_mem s" x] write_bytes_outside [of arr text_bytes x] by simp
  qed
  then have "apply_log es (fe_mem s) = ?m" by (rule ext)
  then show ?thesis using s' t text_blocks_inside [of _ arr] by metis
qed

text \<open>
  C10: The text of the single-threaded example survives a crash, from the moment the back end has consumed the first
  commit. In its first run \<open>main\<close> prints an empty array, executes its transaction, prints the text, and returns;
  its log has a commit entry, and the back end can consume all of it. The machine then crashes, with the back end anywhere in the log, and the program is
  started again, with no semaphore or one of value 0. If the commit record of the log named the regions already, or
  the back end has consumed a commit entry, then in every interleaving of the start-up the array that \<open>main\<close>
  prints first holds the text, as the comment at the top of the example says, and the start-up can be completed.
  Otherwise, when the commit record names no region yet, as in a first run, the program starts as a new
  process: no byte of the old regions is mapped, and the array is empty.
\<close>

theorem local_text_survives_crash:
  assumes "\<not> imangosteen_initialized g" "in_sync s b" "regions_recorded b"
    and "read_bytes (fe_mem s) src 378 = text_bytes" "read_bytes (fe_mem s) arr 4096 = replicate 4096 0"
    and "\<forall>x. in_range arr 4096 x \<longrightarrow> in_table (rt (be_proc b)) x" "regions_mappable k (rt (be_proc b))"
  shows "\<exists>s'. local_main args g arr src s l =
      Inr ([''Array content: '' @ newline, replicate 378 (CHR 0x00) @ newline, ''Array content: '' @ local_test_string @ newline], s') \<and>
    has_commit (unreleased (published s' b)) \<and>
    (\<exists>obs d. length obs = length (unreleased (published s' b)) \<and> run_consumer k obs (published s' b) = Inr d) \<and>
    (\<forall>obs d sem a tasks g0 su. length obs \<le> length (unreleased (published s' b)) \<longrightarrow>
       run_consumer k obs (published s' b) = Inr d \<longrightarrow> sem \<in> {None, Some 0} \<longrightarrow> restart False d a sem tasks g0 = Inr su \<longrightarrow>
       (Back_End.settled b \<or> has_commit (take (length obs) (unreleased (published s' b))) \<longrightarrow>
          (\<forall>t. (startup_step k infos)\<^sup>*\<^sup>* su t \<longrightarrow> su_fe_pc t = FE_running \<longrightarrow>
             array_content arr (contents (su_fe t)) = Inr (''Array content: '' @ local_test_string @ newline))
          \<and> (\<exists>t. (startup_step k infos)\<^sup>*\<^sup>* su t \<and> su_fe_pc t = FE_running))
       \<and> (numberOfRegions (commit_metadata (be_rb b)) = 0 \<longrightarrow>
          \<not> has_commit (take (length obs) (unreleased (published s' b))) \<longrightarrow>
          (\<forall>t. (startup_step k infos)\<^sup>*\<^sup>* su t \<longrightarrow> su_new t \<and> (\<forall>y. load_byte (su_fe t) y = None))))"
proof -
  let ?m = "write_bytes (fe_mem s) arr text_bytes" and ?line = "''Array content: '' @ local_test_string @ newline"
  have tab: "in_table (rt (be_proc b)) x" if "in_range arr 384 x" for x
    using that assms(6) by (simp add: in_range_def)
  obtain s' es where s': "local_transaction arr src s l = Inr (s', l)" "replaying es (published s' b)"
      "\<forall>x. log_writes es x \<longrightarrow> in_range arr 384 x" "apply_log es (fe_mem s) = ?m" "fe_mem s' = ?m"
      "remote_head (fe_rb s') = remote_head (fe_rb s)" "commit_metadata (fe_rb s') = commit_metadata (fe_rb s)"
    using local_log [OF assms(2,4), of arr l] recorded_mapped [OF assms(3)] tab by blast
  have z: "array_content arr ?m = Inr ?line" using text_after_copy [OF assms(5)] .
  have "\<exists>x. initialise_mangosteen (Some (args\<lparr>mode := SINGLE_THREAD\<rparr>)) g = Inr x"
    using assms(1) by (simp add: initialise_mangosteen_def Let_def)
  then have main: "local_main args g arr src s l =
      Inr ([''Array content: '' @ newline, replicate 378 (CHR 0x00) @ newline, ?line], s')"
    using s'(1,5) empty_array [OF assms(5)] z by (auto simp: local_main_def)
  have "in_table (rt (be_proc b)) arr" using tab by simp
  then have ne: "number_of_entries (rt (be_proc b)) \<noteq> 0" by auto
  have "\<forall>x. log_writes es x \<longrightarrow> in_table (rt (be_proc b)) x" using s'(3) tab by blast
  from published_log_survives [OF assms(2,3) s'(2,6,7) this assms(7) ne, of infos]
  have cr: "survives_crash k infos s' b ?m" unfolding s'(4) .
  have un: "unreleased (published s' b) = es" using published_facts [OF assms(2,3) s'(2,6,7)] by blast
  have "es \<noteq> []"
  proof
    assume "es = []"
    then have "?m = fe_mem s" using s'(4) by simp
    then show False using empty_array [OF assms(5)] z by (simp add: newline_def local_test_string_def)
  qed
  then have hc: "has_commit es"
    using s'(2) last_in_set [of es] unfolding replaying_def has_commit_def by blast
  note lost = unnamed_log_is_lost [OF assms(2,3) _ s'(2,6,7)]
  have "array_content arr (contents (su_fe t)) = Inr ?line"
    if "\<forall>y. in_table (rt (be_proc b)) y \<longrightarrow> load_byte (su_fe t) y = Some (?m y)" for t
  proof -
    have "contents (su_fe t) x = ?m x" if "in_range arr 4096 x" for x
      using \<open>\<forall>y. in_table (rt (be_proc b)) y \<longrightarrow> load_byte (su_fe t) y = Some (?m y)\<close> assms(6) that
      by (simp add: contents_def)
    then show ?thesis using array_content_cong [of arr "contents (su_fe t)" ?m] z by simp
  qed
  note line = this
  show ?thesis
  proof (rule exI [of _ s'], intro conjI allI impI)
    fix obs d sem a tasks g0 su
    assume o: "length obs \<le> length (unreleased (published s' b))" "run_consumer k obs (published s' b) = Inr d"
      "sem \<in> {None, Some (0 :: nat)}" "restart False d a sem tasks g0 = Inr su"
    {
      assume c: "Back_End.settled b \<or> has_commit (take (length obs) (unreleased (published s' b)))"
      note sv = cr [unfolded survives_crash_def, rule_format, OF o(1,2) c o(3,4)]
      show "array_content arr (contents (su_fe t)) = Inr ?line"
        if "(startup_step k infos)\<^sup>*\<^sup>* su t" "su_fe_pc t = FE_running" for t
        using line sv that by blast
      show "\<exists>t. (startup_step k infos)\<^sup>*\<^sup>* su t \<and> su_fe_pc t = FE_running" using sv by blast
    }
    assume n: "numberOfRegions (commit_metadata (be_rb b)) = 0"
      "\<not> has_commit (take (length obs) (unreleased (published s' b)))"
    fix t assume "(startup_step k infos)\<^sup>*\<^sup>* su t"
    from lost [OF n(1) o(1) [unfolded un] n(2) [unfolded un] o(2,4) this]
    show "su_new t" "load_byte (su_fe t) y = None" for y by blast+
  qed (use main hc un consumer_completes [OF s'(2), of k] in simp_all)
qed

section \<open>Witness\<close>

text \<open>A region of two pages: the array in the first, the text in the second.\<close>

definition text_memory :: mem where
  "text_memory = write_bytes (\<lambda>_. 0) 0x41000 text_bytes"

theorem local_text_survives_crash_witness:
  "\<exists>s' obs d su t su0. local_main example_args \<lparr>imangosteen_initialized = False, callbacks_set = callback_table.truncate example_args\<rparr>
        0x40000 0x41000 (region_front 0 0x40000 8192 text_memory) [] =
      Inr ([''Array content: '' @ newline, replicate 378 (CHR 0x00) @ newline, ''Array content: '' @ local_test_string @ newline], s')
    \<and> run_consumer accepting_kernel obs (published s' (region_backend 0 0x40000 8192 text_memory)) = Inr d
    \<and> restart False d 64 None example_tasks (be_g example_backend) = Inr su
    \<and> (startup_step accepting_kernel [])\<^sup>*\<^sup>* su t \<and> su_fe_pc t = FE_running
    \<and> array_content 0x40000 (contents (su_fe t)) = Inr (''Array content: '' @ local_test_string @ newline)
    \<and> restart False (published s' (region_backend 0 0x40000 8192 text_memory)) 64 None example_tasks (be_g example_backend) = Inr su0
    \<and> su_new su0"
proof -
  let ?b = "region_backend 0 0x40000 8192 text_memory" and ?s = "region_front 0 0x40000 8192 text_memory"
  let ?g = "\<lparr>imangosteen_initialized = False, callbacks_set = callback_table.truncate example_args\<rparr>"
  let ?k = accepting_kernel
  have m: "fe_mem ?s = region_memory 0x40000 8192 text_memory" by (simp add: region_front_def idle_front_def)
  have u: "unat (of_nat i :: u64) = i" if "i < 8192" for i using that by (simp add: unat_of_nat)
  have src: "read_bytes (fe_mem ?s) 0x41000 378 = text_bytes"
  proof (rule nth_equalityI)
    fix i assume "i < length (read_bytes (fe_mem ?s) 0x41000 378)"
    then have i: "i < 378" by simp
    have "0x41000 + of_nat i - 0x40000 = (of_nat (4096 + i) :: u64)" by simp
    then have "in_range 0x40000 8192 (0x41000 + of_nat i)" using u [of "4096 + i"] i by (simp only: in_range_def)
    moreover have "text_memory (0x41000 + of_nat i) = text_bytes ! i"
      using i u [of i] by (simp add: text_memory_def write_bytes_def)
    ultimately show "read_bytes (fe_mem ?s) 0x41000 378 ! i = text_bytes ! i"
      using i by (simp add: nth_read_bytes m region_memory_def)
  qed simp
  have arr: "read_bytes (fe_mem ?s) 0x40000 4096 = replicate 4096 0"
  proof (rule nth_equalityI)
    fix i assume "i < length (read_bytes (fe_mem ?s) 0x40000 4096)"
    then have i: "i < 4096" by simp
    have "read_bytes text_memory 0x40000 4096 = read_bytes (\<lambda>_. 0) 0x40000 4096"
      unfolding text_memory_def by (rule read_bytes_write_apart) (simp add: apart_def)
    then have "read_bytes text_memory 0x40000 4096 ! i = 0" using i by (simp add: nth_read_bytes)
    then show "read_bytes (fe_mem ?s) 0x40000 4096 ! i = replicate 4096 0 ! i"
      using i by (simp add: nth_read_bytes m region_memory_def)
  qed simp
  have tab: "\<forall>x. in_range 0x40000 4096 x \<longrightarrow> in_table (rt (be_proc ?b)) x" unfolding region_in_table by (simp add: in_range_def)
  have g0: "\<not> imangosteen_initialized ?g" by simp
  obtain s' obs d where s': "local_main example_args ?g 0x40000 0x41000 ?s [] =
      Inr ([''Array content: '' @ newline, replicate 378 (CHR 0x00) @ newline, ''Array content: '' @ local_test_string @ newline], s')"
      "has_commit (unreleased (published s' ?b))"
    and d: "length obs = length (unreleased (published s' ?b))" "run_consumer ?k obs (published s' ?b) = Inr d"
    and cr: "\<forall>obs d sem a tasks g0 su. length obs \<le> length (unreleased (published s' ?b)) \<longrightarrow>
       run_consumer ?k obs (published s' ?b) = Inr d \<longrightarrow> sem \<in> {None, Some 0} \<longrightarrow> restart False d a sem tasks g0 = Inr su \<longrightarrow>
       (Back_End.settled ?b \<or> has_commit (take (length obs) (unreleased (published s' ?b))) \<longrightarrow>
          (\<forall>t. (startup_step ?k [])\<^sup>*\<^sup>* su t \<longrightarrow> su_fe_pc t = FE_running \<longrightarrow>
             array_content 0x40000 (contents (su_fe t)) = Inr (''Array content: '' @ local_test_string @ newline))
          \<and> (\<exists>t. (startup_step ?k [])\<^sup>*\<^sup>* su t \<and> su_fe_pc t = FE_running))
       \<and> (numberOfRegions (commit_metadata (be_rb ?b)) = 0 \<longrightarrow>
          \<not> has_commit (take (length obs) (unreleased (published s' ?b))) \<longrightarrow>
          (\<forall>t. (startup_step ?k [])\<^sup>*\<^sup>* su t \<longrightarrow> su_new t \<and> (\<forall>y. load_byte (su_fe t) y = None)))"
    using local_text_survives_crash [OF g0 region_in_sync region_recorded(1) src arr tab region_mappable, of example_args "[]" "[]"]
    by (elim exE conjE) (rule that)
  obtain su su0 where su: "restart False d 64 None example_tasks (be_g example_backend) = Inr su"
      "restart False (published s' ?b) 64 None example_tasks (be_g example_backend) = Inr su0"
    using restart_returns by metis
  have "numberOfRegions (commit_metadata (be_rb ?b)) = 0" by (simp add: region_backend_def)
  then have "su_new su0" using cr [rule_format, OF _ _ _ su(2), of "[]"] by simp
  moreover obtain t where "(startup_step ?k [])\<^sup>*\<^sup>* su t" "su_fe_pc t = FE_running"
      "array_content 0x40000 (contents (su_fe t)) = Inr (''Array content: '' @ local_test_string @ newline)"
    using cr [rule_format, OF eq_imp_le [OF d(1)] d(2) _ su(1)] d(1) s'(2) by auto
  ultimately show ?thesis using s'(1) d(2) su by blast
qed

end
