(* ===== verification/Text_Copy_Main.thy ===== *)
theory Text_Copy_Main
  imports Text_Copy Startup
begin

text \<open>
  The program around \<open>Text_Copy\<close>, \<open>main\<close>, \<open>executeTextCopy\<close> and \<open>runWorkerThread\<close> of
  \<^verbatim>\<open>examples/mangosteen_local_multi_thread/local_state_machine_multithread.c\<close>: the main thread creates the
  workers and joins them, every worker registers with the library and issues commands until the text is
  copied. The threads run interleaved, and inside the library they run by the steps of \<open>Flat_Combining\<close>.

  \<open>taskArray\<close> is allocated and not initialised: until a thread registers, its entry holds what the allocated
  memory held, and a combiner looks at all entries. What then holds, and what goes wrong otherwise, is
  stated at the end.
\<close>

section \<open>The program\<close>

datatype worker = Not_created | Created | Looping nat | Calling nat | Finished

datatype main_pc = Creating nat | Joining nat | Returned "unit result"

text \<open>
  The fields of \<open>taskArray\<close> that flat combining works on are in \<open>pr_fc\<close>, the others in \<open>pr_tasks\<close>. The number
  of a worker that is in its loop or in a call of the library is the index it got when it registered.
\<close>

record text_program =
  pr_fc :: "(serialized_app_command, state_machine result) fc"
  pr_tasks :: "task list"
  global_thread_count :: nat
  pr_workers :: "nat \<Rightarrow> worker"
  pr_main :: main_pc

text \<open>What \<open>allocateFlatCombiningdMemory\<close> leaves, over allocated memory that held \<open>garbage\<close> and \<open>entries\<close>.\<close>

definition allocateFlatCombiningdMemory ::
    "u32 list \<Rightarrow> (nat \<Rightarrow> 'c thread_entry) \<Rightarrow> 'a \<Rightarrow> ('c, 'a) fc" where
  "allocateFlatCombiningdMemory garbage entries a =
     \<lparr>lock = allocate_lock garbage, taskArray = entries, thread_pc = (\<lambda>_. Idle), thread_mmap = (\<lambda>_. MNone),
      combiner_of = (\<lambda>_. 0), app = a, history = [], requested = (\<lambda>_. [])\<rparr>"

definition text_copy_args :: "mangosteen_args \<Rightarrow> mangosteen_args" where
  "text_copy_args garbage =
     garbage\<lparr>cb_processRequest := App_function 1, cb_isReadOnly := App_function 2, mode := MULTI_THREAD\<rparr>"

text \<open>
  \<open>main\<close> up to the first \<open>pthread_create\<close>, with what it prints. When the library returns, the memory is that of
  the process itself, or the block is the one the back end kept.
\<close>

definition text_copy_main ::
    "bool \<Rightarrow> bool \<Rightarrow> bool \<Rightarrow> mangosteen_args \<Rightarrow> globals \<Rightarrow> string option \<Rightarrow> u32 list \<Rightarrow>
     (nat \<Rightarrow> serialized_app_command thread_entry) \<Rightarrow> task list \<Rightarrow> state_machine \<Rightarrow> (string \<times> text_program) result" where
  "text_copy_main opened truncated mapped_ok args g restored garbage entries tasks m =
     and_then (initializeStateMachine opened truncated mapped_ok m) (\<lambda>m1.
     and_then (initialise_mangosteen (Some (text_copy_args args)) g) (\<lambda>_.
     let m2 = (case restored of None \<Rightarrow> m1 | Some a \<Rightarrow> m1\<lparr>arr := a\<rparr>) in
     and_then (strlen (arr m2)) (\<lambda>n.
     and_then (start_text_copy m2) (\<lambda>m3.
       Inr (''Array content: '' @ take n (arr m2) @ [CHR 0x0A],
            \<lparr>pr_fc = allocateFlatCombiningdMemory garbage entries (Inr m3), pr_tasks = tasks,
             global_thread_count = 0, pr_workers = (\<lambda>_. Not_created), pr_main = Creating 0\<rparr>)))))"

text \<open>
  What happens next: the main thread goes on; a worker registers; it tests the condition of its loop and, with
  a random bit, calls the library; it runs inside the library, or maps memory there; the call returns.
  \<open>created i\<close> says whether the \<open>pthread_create\<close> of worker \<open>i\<close> succeeds, which the program does not
  check. Waiting is \<open>None\<close>.
\<close>

datatype text_event = Main | Register nat | Loop nat int | Inside nat | Mapping nat | Return nat

definition set_worker :: "nat \<Rightarrow> worker \<Rightarrow> text_program \<Rightarrow> text_program" where
  "set_worker w p s = s\<lparr>pr_workers := (pr_workers s)(w := p)\<rparr>"

text \<open>The two loops of \<open>executeTextCopy\<close> and its assertion.\<close>

definition executeTextCopy :: "(nat \<Rightarrow> bool) \<Rightarrow> text_program \<Rightarrow> text_program option" where
  "executeTextCopy created s =
     (case pr_main s of
        Creating i \<Rightarrow>
          if i < NUMBER_OF_THREADS
          then Some ((if created i then set_worker i Created s else s)\<lparr>pr_main := Creating (Suc i)\<rparr>)
          else Some (s\<lparr>pr_main := Joining 0\<rparr>)
      | Joining i \<Rightarrow>
          if i < NUMBER_OF_THREADS
          then (case pr_workers s i of
                  Finished \<Rightarrow> Some (s\<lparr>pr_main := Joining (Suc i)\<rparr>)
                | Not_created \<Rightarrow> Some (s\<lparr>pr_main := Returned (Inl SegFault)\<rparr>)
                | _ \<Rightarrow> None)
          else Some (s\<lparr>pr_main := Returned (and_then (app (pr_fc s)) finish_text_copy)\<rparr>)
      | Returned r \<Rightarrow> None)"

text \<open>Registration and the loop of \<open>runWorkerThread\<close>.\<close>

definition register_worker :: "nat \<Rightarrow> text_program \<Rightarrow> text_program option" where
  "register_worker w s =
     (if pr_workers s w = Created
      then case mangosteen_initialize_thread (global_thread_count s) (pr_tasks s) of
             Inl e \<Rightarrow> Some (s\<lparr>pr_main := Returned (Inl e)\<rparr>)
           | Inr (i, n, tasks) \<Rightarrow>
               Some (set_worker w (Looping i)
                 (s\<lparr>global_thread_count := n, pr_tasks := tasks, pr_fc := set_ready i (task_ready (tasks ! i)) (pr_fc s)\<rparr>))
      else None)"

definition runWorkerThread :: "nat \<Rightarrow> int \<Rightarrow> text_program \<Rightarrow> text_program option" where
  "runWorkerThread w randomBit s =
     (case (pr_workers s w, app (pr_fc s)) of
        (Looping i, Inr m) \<Rightarrow>
          if worker_continues m
          then map_option (\<lambda>f. set_worker w (Calling i) (s\<lparr>pr_fc := f\<rparr>))
                 (do_move text_copy_callbacks (Request i (worker_command randomBit)) (pr_fc s))
          else Some (set_worker w Finished s)
      | _ \<Rightarrow> None)"

definition in_library :: "nat \<Rightarrow> (nat \<Rightarrow> serialized_app_command move) \<Rightarrow> text_program \<Rightarrow> text_program option" where
  "in_library w mv s =
     (case pr_workers s w of
        Calling i \<Rightarrow> map_option (\<lambda>f. s\<lparr>pr_fc := f\<rparr>) (do_move text_copy_callbacks (mv i) (pr_fc s))
      | _ \<Rightarrow> None)"

definition return_to_worker :: "nat \<Rightarrow> text_program \<Rightarrow> text_program option" where
  "return_to_worker w s =
     (case pr_workers s w of
        Calling i \<Rightarrow>
          if thread_pc (pr_fc s) i = Idle \<and> thread_mmap (pr_fc s) i = MNone
          then Some (set_worker w (Looping i) s) else None
      | _ \<Rightarrow> None)"

fun do_text_event :: "(nat \<Rightarrow> bool) \<Rightarrow> text_event \<Rightarrow> text_program \<Rightarrow> text_program option" where
  "do_text_event created Main s = executeTextCopy created s"
| "do_text_event created (Register w) s = register_worker w s"
| "do_text_event created (Loop w randomBit) s = runWorkerThread w randomBit s"
| "do_text_event created (Inside w) s = in_library w Run s"
| "do_text_event created (Mapping w) s = in_library w Map s"
| "do_text_event created (Return w) s = return_to_worker w s"

text \<open>The process ends when \<open>main\<close> returns or something faults.\<close>

inductive text_step :: "(nat \<Rightarrow> bool) \<Rightarrow> text_program \<Rightarrow> text_program \<Rightarrow> bool" for created where
  event: "\<forall>r. pr_main s \<noteq> Returned r \<Longrightarrow> do_text_event created e s = Some s' \<Longrightarrow> text_step created s s'"

inductive_cases text_stepE: "text_step created s s'"

fun do_text_events :: "(nat \<Rightarrow> bool) \<Rightarrow> text_event list \<Rightarrow> text_program \<Rightarrow> text_program option" where
  "do_text_events created [] s = Some s"
| "do_text_events created (e # es) s =
     (case pr_main s of
        Returned r \<Rightarrow> None
      | _ \<Rightarrow> (case do_text_event created e s of None \<Rightarrow> None | Some s' \<Rightarrow> do_text_events created es s'))"

lemma do_text_events_run: "do_text_events created es s = Some s' \<Longrightarrow> (text_step created)\<^sup>*\<^sup>* s s'"
proof (induction es arbitrary: s)
  case (Cons e es)
  then obtain u where u: "do_text_event created e s = Some u" "do_text_events created es u = Some s'"
      "\<forall>r. pr_main s \<noteq> Returned r"
    by (auto split: main_pc.splits option.splits)
  then have "text_step created s u" by (blast intro: event)
  with Cons.IH [OF u(2)] show ?case by (meson converse_rtranclp_into_rtranclp)
qed simp

section \<open>Entries nobody has registered\<close>

text \<open>
  Flat combining does not notice what the entries of threads hold that have not registered, unless they look
  ready: seen through \<open>masked\<close>, which shows them as free, the steps are the same.
\<close>

definition masked :: "nat \<Rightarrow> ('c, 'a) fc \<Rightarrow> ('c, 'a) fc" where
  "masked n f = f\<lparr>taskArray := (\<lambda>t. if t < n then taskArray f t else (taskArray f t)\<lparr>ready := NONE\<rparr>)\<rparr>"

definition unready :: "nat \<Rightarrow> ('c, 'a) fc \<Rightarrow> bool" where
  "unready n f \<longleftrightarrow> (\<forall>t\<ge>n. ready_of f t \<noteq> READY_TO_EXECUTE)"

lemma masked_fields [simp]:
  "lock (masked n f) = lock f" "thread_pc (masked n f) = thread_pc f" "thread_mmap (masked n f) = thread_mmap f"
  "combiner_of (masked n f) = combiner_of f" "app (masked n f) = app f" "history (masked n f) = history f"
  "requested (masked n f) = requested f" "struct_of (masked n f) t = struct_of f t"
  "t < n \<Longrightarrow> taskArray (masked n f) t = taskArray f t"
  "ready_of (masked n f) t = (if t < n then ready_of f t else NONE)"
  by (simp_all add: masked_def)

lemma masked_update:
  "masked n (f\<lparr>lock := l\<rparr>) = masked n f\<lparr>lock := l\<rparr>" "masked n (f\<lparr>thread_pc := p\<rparr>) = masked n f\<lparr>thread_pc := p\<rparr>"
  "masked n (f\<lparr>thread_mmap := q\<rparr>) = masked n f\<lparr>thread_mmap := q\<rparr>"
  "masked n (f\<lparr>combiner_of := c\<rparr>) = masked n f\<lparr>combiner_of := c\<rparr>" "masked n (f\<lparr>app := a\<rparr>) = masked n f\<lparr>app := a\<rparr>"
  "masked n (f\<lparr>history := h\<rparr>) = masked n f\<lparr>history := h\<rparr>" "masked n (f\<lparr>requested := r\<rparr>) = masked n f\<lparr>requested := r\<rparr>"
  by (simp_all add: masked_def cong: if_cong)

lemma masked_entry:
  "t < n \<Longrightarrow> masked n (f\<lparr>taskArray := (taskArray f)(t := e)\<rparr>) = masked n f\<lparr>taskArray := (taskArray (masked n f))(t := e)\<rparr>"
  by (cases f) (auto simp: masked_def)

lemma masked_execute:
  assumes "i < n"
  shows "masked n (execute cb i f) = execute cb i (masked n f)"
proof -
  obtain c a where "processRequestCallBack cb (struct_of f i) (app f) = (c, a)" by fastforce
  then show ?thesis using assms masked_entry [OF assms, of f] by (simp add: execute_def masked_update)
qed

text \<open>The entries a thread is about to write.\<close>

definition touches :: "fc_pc \<Rightarrow> nat set" where
  "touches p = set (claims p) \<union> (case p of Claim cmds i \<Rightarrow> {i} | _ \<Rightarrow> {})"

lemma masked_thread_step:
  assumes "t < n" "unready n f" "touches p \<subseteq> {..<n}"
  shows "thread_step cb t p (masked n f) = masked n (thread_step cb t p f)"
proof -
  have u: "ready_of f i = READY_TO_EXECUTE \<Longrightarrow> i < n" for i
    using assms(2) unfolding unready_def by (metis not_le)
  have c: "set (drop k cmds) \<subseteq> {..<n} \<Longrightarrow> k < length cmds \<Longrightarrow> cmds ! k < n" for k and cmds :: "nat list"
    by (metis Cons_nth_drop_Suc insert_subset lessThan_iff list.simps(15))
  have d: "set cmds \<subseteq> {..<n} \<Longrightarrow> k < length cmds \<Longrightarrow> cmds ! k < n" for k and cmds :: "nat list"
    by (meson lessThan_iff nth_mem subsetD)
  show ?thesis
    using assms
    by (cases p)
      (auto simp: step_simps masked_update masked_entry masked_execute touches_def c d dest: u)
qed


lemma ready_thread_step:
  assumes "t < n" "touches p \<subseteq> {..<n}" "n \<le> u"
  shows "ready_of (thread_step cb t p f) u = ready_of f u"
proof -
  have d: "set (drop k cmds) \<subseteq> {..<n} \<Longrightarrow> k < length cmds \<Longrightarrow> cmds ! k < n" for k and cmds :: "nat list"
    by (metis Cons_nth_drop_Suc insert_subset lessThan_iff list.simps(15))
  show ?thesis
    using assms by (cases p) (auto simp: step_simps touches_def dest: d)
qed

text \<open>What a combiner claims has registered, as long as the other entries do not look ready.\<close>

lemma touches_registered:
  assumes "task_inv (masked n f)"
  shows "touches (thread_pc f t) \<subseteq> {..<n}"
proof
  note inv = task_invD [OF assms, simplified]
  fix u assume "u \<in> touches (thread_pc f t)"
  then consider "u \<in> set (served (thread_pc f t))" | "u \<in> set (unserved (thread_pc f t))"
    | cmds where "thread_pc f t = Claim cmds u"
    by (auto simp: touches_def split: fc_pc.splits)
  then show "u \<in> {..<n}"
    using inv(3) [of u t] inv(4) [of u t] inv(10) [of t _ u]
    by cases (metis lessThan_iff ready_neqs(13) ready_neqs(15))+
qed

fun move_thread :: "'c move \<Rightarrow> nat" where
  "move_thread (Request t c) = t" | "move_thread (First t) = t" | "move_thread (Run t) = t" | "move_thread (Map t) = t"

lemma masked_move:
  assumes "do_move cb mv f = Some f'" "move_thread mv < n" "unready n f" "task_inv (masked n f)"
  shows "do_move cb mv (masked n f) = Some (masked n f')" "unready n f'"
proof -
  let ?t = "move_thread mv"
  note touch = touches_registered [OF assms(4), of ?t]
  note step = masked_thread_step [OF assms(2,3) touch] ready_thread_step [OF assms(2) touch, where cb = cb and f = f]
  have mm: "mmap_step ?t q (masked n f) = masked n (mmap_step ?t q f)" "taskArray (mmap_step ?t q f) = taskArray f" for q
    by (cases q, simp_all add: masked_update)+
  show "do_move cb mv (masked n f) = Some (masked n f')"
    using assms(1,2) step(1) mm by (cases mv) (auto simp: request_def masked_update masked_entry split: if_splits)
  show "unready n f'"
    using assms(1-3) step(2) mm by (cases mv) (auto simp: request_def unready_def split: if_splits)
qed

section \<open>The invariant\<close>

fun index_of :: "worker \<Rightarrow> nat option" where
  "index_of (Looping i) = Some i" | "index_of (Calling i) = Some i" | "index_of _ = None"

fun has_registered :: "worker \<Rightarrow> bool" where
  "has_registered Not_created \<longleftrightarrow> False" | "has_registered Created \<longleftrightarrow> False" | "has_registered _ \<longleftrightarrow> True"

text \<open>The threads inside the library, and the workers.\<close>

definition copying :: "nat \<Rightarrow> nat \<Rightarrow> (serialized_app_command, state_machine result) fc \<Rightarrow> bool" where
  "copying j n f \<longleftrightarrow>
     (\<exists>f0. fc_start (Inr (after_copies j 0)) f0 \<and> (fc_step text_copy_callbacks)\<^sup>*\<^sup>* f0 (masked n f))
     \<and> unready n f \<and> (\<forall>t. set (requested f t) \<subseteq> range worker_command)"

definition workers_ok :: "text_program \<Rightarrow> bool" where
  "workers_ok s \<longleftrightarrow>
     length (pr_tasks s) = NUMBER_OF_THREADS
     \<and> global_thread_count s = card {w. w < NUMBER_OF_THREADS \<and> has_registered (pr_workers s w)}
     \<and> (\<forall>w\<ge>NUMBER_OF_THREADS. pr_workers s w = Not_created)
     \<and> (\<forall>w i. index_of (pr_workers s w) = Some i \<longrightarrow> i < global_thread_count s)
     \<and> (\<forall>v w i. index_of (pr_workers s v) = Some i \<longrightarrow> index_of (pr_workers s w) = Some i \<longrightarrow> v = w)
     \<and> (\<forall>w. pr_workers s w = Finished \<longrightarrow> 378 \<le> copy_count (history (pr_fc s)))"

lemma workers_okD:
  assumes "workers_ok s"
  shows "length (pr_tasks s) = NUMBER_OF_THREADS"
    "global_thread_count s = card {w. w < NUMBER_OF_THREADS \<and> has_registered (pr_workers s w)}"
    "w \<ge> NUMBER_OF_THREADS \<Longrightarrow> pr_workers s w = Not_created"
    "index_of (pr_workers s w) = Some i \<Longrightarrow> i < global_thread_count s"
    "index_of (pr_workers s v) = Some i \<Longrightarrow> index_of (pr_workers s w) = Some i \<Longrightarrow> v = w"
    "pr_workers s w = Finished \<Longrightarrow> 378 \<le> copy_count (history (pr_fc s))"
  using assms unfolding workers_ok_def by blast+

fun main_ok :: "main_pc \<Rightarrow> (nat \<Rightarrow> worker) \<Rightarrow> bool" where
  "main_ok (Creating i) ws \<longleftrightarrow> i \<le> NUMBER_OF_THREADS \<and> (\<forall>w. ws w = Not_created \<longleftrightarrow> i \<le> w)"
| "main_ok (Joining i) ws \<longleftrightarrow>
     i \<le> NUMBER_OF_THREADS \<and> (\<forall>w<NUMBER_OF_THREADS. ws w \<noteq> Not_created) \<and> (\<forall>w<i. ws w = Finished)"
| "main_ok (Returned r) ws \<longleftrightarrow> r = Inr ()"

definition text_inv :: "nat \<Rightarrow> text_program \<Rightarrow> bool" where
  "text_inv j s \<longleftrightarrow> copying j (global_thread_count s) (pr_fc s) \<and> workers_ok s \<and> main_ok (pr_main s) (pr_workers s)"

lemma copying_state:
  assumes "copying j n f"
  shows "app f = Inr (after_copies j (copy_count (history f)))" "task_inv (masked n f)"
proof -
  obtain f0 where run: "fc_start (Inr (after_copies j 0)) f0" "(fc_step text_copy_callbacks)\<^sup>*\<^sup>* f0 (masked n f)"
    using assms unfolding copying_def by blast
  show "task_inv (masked n f)" using fci.inv_reachable [OF run] by (simp add: fc_inv_def)
  show "app f = Inr (after_copies j (copy_count (history f)))"
    using copies_so_far [OF run] assms unfolding copying_def by simp
qed

lemma copying_move:
  assumes "copying j n f" "do_move text_copy_callbacks mv f = Some f'" "move_thread mv < n"
    and "\<forall>t c. mv = Request t c \<longrightarrow> c \<in> range worker_command"
  shows "copying j n f'" "\<exists>h. history f' = history f @ h"
proof -
  have un: "unready n f" using assms(1) by (simp add: copying_def)
  note m = masked_move [OF assms(2,3) un copying_state(2) [OF assms(1)]]
  have "fc_step text_copy_callbacks (masked n f) (masked n f')" using do_move_step [OF m(1)] .
  moreover have "set (requested f' t) \<subseteq> range worker_command" for t
    using assms(1,4) requested_move [OF assms(2)] by (cases mv) (auto simp: copying_def)
  ultimately show "copying j n f'"
    using assms(1) m(2) unfolding copying_def by (meson rtranclp.rtrancl_into_rtrancl)
  show "\<exists>h. history f' = history f @ h"
    using history_grows [OF r_into_rtranclp [of "fc_step text_copy_callbacks", OF do_move_step [OF assms(2)]]] .
qed

text \<open>Registering changes nothing that flat combining sees.\<close>

lemma copying_register:
  assumes "copying j n f"
  shows "copying j (Suc n) (set_ready n NONE f)"
proof -
  have "masked (Suc n) (set_ready n NONE f) = masked n f"
    by (cases f) (auto simp: masked_def fun_eq_iff less_Suc_eq)
  then show ?thesis using assms by (auto simp: copying_def unready_def)
qed

section \<open>Its steps\<close>

lemma registered_count:
  assumes "\<forall>w. has_registered (ws w) \<longrightarrow> w < NUMBER_OF_THREADS" "v < NUMBER_OF_THREADS" "\<not> has_registered (ws v)" "has_registered p"
  shows "card {w. w < NUMBER_OF_THREADS \<and> has_registered ((ws(v := p)) w)} =
      Suc (card {w. w < NUMBER_OF_THREADS \<and> has_registered (ws w)})"
    "card {w. w < NUMBER_OF_THREADS \<and> has_registered (ws w)} < NUMBER_OF_THREADS"
proof -
  let ?R = "{w. w < NUMBER_OF_THREADS \<and> has_registered (ws w)}"
  have "{w. w < NUMBER_OF_THREADS \<and> has_registered ((ws(v := p)) w)} = insert v ?R" using assms(2,4) by auto
  then show "card {w. w < NUMBER_OF_THREADS \<and> has_registered ((ws(v := p)) w)} = Suc (card ?R)"
    using assms(3) by simp
  have "card ?R \<le> card ({..<NUMBER_OF_THREADS} - {v})" using assms(3) by (intro card_mono) auto
  then show "card ?R < NUMBER_OF_THREADS" using assms(2) by (simp add: NUMBER_OF_THREADS_def)
qed

text \<open>A worker that has registered goes on: the others and the count stay, main does not notice.\<close>

lemma worker_moves:
  assumes "text_inv j s" "index_of (pr_workers s w) = Some i" "has_registered p" "index_of p \<in> {None, Some i}"
    and "copying j (global_thread_count s) f" "\<exists>h. history f = history (pr_fc s) @ h"
    and "p = Finished \<Longrightarrow> 378 \<le> copy_count (history f)"
  shows "text_inv j (set_worker w p (s\<lparr>pr_fc := f\<rparr>))"
proof -
  let ?ws = "pr_workers s"
  have ok: "workers_ok s" "main_ok (pr_main s) ?ws" using assms(1) by (simp_all add: text_inv_def)
  have w: "has_registered (?ws w)" "?ws w \<noteq> Finished" "?ws w \<noteq> Not_created" using assms(2) by (cases "?ws w"; simp)+
  have p: "p \<noteq> Not_created" using assms(3) by auto
  have card: "{v. v < NUMBER_OF_THREADS \<and> has_registered ((?ws(w := p)) v)} =
      {v. v < NUMBER_OF_THREADS \<and> has_registered (?ws v)}"
    using w(1) assms(3) by auto
  have mono: "copy_count (history (pr_fc s)) \<le> copy_count (history f)"
    using assms(6) by (auto simp: copy_count_def)
  note d = workers_okD [OF ok(1)]
  have i: "i < global_thread_count s" "\<forall>v. index_of (?ws v) = Some i \<longrightarrow> v = w" "w < NUMBER_OF_THREADS"
    using d(4,5) assms(2) d(3) [of w] w(3) by (blast, blast, meson not_le)
  have "workers_ok (set_worker w p (s\<lparr>pr_fc := f\<rparr>))"
    unfolding workers_ok_def
  proof (intro conjI)
    show "\<forall>v. pr_workers (set_worker w p (s\<lparr>pr_fc := f\<rparr>)) v = Finished \<longrightarrow>
        378 \<le> copy_count (history (pr_fc (set_worker w p (s\<lparr>pr_fc := f\<rparr>))))"
      using d(6) mono assms(7) by (auto simp: set_worker_def intro: order.trans)
  qed (use d(1,2,3,4,5) i assms(4) card in \<open>auto simp: set_worker_def\<close>)
  moreover have "main_ok (pr_main s) (?ws(w := p))"
    using ok(2) w p by (cases "pr_main s") auto
  ultimately show ?thesis using assms(5) by (simp add: text_inv_def set_worker_def)
qed


lemma register_keeps_inv:
  assumes "text_inv j s" "register_worker w s = Some s'"
  shows "text_inv j s'"
proof -
  let ?n = "global_thread_count s" and ?ws = "pr_workers s"
  have ok: "workers_ok s" "main_ok (pr_main s) ?ws" "copying j ?n (pr_fc s)" using assms(1) by (simp_all add: text_inv_def)
  note d = workers_okD [OF ok(1)]
  have w: "?ws w = Created" using assms(2) by (simp add: register_worker_def split: if_splits)
  have wb: "w < NUMBER_OF_THREADS" using d(3) [of w] w by (metis not_le worker.distinct(1))
  have all: "\<forall>v. has_registered (?ws v) \<longrightarrow> v < NUMBER_OF_THREADS"
    using d(3) by (metis has_registered.simps(1) not_le)
  note c = registered_count [where ws = ?ws and p = "Looping ?n", OF all wb]
  have n: "?n < NUMBER_OF_THREADS" using c(2) d(2) w by simp
  then obtain ts where s': "s' = set_worker w (Looping ?n)
      (s\<lparr>global_thread_count := Suc ?n, pr_tasks := ts, pr_fc := set_ready ?n NONE (pr_fc s)\<rparr>)"
      "length ts = NUMBER_OF_THREADS"
    using assms(2) w d(1) by (auto simp: register_worker_def mangosteen_initialize_thread_def Let_def)
  have old: "index_of (?ws v) = Some i \<Longrightarrow> i < ?n" for v i using d(4) .
  then have new: "index_of (?ws v) \<noteq> Some ?n" for v by blast
  have "workers_ok s'"
    unfolding workers_ok_def
  proof (intro conjI)
    show "global_thread_count s' = card {v. v < NUMBER_OF_THREADS \<and> has_registered (pr_workers s' v)}"
      using c(1) d(2) w by (simp add: s'(1) set_worker_def)
    show "\<forall>u v i. index_of (pr_workers s' u) = Some i \<longrightarrow> index_of (pr_workers s' v) = Some i \<longrightarrow> u = v"
      using d(5) new by (auto simp: s'(1) set_worker_def)
  qed (use s'(2) wb d(3,6) old in \<open>auto simp: s'(1) set_worker_def less_Suc_eq\<close>)
  moreover have "main_ok (pr_main s) (?ws(w := Looping ?n))"
    using ok(2) w by (cases "pr_main s") (auto, metis worker.distinct(1))
  ultimately show ?thesis using copying_register [OF ok(3)] by (simp add: text_inv_def s'(1) set_worker_def)
qed

lemma library_keeps_inv:
  assumes "text_inv j s" "pr_workers s w = Calling i" "do_move text_copy_callbacks mv (pr_fc s) = Some f"
    and "mv \<in> {Run i, Map i}"
  shows "text_inv j (s\<lparr>pr_fc := f\<rparr>)"
proof -
  have i: "index_of (pr_workers s w) = Some i" using assms(2) by simp
  moreover have ok: "workers_ok s" "copying j (global_thread_count s) (pr_fc s)" using assms(1) by (simp_all add: text_inv_def)
  ultimately have "move_thread mv < global_thread_count s" using workers_okD(4) assms(4) by fastforce
  note m = copying_move [OF ok(2) assms(3) this]
  have "text_inv j (set_worker w (Calling i) (s\<lparr>pr_fc := f\<rparr>))"
    using worker_moves [OF assms(1) i, of "Calling i" f] m assms(4) by auto
  moreover have "(pr_workers s)(w := Calling i) = pr_workers s" using assms(2) by auto
  ultimately show ?thesis by (simp add: set_worker_def)
qed

lemma loop_keeps_inv:
  assumes "text_inv j s" "runWorkerThread w randomBit s = Some s'"
  shows "text_inv j s'"
proof -
  have ok: "workers_ok s" "copying j (global_thread_count s) (pr_fc s)" using assms(1) by (simp_all add: text_inv_def)
  let ?k = "copy_count (history (pr_fc s))"
  obtain i where i: "pr_workers s w = Looping i"
    using assms(2) by (auto simp: runWorkerThread_def split: worker.splits)
  then have ix: "index_of (pr_workers s w) = Some i" by simp
  have "i < global_thread_count s" using workers_okD(4) [OF ok(1) ix] .
  note m = copying_move [OF ok(2), of "Request i (worker_command randomBit)", simplified, OF _ this]
  show ?thesis
  proof (cases "worker_continues (after_copies j ?k)")
    case True
    then obtain f where "do_move text_copy_callbacks (Request i (worker_command randomBit)) (pr_fc s) = Some f"
        "s' = set_worker w (Calling i) (s\<lparr>pr_fc := f\<rparr>)"
      using assms(2) i copying_state(1) [OF ok(2)] by (auto simp: runWorkerThread_def simp del: do_move.simps)
    then show ?thesis using worker_moves [OF assms(1) ix, of "Calling i" f] m [of f] by simp
  next
    case False
    then have "378 \<le> ?k" by (auto simp: worker_continues_def word_less_nat_alt)
    moreover have "s' = set_worker w Finished (s\<lparr>pr_fc := pr_fc s\<rparr>)"
      using False assms(2) i copying_state(1) [OF ok(2)] by (simp add: runWorkerThread_def)
    ultimately show ?thesis using worker_moves [OF assms(1) ix, of Finished "pr_fc s"] ok(2) by simp
  qed
qed

lemma workers_ok_main [simp]: "workers_ok (s\<lparr>pr_main := p\<rparr>) = workers_ok s"
  by (simp add: workers_ok_def)

lemma main_moves: "text_inv j s \<Longrightarrow> main_ok p (pr_workers s) \<Longrightarrow> text_inv j (s\<lparr>pr_main := p\<rparr>)"
  by (simp add: text_inv_def)

lemma create_keeps_inv:
  assumes "text_inv j s" "pr_main s = Creating i" "i < NUMBER_OF_THREADS"
  shows "text_inv j (set_worker i Created s\<lparr>pr_main := Creating (Suc i)\<rparr>)" (is "text_inv j ?s")
proof -
  have ok: "workers_ok s" "main_ok (pr_main s) (pr_workers s)" "copying j (global_thread_count s) (pr_fc s)"
    using assms(1) by (simp_all add: text_inv_def)
  note d = workers_okD [OF ok(1)]
  have i: "\<forall>w. pr_workers s w = Not_created \<longleftrightarrow> i \<le> w" using ok(2) assms(2) by simp
  then have "pr_workers s i = Not_created" by simp
  then have reg: "{w. w < NUMBER_OF_THREADS \<and> has_registered (((pr_workers s)(i := Created)) w)} =
      {w. w < NUMBER_OF_THREADS \<and> has_registered (pr_workers s w)}" by auto
  have "workers_ok ?s"
    unfolding workers_ok_def
  proof (intro conjI)
    show "global_thread_count ?s = card {w. w < NUMBER_OF_THREADS \<and> has_registered (pr_workers ?s w)}"
      using d(2) reg by (simp add: set_worker_def)
  qed (use d(1,3-6) assms(3) in \<open>auto simp: set_worker_def\<close>)
  moreover have "((pr_workers s)(i := Created)) w = Not_created \<longleftrightarrow> Suc i \<le> w" for w
    using i [rule_format, of w] by (cases "w = i") auto
  then have "main_ok (pr_main ?s) (pr_workers ?s)" using assms(3) by (simp add: set_worker_def)
  ultimately show ?thesis using ok(3) by (simp add: text_inv_def set_worker_def)
qed

lemma main_keeps_inv:
  assumes "text_inv j s" "\<forall>i<NUMBER_OF_THREADS. created i" "executeTextCopy created s = Some s'"
  shows "text_inv j s'"
proof -
  have ok: "workers_ok s" "main_ok (pr_main s) (pr_workers s)" "copying j (global_thread_count s) (pr_fc s)"
    using assms(1) by (simp_all add: text_inv_def)
  note d = workers_okD [OF ok(1)]
  show ?thesis
  proof (cases "pr_main s")
    case (Creating i)
    show ?thesis
    proof (cases "i < NUMBER_OF_THREADS")
      case True
      then have "s' = set_worker i Created s\<lparr>pr_main := Creating (Suc i)\<rparr>"
        using assms(2,3) Creating by (simp add: executeTextCopy_def)
      then show ?thesis using create_keeps_inv [OF assms(1) Creating True] by simp
    next
      case False
      then have "main_ok (Joining 0) (pr_workers s)" using ok(2) Creating by simp
      then show ?thesis
        using main_moves [OF assms(1)] False assms(3) Creating by (auto simp: executeTextCopy_def simp del: main_ok.simps)
    qed
  next
    case (Joining i)
    then have j: "i \<le> NUMBER_OF_THREADS" "\<forall>w<NUMBER_OF_THREADS. pr_workers s w \<noteq> Not_created"
        "\<forall>w<i. pr_workers s w = Finished" using ok(2) by simp_all
    show ?thesis
    proof (cases "i < NUMBER_OF_THREADS")
      case True
      then have "s' = s\<lparr>pr_main := Joining (Suc i)\<rparr>" "pr_workers s i = Finished"
        using assms(3) Joining j(2) by (auto simp: executeTextCopy_def split: worker.splits)
      then show ?thesis using main_moves [OF assms(1), of "Joining (Suc i)"] j True by (simp add: less_Suc_eq)
    next
      case False
      then have "pr_workers s 0 = Finished" using j(1,3) by (simp add: NUMBER_OF_THREADS_def)
      then have "finish_text_copy (after_copies j (copy_count (history (pr_fc s)))) = Inr ()"
        using d(6) by (intro finish_after_copies) blast
      then have "s' = s\<lparr>pr_main := Returned (Inr ())\<rparr>"
        using False assms(3) Joining copying_state(1) [OF ok(3)] by (simp add: executeTextCopy_def)
      then show ?thesis using main_moves [OF assms(1), of "Returned (Inr ())"] by simp
    qed
  next
    case (Returned r)
    then show ?thesis using assms(3) by (simp add: executeTextCopy_def)
  qed
qed

lemma text_inv_step:
  assumes "text_inv j s" "text_step created s s'" "\<forall>i<NUMBER_OF_THREADS. created i"
  shows "text_inv j s'"
proof -
  obtain e where e: "do_text_event created e s = Some s'" using assms(2) by (auto elim: text_stepE)
  have lib: "text_inv j s'" if "in_library w mv s = Some s'" "\<forall>i. mv i \<in> {Run i, Map i}" for w mv
    using that library_keeps_inv [OF assms(1), of w _ "mv _"]
    by (auto simp: in_library_def simp del: do_move.simps split: worker.splits)
  show ?thesis
  proof (cases e)
    case (Return w)
    then obtain i where i: "pr_workers s w = Calling i" "s' = set_worker w (Looping i) (s\<lparr>pr_fc := pr_fc s\<rparr>)"
      using e by (auto simp: return_to_worker_def split: worker.splits if_splits)
    then show ?thesis
      using worker_moves [OF assms(1), of w i "Looping i" "pr_fc s"] assms(1) by (simp add: text_inv_def)
  qed (use e register_keeps_inv [OF assms(1)] loop_keeps_inv [OF assms(1)] main_keeps_inv [OF assms(1,3)] lib in auto)
qed


section \<open>What the program does\<close>

lemma block_text: "\<exists>ys. block j = take j copied_text @ NUL # ys"
proof (cases "j < 379")
  case True
  then have "replicate (4096 - j) NUL = NUL # replicate (4096 - Suc j) NUL" by (intro replicate_minus) simp
  then show ?thesis using True by (simp add: block_def MEMORY_BLOCK_SIZE_def test_string_text)
qed (simp add: block_def test_string_text)

lemma strlen_nul: "NUL \<notin> set xs \<Longrightarrow> strlen (xs @ NUL # ys) = Inr (length xs)"
  by (induction xs) auto

lemma strlen_block: "\<exists>n. strlen (block j) = Inr n \<and> take n (block j) = take j copied_text"
proof -
  obtain ys where ys: "block j = take j copied_text @ NUL # ys" using block_text by blast
  have "NUL \<notin> set (take j copied_text)" using test_string_text(2) by (metis in_set_takeD)
  then have "strlen (block j) = Inr (length (take j copied_text))" using strlen_nul by (simp only: ys)
  moreover have "take (length (take j copied_text)) (block j) = take j copied_text"
    by (simp add: ys min_def)
  ultimately show ?thesis by blast
qed

lemma allocated_copying:
  assumes "length garbage \<ge> NUMBER_OF_THREADS * padding_size" "\<forall>t. ready (entries t) \<noteq> READY_TO_EXECUTE"
  shows "copying j 0 (allocateFlatCombiningdMemory garbage entries (Inr (after_copies j 0)))"
  unfolding copying_def
proof (intro conjI exI)
  let ?f = "allocateFlatCombiningdMemory garbage entries (Inr (after_copies j 0))"
  show "fc_start (Inr (after_copies j 0)) (masked 0 ?f)"
    using allocate_lock_ok [OF assms(1)] by (simp add: fc_start_def allocateFlatCombiningdMemory_def)
qed (use assms(2) in \<open>simp_all add: unready_def allocateFlatCombiningdMemory_def\<close>)

text \<open>
  The program before its first thread is created, on a fresh block or on one with the first \<open>j\<close> characters.
\<close>

definition first_state ::
    "nat \<Rightarrow> u32 list \<Rightarrow> (nat \<Rightarrow> serialized_app_command thread_entry) \<Rightarrow> task list \<Rightarrow> text_program" where
  "first_state j garbage entries tasks =
     \<lparr>pr_fc = allocateFlatCombiningdMemory garbage entries (Inr (after_copies j 0)), pr_tasks = tasks,
      global_thread_count = 0, pr_workers = (\<lambda>_. Not_created), pr_main = Creating 0\<rparr>"

lemma main_starts:
  assumes "\<not> imangosteen_initialized g" "restored = (if j = 0 then None else Some (block j))"
  shows "text_copy_main True True True args g restored garbage entries tasks m =
    Inr (''Array content: '' @ take j copied_text @ [CHR 0x0A], first_state j garbage entries tasks)"
proof -
  obtain x where x: "initialise_mangosteen (Some (text_copy_args args)) g = Inr x"
    using assms(1) by (auto simp: initialise_mangosteen_def text_copy_args_def Let_def SINGLE_THREAD_def MULTI_THREAD_def)
  obtain n where n: "strlen (block j) = Inr n" "take n (block j) = take j copied_text"
    using strlen_block by blast
  let ?m = "m\<lparr>arr := block j\<rparr>"
  have "start_text_copy ?m = Inr (after_copies j 0)" by (rule start_after_copies) simp
  moreover have "(case restored of None \<Rightarrow> m\<lparr>arr := block 0\<rparr> | Some a \<Rightarrow> m\<lparr>arr := block 0\<rparr>\<lparr>arr := a\<rparr>) = ?m"
    using assms(2) by auto
  ultimately show ?thesis
    using n x by (simp add: text_copy_main_def initialize_block first_state_def Let_def del: fc.simps)
qed

lemma first_state_inv:
  assumes "length garbage \<ge> NUMBER_OF_THREADS * padding_size" "\<forall>t. ready (entries t) \<noteq> READY_TO_EXECUTE"
    and "length tasks = NUMBER_OF_THREADS"
  shows "text_inv j (first_state j garbage entries tasks)"
  using allocated_copying [OF assms(1,2)] assms(3)
  by (simp add: text_inv_def workers_ok_def first_state_def)

interpretation tcm: invariant_system
    "\<lambda>s. \<exists>garbage entries tasks. s = first_state j garbage entries tasks \<and> length tasks = NUMBER_OF_THREADS
       \<and> NUMBER_OF_THREADS * padding_size \<le> length garbage \<and> (\<forall>t. ready (entries t) \<noteq> READY_TO_EXECUTE)"
    "text_step (\<lambda>_. True)" "text_inv j"
  by unfold_locales (auto intro: first_state_inv text_inv_step)

text \<open>
  C11: The multi-threaded example copies its text. It starts in a process that has not initialised the library,
  on a fresh block or on one that has the first \<open>j\<close> characters from an earlier run; it prints these. However
  its five threads then interleave, and whatever they draw, nothing faults, no two workers use the same
  entry of \<open>taskArray\<close> and none is past its end, as many characters have been copied as copy commands were
  executed, and when \<open>main\<close> returns, its assertion has held. The allocated \<open>taskArray\<close> must not, by chance, hold
  entries that are ready to execute.
\<close>

theorem text_program_copies_text:
  assumes "\<not> imangosteen_initialized g" "restored = (if j = 0 then None else Some (block j))"
    and "NUMBER_OF_THREADS * padding_size \<le> length garbage" "length tasks = NUMBER_OF_THREADS"
    and "\<forall>t. ready (entries t) \<noteq> READY_TO_EXECUTE"
  shows "\<exists>s0. text_copy_main True True True args g restored garbage entries tasks m =
      Inr (''Array content: '' @ take j copied_text @ [CHR 0x0A], s0)
    \<and> (\<forall>s. (text_step (\<lambda>_. True))\<^sup>*\<^sup>* s0 s \<longrightarrow>
         (\<exists>m'. app (pr_fc s) = Inr m' \<and> unat (current_character_index m') = min (copy_count (history (pr_fc s))) 379)
         \<and> (\<forall>v i. index_of (pr_workers s v) = Some i \<longrightarrow>
              i < NUMBER_OF_THREADS \<and> (\<forall>w. index_of (pr_workers s w) = Some i \<longrightarrow> v = w))
         \<and> (\<forall>r. pr_main s = Returned r \<longrightarrow> r = Inr ()))"
proof -
  let ?s0 = "first_state j garbage entries tasks"
  have *: "(\<exists>m'. app (pr_fc s) = Inr m' \<and> unat (current_character_index m') = min (copy_count (history (pr_fc s))) 379)
      \<and> (\<forall>v i. index_of (pr_workers s v) = Some i \<longrightarrow>
           i < NUMBER_OF_THREADS \<and> (\<forall>w. index_of (pr_workers s w) = Some i \<longrightarrow> v = w))
      \<and> (\<forall>r. pr_main s = Returned r \<longrightarrow> r = Inr ())" if "(text_step (\<lambda>_. True))\<^sup>*\<^sup>* ?s0 s" for s
  proof -
    have inv: "text_inv j s" using tcm.inv_reachable [where j = j and s = ?s0] assms(3-5) that by blast
    then have "app (pr_fc s) = Inr (after_copies j (copy_count (history (pr_fc s))))"
      unfolding text_inv_def using copying_state(1) by blast
    moreover have ok: "workers_ok s" using inv by (simp add: text_inv_def)
    moreover have "card {w. w < NUMBER_OF_THREADS \<and> has_registered (pr_workers s w)} \<le> card {..<NUMBER_OF_THREADS}"
      by (intro card_mono) auto
    ultimately show ?thesis
      using inv workers_okD(2) [OF ok] workers_okD(4,5) [OF ok] by (fastforce simp: text_inv_def)
  qed
  show ?thesis using main_starts [OF assms(1,2)] * by blast
qed


section \<open>Runs\<close>

lemma do_moves_append:
  "do_moves cb ms s = Some s' \<Longrightarrow> do_moves cb (ms @ ms') s = do_moves cb ms' s'"
  by (induction ms arbitrary: s) (auto split: option.splits)

text \<open>A worker that only runs inside the library makes the moves of its thread.\<close>

lemma inside_moves:
  assumes "pr_workers s w = Calling i" "\<forall>r. pr_main s \<noteq> Returned r"
  shows "do_text_events created (replicate k (Inside w)) s =
    map_option (\<lambda>f. s\<lparr>pr_fc := f\<rparr>) (do_moves text_copy_callbacks (replicate k (Run i)) (pr_fc s))"
  using assms
proof (induction k arbitrary: s)
  case (Suc k)
  have "(case pr_main s of Returned r \<Rightarrow> None | _ \<Rightarrow> x) = x" for x :: "text_program option"
    using Suc.prems(2) by (cases "pr_main s") auto
  then show ?case
    using Suc.prems Suc.IH [of "s\<lparr>pr_fc := _\<rparr>"]
    by (auto simp: in_library_def simp del: do_move.simps split: option.splits)
qed simp

text \<open>The first worker is created, registers and calls the library to copy a character.\<close>

definition first_call ::
    "u32 list \<Rightarrow> (nat \<Rightarrow> serialized_app_command thread_entry) \<Rightarrow> state_machine result \<Rightarrow>
     (serialized_app_command, state_machine result) fc" where
  "first_call garbage entries a =
     goto 0 Publish (request 0 (worker_command 0) (set_ready 0 NONE (allocateFlatCombiningdMemory garbage entries a)))"

lemma first_worker:
  assumes "length tasks = NUMBER_OF_THREADS" "created 0"
  shows "\<exists>s. (text_step created)\<^sup>*\<^sup>* (first_state j garbage entries tasks) s \<and> pr_workers s 0 = Calling 0
    \<and> pr_fc s = first_call garbage entries (Inr (after_copies j 0)) \<and> global_thread_count s = 1
    \<and> (\<forall>w. w \<noteq> 0 \<longrightarrow> pr_workers s w = Not_created) \<and> pr_main s = Creating 1"
proof -
  have "worker_continues (after_copies j 0)" by (simp add: worker_continues_def word_less_nat_alt)
  moreover have "\<not> isReadOnly (worker_command 0)" by (simp add: isReadOnly_def worker_command_def)
  ultimately obtain s where "do_text_events created [Main, Register 0, Loop 0 0] (first_state j garbage entries tasks) = Some s"
      "pr_workers s 0 = Calling 0" "pr_fc s = first_call garbage entries (Inr (after_copies j 0))"
      "global_thread_count s = 1" "\<forall>w. w \<noteq> 0 \<longrightarrow> pr_workers s w = Not_created" "pr_main s = Creating 1"
    using assms
    by (simp add: first_state_def executeTextCopy_def register_worker_def runWorkerThread_def set_worker_def
        mangosteen_initialize_thread_def allocateFlatCombiningdMemory_def text_copy_callbacks_def first_call_def
        NUMBER_OF_THREADS_def)
  then show ?thesis using do_text_events_run by blast
qed

text \<open>A continuation of such a run, inside the library.\<close>

lemma first_worker_goes_on:
  assumes "length tasks = NUMBER_OF_THREADS" "created 0"
    and "do_moves text_copy_callbacks (replicate k (Run 0)) (first_call garbage entries (Inr (after_copies j 0))) = Some f"
  shows "\<exists>s. (text_step created)\<^sup>*\<^sup>* (first_state j garbage entries tasks) s \<and> pr_fc s = f
    \<and> global_thread_count s = 1 \<and> (\<forall>w. w \<noteq> 0 \<longrightarrow> pr_workers s w = Not_created)"
proof -
  obtain s where s: "(text_step created)\<^sup>*\<^sup>* (first_state j garbage entries tasks) s" "pr_workers s 0 = Calling 0"
      "pr_fc s = first_call garbage entries (Inr (after_copies j 0))" "global_thread_count s = 1"
      "\<forall>w. w \<noteq> 0 \<longrightarrow> pr_workers s w = Not_created" "pr_main s = Creating 1"
    using first_worker [of tasks created, OF assms(1,2)] by blast
  have "do_text_events created (replicate k (Inside 0)) s = Some (s\<lparr>pr_fc := f\<rparr>)"
    using inside_moves [OF s(2)] s(3,6) assms(3) by simp
  then have "(text_step created)\<^sup>*\<^sup>* s (s\<lparr>pr_fc := f\<rparr>)" by (rule do_text_events_run)
  then have "(text_step created)\<^sup>*\<^sup>* (first_state j garbage entries tasks) (s\<lparr>pr_fc := f\<rparr>)"
    using s(1) by (rule rtranclp_trans [rotated])
  then show ?thesis using s(4,5) by (intro exI [of _ "s\<lparr>pr_fc := f\<rparr>"]) simp
qed

text \<open>With zeroed memory the first worker copies a character.\<close>

definition zero_entries :: "nat \<Rightarrow> serialized_app_command thread_entry" where
  "zero_entries = (\<lambda>_. \<lparr>ready = 0, applicationSpecificStruct = \<lparr>op_type = 0\<rparr>\<rparr>)"

definition first_copy :: "state_machine result \<Rightarrow> (serialized_app_command, state_machine result) fc" where
  "first_copy a = the (do_moves text_copy_callbacks (replicate 24 (Run 0)) (first_call (replicate 128 7) zero_entries a))"

lemma first_copy:
  "do_moves text_copy_callbacks (replicate 24 (Run 0)) (first_call (replicate 128 7) zero_entries a) = Some (first_copy a)"
  "copy_count (history (first_copy a)) = 1"
proof -
  have "do_moves text_copy_callbacks (replicate 24 (Run 0)) (first_call (replicate 128 7) zero_entries a) \<noteq> None"
    by code_simp
  then show "do_moves text_copy_callbacks (replicate 24 (Run 0)) (first_call (replicate 128 7) zero_entries a) =
      Some (first_copy a)" by (auto simp: first_copy_def)
  show "copy_count (history (first_copy a)) = 1" by code_simp
qed

theorem text_program_copies_text_witness:
  "\<exists>s0 s m'. text_copy_main True True True example_args \<lparr>imangosteen_initialized = False, callbacks_set = callback_table.truncate example_args\<rparr>
       (Some (block 5)) (replicate 128 7) zero_entries example_tasks (after_copies 0 0) =
       Inr (''Array content: It is'' @ [CHR 0x0A], s0)
     \<and> (text_step (\<lambda>_. True))\<^sup>*\<^sup>* s0 s \<and> app (pr_fc s) = Inr m' \<and> unat (current_character_index m') = 1"
proof -
  let ?s0 = "first_state 5 (replicate 128 7) zero_entries example_tasks"
  have tx: "take 5 copied_text = ''It is''"
    by (simp add: copied_text_def test_string_def butlast_append)
  obtain s where s: "(text_step (\<lambda>_. True))\<^sup>*\<^sup>* ?s0 s" "pr_fc s = first_copy (Inr (after_copies 5 0))"
    using first_worker_goes_on [of example_tasks "\<lambda>_. True", OF _ _ first_copy(1)] by (auto simp: example_tasks_def NUMBER_OF_THREADS_def)
  have m: "text_copy_main True True True example_args \<lparr>imangosteen_initialized = False, callbacks_set = callback_table.truncate example_args\<rparr>
       (Some (block 5)) (replicate 128 7) zero_entries example_tasks (after_copies 0 0) =
       Inr (''Array content: It is'' @ [CHR 0x0A], ?s0)"
    using main_starts [of _ "Some (block 5)" 5] tx by simp
  have g: "\<not> imangosteen_initialized \<lparr>imangosteen_initialized = False, callbacks_set = callback_table.truncate example_args\<rparr>"
    by simp
  have r: "Some (block 5) = (if 5 = (0 :: nat) then None else Some (block 5))" by simp
  have l: "NUMBER_OF_THREADS * padding_size \<le> length (replicate 128 (7 :: u32))" "length example_tasks = NUMBER_OF_THREADS"
      "\<forall>t. ready (zero_entries t) \<noteq> READY_TO_EXECUTE"
    by (simp_all add: NUMBER_OF_THREADS_def padding_size_def zero_entries_def example_tasks_def READY_TO_EXECUTE_def)
  from text_program_copies_text [OF g r l, of example_args "after_copies 0 0"] m s(1)
  obtain m' where "app (pr_fc s) = Inr m'" "unat (current_character_index m') = min (copy_count (history (pr_fc s))) 379"
    by (metis Inr_inject Pair_inject)
  then have "app (pr_fc s) = Inr m' \<and> unat (current_character_index m') = 1" using s(2) first_copy(2) by simp
  with m s(1) show ?thesis by blast
qed

section \<open>An entry that looks ready\<close>

text \<open>
  C38: An entry of \<open>taskArray\<close> that nobody has registered can be executed. \<open>taskArray\<close> is allocated without being
  initialised, and in the mode of this program nothing but the registration of its thread initialises an
  entry. If the memory of the last entry happens to hold the value of \<open>READY_TO_EXECUTE\<close> and points to something that is not
  a command, the first worker, as combiner, executes it when it copies its first character, before that
  thread is even created, and the process exits.
\<close>

theorem unregistered_entry_is_executed:
  assumes "length tasks = NUMBER_OF_THREADS" "NUMBER_OF_THREADS * padding_size \<le> length garbage" "created 0"
    and "ready (entries 3) = READY_TO_EXECUTE" "op_type (applicationSpecificStruct (entries 3)) \<notin> {0, 1}"
    and "ready (entries 1) \<noteq> READY_TO_EXECUTE" "ready (entries 2) \<noteq> READY_TO_EXECUTE"
  shows "\<exists>s. (text_step created)\<^sup>*\<^sup>* (first_state j garbage entries tasks) s \<and> global_thread_count s = 1
    \<and> pr_workers s 3 = Not_created \<and> (3, applicationSpecificStruct (entries 3)) \<in> set (history (pr_fc s))
    \<and> app (pr_fc s) = Inl ExitFailure"
proof -
  let ?m = "Inr (after_copies j 0)"
  note lk = allocate_lock_ok [OF assms(2)]
  have act: "\<not> reader_is_active i (snd (lockWriter (allocate_lock garbage)))" if "i < 4" for i
    using lk(3) [of i] that spl.acquire_iff(4) by (simp add: NUMBER_OF_THREADS_def)
  have copy: "processRequestCallBack text_copy_callbacks (worker_command 0) ?m = (worker_command 0, Inr (after_copies j 1))"
    by (simp add: text_copy_callbacks_def processCommand_def worker_command_def copy_after_copies COPY_CHARACTER_def)
  have other: "processRequestCallBack text_copy_callbacks c (Inr m) = (c, Inl ExitFailure)"
    if "op_type c \<notin> {0, 1}" for c m
    using that by (simp add: text_copy_callbacks_def processCommand_def COPY_CHARACTER_def PRINT_STATS_def)
  have "\<exists>f. do_moves text_copy_callbacks (replicate 18 (Run 0)) (first_call garbage entries ?m) = Some f
      \<and> thread_pc f 0 = Process [0, 3] 0 \<and> thread_mmap f 0 = MNone \<and> struct_of f 0 = worker_command 0
      \<and> struct_of f 3 = struct_of (first_call garbage entries ?m) 3 \<and> app f = ?m"
    using assms(4,6,7) lk(2) act [of 0] act [of 1] act [of 2] act [of 3]
    by (simp add: first_call_def allocateFlatCombiningdMemory_def request_def numeral_eq_Suc step_simps
      NUMBER_OF_THREADS_def lock_facts)
  then obtain f where f: "do_moves text_copy_callbacks (replicate 18 (Run 0)) (first_call garbage entries ?m) = Some f"
      "thread_pc f 0 = Process [0, 3] 0" "thread_mmap f 0 = MNone" "struct_of f 0 = worker_command 0"
      "struct_of f 3 = applicationSpecificStruct (entries 3)" "app f = ?m"
    by (auto simp: first_call_def allocateFlatCombiningdMemory_def request_def)
  have "\<exists>f'. do_moves text_copy_callbacks (replicate 2 (Run 0)) f = Some f'
      \<and> (3, applicationSpecificStruct (entries 3)) \<in> set (history f') \<and> app f' = Inl ExitFailure"
    using f(2-6) assms(5) copy other
    by (simp add: numeral_2_eq_2 NUMBER_OF_THREADS_def step_simps execute_def)
  then obtain f' where f': "do_moves text_copy_callbacks (replicate 18 (Run 0) @ replicate 2 (Run 0))
        (first_call garbage entries ?m) = Some f'"
      "(3, applicationSpecificStruct (entries 3)) \<in> set (history f')" "app f' = Inl ExitFailure"
    using do_moves_append [OF f(1)] by auto
  have "do_moves text_copy_callbacks (replicate (18 + 2) (Run 0)) (first_call garbage entries ?m) = Some f'"
    unfolding replicate_add using f'(1) .
  then obtain s where "(text_step created)\<^sup>*\<^sup>* (first_state j garbage entries tasks) s" "pr_fc s = f'"
      "global_thread_count s = 1" "\<forall>w. w \<noteq> 0 \<longrightarrow> pr_workers s w = Not_created"
    using first_worker_goes_on [of tasks created, OF assms(1,3)] by blast
  then show ?thesis using f'(2,3) by (intro exI [of _ s]) simp
qed

text \<open>The last entry points to a command with operation 7.\<close>

definition stale_entries :: "nat \<Rightarrow> serialized_app_command thread_entry" where
  "stale_entries = zero_entries(3 := \<lparr>ready = 2, applicationSpecificStruct = \<lparr>op_type = 7\<rparr>\<rparr>)"

theorem unregistered_entry_is_executed_witness:
  "\<exists>s. (text_step (\<lambda>_. True))\<^sup>*\<^sup>* (first_state 0 (replicate 128 7) stale_entries example_tasks) s
     \<and> pr_workers s 3 = Not_created \<and> app (pr_fc s) = Inl ExitFailure"
  using unregistered_entry_is_executed [of example_tasks "replicate 128 7" "\<lambda>_. True" stale_entries 0]
  by (auto simp: stale_entries_def zero_entries_def example_tasks_def NUMBER_OF_THREADS_def padding_size_def
      READY_TO_EXECUTE_def)

end
