(* ===== verification/Cpp_State_Machine.thy ===== *)
theory Cpp_State_Machine
  imports Store_Transaction Startup
begin

text \<open>
  The C++ example, \<^verbatim>\<open>examples/cpp_state_machine/state_machine.cpp\<close>: one transaction that assigns the members of
  an object with two \<open>std::string\<close>s. How the C++ library lays a string out and which stores an assignment
  makes is not part of the program: \<open>string_at\<close> reads a string from memory and \<open>assign\<close> gives the operations of
  an assignment, both parameters. The class itself is laid out as declared: two strings of \<open>ss\<close> bytes and an \<open>int\<close>.
\<close>

section \<open>The class\<close>

type_synonym string_reader = "mem \<Rightarrow> addr \<Rightarrow> string"
type_synonym string_assign = "mem \<Rightarrow> addr \<Rightarrow> string \<Rightarrow> app_op list"

definition author :: "addr \<Rightarrow> addr" where "author book = book"
definition book_name :: "u64 \<Rightarrow> addr \<Rightarrow> addr" where "book_name ss book = book + ss"
definition number_of_pages :: "u64 \<Rightarrow> addr \<Rightarrow> addr" where "number_of_pages ss book = book + 2 * ss"

definition ld_int :: "mem \<Rightarrow> addr \<Rightarrow> int" where
  "ld_int m a = sint (ucast (of_le_bytes (read_bytes m a 4)) :: u32)"

definition decimal_int :: "int \<Rightarrow> string" where
  "decimal_int i = (if i < 0 then ''-'' @ decimal (nat (- i)) else decimal (nat i))"

definition print_book_info :: "string_reader \<Rightarrow> u64 \<Rightarrow> addr \<Rightarrow> mem \<Rightarrow> string" where
  "print_book_info string_at ss book m =
     string_at m (author book) @ '' '' @ '' '' @ string_at m (book_name ss book) @ '' ''
     @ decimal_int (ld_int m (number_of_pages ss book)) @ [CHR 0x0A]"

section \<open>The program\<close>

text \<open>The three assignments of the transaction.\<close>

definition book_ops :: "string_assign \<Rightarrow> u64 \<Rightarrow> addr \<Rightarrow> mem \<Rightarrow> app_op list" where
  "book_ops assign ss book m =
     (let o1 = assign m (author book) ''Author'';
          o2 = assign (plain_ops o1 m) (book_name ss book) ''Book Name''
      in o1 @ o2 @ [Store (number_of_pages ss book) [100, 0, 0, 0]])"

text \<open>
  \<open>main\<close> after \<open>new Book()\<close>, with what it prints; \<open>s\<close> is the front end when \<open>initialise_mangosteen\<close> has
  returned to it. Of the arguments only the mode is set.
\<close>

definition book_main ::
    "string_reader \<Rightarrow> string_assign \<Rightarrow> u64 \<Rightarrow> nat \<Rightarrow> tool_layout \<Rightarrow> (reg \<Rightarrow> u64) \<Rightarrow> u64 \<Rightarrow> mangosteen_args \<Rightarrow> globals \<Rightarrow>
     addr \<Rightarrow> front \<Rightarrow> u64 list \<Rightarrow> (string list \<times> front) result" where
  "book_main string_at assign ss fuel L r sv args g book s loads =
     and_then (initialise_mangosteen (Some (args\<lparr>mode := SINGLE_THREAD\<rparr>)) g) (\<lambda>_.
     and_then (transaction fuel L r sv (book_ops assign ss book (fe_mem s)) s loads) (\<lambda>(s', _).
       Inr ([print_book_info string_at ss book (fe_mem s), print_book_info string_at ss book (fe_mem s')], s')))"

section \<open>The book is durable\<close>

text \<open>
  What the program relies on: an assignment gives the string its value, and the members of an object do not share
  memory, so that none of the three assignments changes another member.
\<close>

definition members_assigned :: "string_reader \<Rightarrow> string_assign \<Rightarrow> u64 \<Rightarrow> addr \<Rightarrow> mem \<Rightarrow> bool" where
  "members_assigned string_at assign ss book m \<longleftrightarrow>
     (let m1 = plain_ops (assign m (author book) ''Author'') m;
          m2 = plain_ops (assign m1 (book_name ss book) ''Book Name'') m1;
          m3 = write_bytes m2 (number_of_pages ss book) [100, 0, 0, 0]
      in string_at m1 (author book) = ''Author'' \<and> string_at m2 (author book) = string_at m1 (author book)
       \<and> string_at m3 (author book) = string_at m2 (author book)
       \<and> string_at m2 (book_name ss book) = ''Book Name'' \<and> string_at m3 (book_name ss book) = string_at m2 (book_name ss book))"

lemma plain_ops_append: "plain_ops (xs @ ys) m = plain_ops ys (plain_ops xs m)"
  by (simp add: plain_ops_def)

lemma ld_int_pages: "ld_int (write_bytes m a [100, 0, 0, 0]) a = 100"
proof -
  have l: "length [100, 0, 0, 0 :: byte] = 4" by simp
  have "read_bytes (write_bytes m a [100, 0, 0, 0]) a 4 = [100, 0, 0, 0]"
    using read_write_bytes [of "[100, 0, 0, 0]" m a] unfolding l by simp
  then show ?thesis by (simp add: ld_int_def of_le_bytes_def)
qed

lemma assigned_book:
  assumes "members_assigned string_at assign ss book m"
  shows "print_book_info string_at ss book (plain_ops (book_ops assign ss book m) m) = ''Author  Book Name 100'' @ [CHR 0x0A]"
proof -
  have "decimal_int 100 = ''100''" by code_simp
  then show ?thesis
    using assms by (simp add: members_assigned_def book_ops_def print_book_info_def Let_def plain_ops_append ld_int_pages)
      (simp add: plain_ops_def ld_int_pages)
qed

text \<open>
  C25: The book of the C++ example is durable. With a C++ library whose assignments give the members their values, and
  a front and a back end between two batches, \<open>main\<close> returns; its second line of output shows the new book, and
  when the back end has consumed the log, the book in the back end's memory prints the same line.
\<close>

theorem book_is_durable:
  assumes "\<not> imangosteen_initialized g" "in_sync s b" "layout_ok L"
    and "fits (book_ops assign ss book (fe_mem s))" "ops_mapped (book_ops assign ss book (fe_mem s)) b"
    and "members_assigned string_at assign ss book (fe_mem s)"
  shows "\<exists>F. \<forall>fuel\<ge>F. \<exists>s' b'.
      book_main string_at assign ss fuel L r sv args g book s l =
        Inr ([print_book_info string_at ss book (fe_mem s), ''Author  Book Name 100'' @ [CHR 0x0A]], s')
    \<and> replay_log k (published s' b) = Some (Inr b')
    \<and> print_book_info string_at ss book (be_contents b') = ''Author  Book Name 100'' @ [CHR 0x0A]"
proof -
  obtain F s' b' where s': "\<forall>fuel\<ge>F. transaction fuel L r sv (book_ops assign ss book (fe_mem s)) s l = Inr (s', l)"
      "replay_log k (published s' b) = Some (Inr b')" "in_sync (s'\<lparr>fe_rb := be_rb b'\<rparr>) b'"
      "fe_mem s' = plain_ops (book_ops assign ss book (fe_mem s)) (fe_mem s)"
    using transaction_durable [OF assms(2-5), of r sv l k] by blast
  have "initialise_mangosteen (Some (args\<lparr>mode := SINGLE_THREAD\<rparr>)) g \<noteq> Inl e" for e
    using assms(1) by (simp add: initialise_mangosteen_def Let_def)
  then obtain x where "initialise_mangosteen (Some (args\<lparr>mode := SINGLE_THREAD\<rparr>)) g = Inr x"
    by (cases "initialise_mangosteen (Some (args\<lparr>mode := SINGLE_THREAD\<rparr>)) g") auto
  moreover have "be_contents b' = fe_mem s'" using s'(3) by (simp add: in_sync_def)
  ultimately show ?thesis
    using s'(1,2) s'(4) assigned_book [OF assms(6)] by (intro exI [of _ F]) (simp add: book_main_def)
qed

section \<open>Witness\<close>

text \<open>
  A library that keeps a short string inside the object: a pointer to the characters, the length, and sixteen bytes
  for them. The book is at \<open>0x40000\<close>, its strings empty.
\<close>

definition sso_string_at :: string_reader where
  "sso_string_at m a = map (\<lambda>c. char_of (unat c)) (read_bytes m (ld64 m a) (unat (ld64 m (a + 8))))"

definition sso_assign :: string_assign where
  "sso_assign m a t =
     [Store (ld64 m a) (map of_char t), Store (a + 8) (le_bytes (of_nat (length t))),
      Store (ld64 m a + of_nat (length t)) [0]]"

definition book_memory :: mem where
  "book_memory = st64 (st64 (\<lambda>_. 0) 0x40000 0x40010) 0x40020 0x40030"

lemma card_covered_blocks:
  assumes "unat a + n < 2 ^ 63"
  shows "card (covered_blocks a n) \<le> n div 32 + 2"
proof -
  let ?f = "\<lambda>x :: addr. unat x div 32"
  have "inj_on ?f (covered_blocks a n)"
    by (auto simp: inj_on_def covered_blocks_def word_unat_eq_iff elim!: dvdE)
  then have "card (covered_blocks a n) = card (?f ` covered_blocks a n)" by (simp add: card_image)
  also have "\<dots> \<le> card {unat a div 32..(unat a + n) div 32}"
  proof (rule card_mono)
    show "?f ` covered_blocks a n \<subseteq> {unat a div 32..(unat a + n) div 32}"
      using div_le_mono by (fastforce simp: covered_blocks_def)
  qed simp
  also have "\<dots> \<le> n div 32 + 2" by simp
  finally show ?thesis .
qed

lemma book_memory_fields: "ld64 book_memory 0x40000 = 0x40010" "ld64 book_memory 0x40020 = 0x40030"
  by (simp_all add: book_memory_def mem_simps)

lemma read_back: "length bs = n \<Longrightarrow> n \<le> 2 ^ 64 \<Longrightarrow> read_bytes (write_bytes m a bs) a n = bs"
  using read_write_bytes [of bs m a] by simp

lemma sso_ops:
  "ld64 m 0x40000 = 0x40010 \<Longrightarrow> sso_assign m 0x40000 ''Author'' =
     [Store 0x40010 (map of_char ''Author''), Store 0x40008 (le_bytes 6), Store 0x40016 [0]]"
  "ld64 m 0x40020 = 0x40030 \<Longrightarrow> sso_assign m 0x40020 ''Book Name'' =
     [Store 0x40030 (map of_char ''Book Name''), Store 0x40028 (le_bytes 9), Store 0x40039 [0]]"
  by (simp_all add: sso_assign_def)

text \<open>The memory after each of the three assignments.\<close>

definition book_memory1 :: mem where
  "book_memory1 = write_bytes (st64 (write_bytes book_memory 0x40010 (map of_char ''Author'')) 0x40008 6) 0x40016 [0]"

definition book_memory2 :: mem where
  "book_memory2 = write_bytes (st64 (write_bytes book_memory1 0x40030 (map of_char ''Book Name'')) 0x40028 9) 0x40039 [0]"

definition book_memory3 :: mem where
  "book_memory3 = write_bytes book_memory2 0x40040 [100, 0, 0, 0]"

lemmas book_memories = book_memory1_def book_memory2_def book_memory3_def

lemma book_memory_after:
  "plain_ops (sso_assign book_memory 0x40000 ''Author'') book_memory = book_memory1"
  "plain_ops (sso_assign book_memory1 0x40020 ''Book Name'') book_memory1 = book_memory2"
proof -
  show "plain_ops (sso_assign book_memory 0x40000 ''Author'') book_memory = book_memory1"
    by (simp add: sso_ops book_memory_fields plain_ops_def book_memory1_def st64_def)
  have "ld64 book_memory1 0x40020 = 0x40030"
    by (simp add: book_memory1_def ld64_write_apart apart_def book_memory_fields mem_simps)
  then show "plain_ops (sso_assign book_memory1 0x40020 ''Book Name'') book_memory1 = book_memory2"
    by (simp add: sso_ops plain_ops_def book_memory2_def st64_def)
qed

lemma byte_chars: "map (\<lambda>c. char_of (unat c)) (map of_char t :: byte list) = t"
proof -
  have "char_of (unat (of_char c :: byte)) = c" for c
    using unat_of_nat [of "of_char c", where ?'a = 8] of_char_mod_256 [of c, where ?'a = nat]
    by (simp add: of_nat_of_char)
  then show ?thesis by (simp add: map_idI)
qed

lemma sso_reads:
  assumes "ld64 m a = p" "ld64 m (a + 8) = of_nat n" "n < 2 ^ 64" "read_bytes m p n = map of_char t"
  shows "sso_string_at m a = t"
  using assms by (simp add: sso_string_at_def unat_of_nat byte_chars del: map_map)

lemma read_st64_apart: "apart a 8 b n \<Longrightarrow> read_bytes (st64 m a w) b n = read_bytes m b n"
  by (simp add: st64_def read_bytes_write_apart)

lemmas apart_simps = ld64_write_apart read_bytes_write_apart read_st64_apart apart_def read_back book_memory_fields mem_simps

lemma book_strings:
  "sso_string_at book_memory1 0x40000 = ''Author''" "sso_string_at book_memory2 0x40000 = ''Author''"
  "sso_string_at book_memory3 0x40000 = ''Author''" "sso_string_at book_memory2 0x40020 = ''Book Name''"
  "sso_string_at book_memory3 0x40020 = ''Book Name''"
  by (rule sso_reads [where p = "0x40010" and n = 6] sso_reads [where p = "0x40030" and n = 9];
      simp add: book_memories apart_simps)+

lemma book_members: "members_assigned sso_string_at sso_assign 32 0x40000 book_memory"
  using book_strings by (simp add: members_assigned_def author_def book_name_def number_of_pages_def book_memory_after
      Let_def flip: book_memory3_def)

lemma card_blocks_le:
  "\<forall>x\<in>set xs. card (store_blocks x) \<le> n \<Longrightarrow> card (\<Union>x\<in>set xs. store_blocks x) \<le> n * length xs"
proof (induction xs)
  case (Cons x xs)
  then show ?case using card_Un_le [of "store_blocks x" "\<Union>x\<in>set xs. store_blocks x"] by simp
qed simp

lemma book_fits: "fits (book_ops sso_assign 32 0x40000 book_memory)"
proof -
  have "ld64 book_memory1 0x40020 = 0x40030" by (simp add: book_memory1_def apart_simps)
  then have ops: "book_ops sso_assign 32 0x40000 book_memory =
      [Store 0x40010 (map of_char ''Author''), Store 0x40008 (le_bytes 6), Store 0x40016 [0],
       Store 0x40030 (map of_char ''Book Name''), Store 0x40028 (le_bytes 9), Store 0x40039 [0],
       Store 0x40040 [100, 0, 0, 0]]"
    by (simp add: book_ops_def author_def book_name_def number_of_pages_def Let_def book_memory_after)
       (simp add: sso_ops book_memory_fields)
  let ?ops = "book_ops sso_assign 32 0x40000 book_memory"
  have two: "card (covered_blocks a n) \<le> 2" if "unat a + n < 2 ^ 63" "n < 32" for a n
    using card_covered_blocks [OF that(1)] that(2) by simp
  have "\<forall>x\<in>set ?ops. card (store_blocks x) \<le> 2" unfolding ops by (auto intro!: two)
  then have "card (\<Union>x\<in>set ?ops. store_blocks x) \<le> 2 * length ?ops" by (rule card_blocks_le)
  then have "card (\<Union>x\<in>set ?ops. store_blocks x) \<le> 1024" unfolding ops by simp
  moreover have "\<forall>x\<in>set ?ops. op_ok x" unfolding ops by simp
  ultimately show ?thesis by (simp add: fits_def) (simp add: ops)
qed

theorem book_is_durable_witness:
  "\<exists>fuel s' b' before.
      book_main sso_string_at sso_assign 32 fuel example_layout (\<lambda>_. 0) 0 example_args
        \<lparr>imangosteen_initialized = False, callbacks_set = callback_table.truncate example_args\<rparr> 0x40000
        (idle_front book_memory) [] = Inr ([before, ''Author  Book Name 100'' @ [CHR 0x0A]], s')
    \<and> replay_log accepting_kernel (published s' (idle_backend book_memory)) = Some (Inr b')
    \<and> print_book_info sso_string_at 32 0x40000 (be_contents b') = ''Author  Book Name 100'' @ [CHR 0x0A]"
proof -
  have m: "fe_mem (idle_front book_memory) = book_memory" by (simp add: idle_front_def)
  note d = book_is_durable [OF _ idle_in_sync example_layout_ok _ idle_mapped]
  show ?thesis
    using d [of "\<lparr>imangosteen_initialized = False, callbacks_set = callback_table.truncate example_args\<rparr>"
        sso_assign 32 "0x40000" book_memory sso_string_at] book_fits book_members unfolding m by fastforce
qed

end
