(* ===== verification/Spec2Isabelle.thy ===== *)
theory Spec2Isabelle
  imports Ring_Channel Hash_Set Redo_Collector Back_End Instrumentation Flat_Combining Client_Connection Address_Space
    Transient_Allocator Startup Persistence Local_State_Machine Text_Copy KV_Store RPC_State_Machine Server
    Worker_Startup Dr_Client Allocator_Test Region_Restore KV_Main RPC_Client Store_Transaction Crash_Recovery Launch
    Local_Main Text_Copy_Main Cpp_State_Machine
begin

text \<open>
  Mangosteen gives an unmodified request/response application persistent memory. DynamoRIO rewrites
  the application (the front end) so that the stores of a batch of requests are collected in a hash
  set; at the end of the batch the 32-byte blocks that were written go as redo entries into a
  ring buffer in persistent memory. A second process (the back end) has the same memory mapped from
  files, applies the entries and releases them. After a crash the back end maps the files again,
  replays what is left in the ring buffer, and the front end gets its memory back from the files.

  \<^bold>\<open>The theories, and the code under \<^verbatim>\<open>src/\<close> they model\<close>, in the order in which they build on each other:

  \<^item> \<open>Mangosteen_Prelude\<close>: machine words, byte memory, the ways a C function fails to return (the
    sum type \<open>result\<close>), and the locale \<open>invariant_system\<close> of step relations with an invariant.
  \<^item> \<open>Ring_Buffer\<close> (\<^verbatim>\<open>ring_buffer/ring_buffer.c\<close>, \<^verbatim>\<open>.h\<close>): the log, one definition per function. A loop
    that waits for the other process is a function of the values its loads return; \<open>Spinning\<close> means
    that none of them released it. \<open>Ring_Channel\<close> interleaves the loads and stores of producer and
    consumer and shows that they implement a queue of committed entries.
  \<^item> \<open>Linear_Probing\<close>: open addressing as a locale; \<open>Hash_Set\<close> (\<^verbatim>\<open>hash_set/hash_set.c\<close>) and the code of
    \<open>Redo_Collector\<close> interpret it.
  \<^item> \<open>Redo_Collector\<close> (\<^verbatim>\<open>instrumentation/redo_entry_collector.c\<close>): the instruction lists the instrumentation
    emits before every store, and an interpreter of these instructions.
  \<^item> \<open>Virtual_Memory\<close>: memory of a process backed by files; \<open>Region_Table\<close>
    (\<^verbatim>\<open>region_table/region_table.c\<close>): the table of mapped regions and their files.
  \<^item> \<open>Back_End\<close> (\<^verbatim>\<open>back-end/back_end.c\<close>): the dispatcher of log entries, the consumer, recovery.
  \<^item> \<open>Instrumentation\<close> (\<^verbatim>\<open>instrumentation/instrument_front_end.c\<close>, \<^verbatim>\<open>instrumenation_common.h\<close>): the
    callbacks of the front end: start and end of a batch, wrapped \<open>memcpy\<close>, system calls, threads.
  \<^item> \<open>Address_Space\<close> (the same file, and \<^verbatim>\<open>front-end/front_end.c\<close>): moving a process's memory into files
    and mapping it again.
  \<^item> \<open>Spin_Lock\<close> and \<open>Flat_Combining\<close> (\<^verbatim>\<open>flat_combining/writer_preference_spin_lock.c\<close>,
    \<^verbatim>\<open>flat_combining/flat_combining.c\<close>): the worker threads as a step relation, one step per access to
    shared memory, with one program counter per thread.
  \<^item> \<open>Client_Connection\<close> (\<^verbatim>\<open>flat_combining/flat_combining.c\<close>, \<^verbatim>\<open>netutils/netutils.h\<close>): the event loop that
    reads requests from sockets and writes responses.
  \<^item> \<open>Startup\<close> (\<^verbatim>\<open>mangosteen_instrumentation.c\<close>, \<^verbatim>\<open>front-end/front_end.c\<close>, \<^verbatim>\<open>back-end/back_end.c\<close>, \<^verbatim>\<open>state.h\<close>):
    the two processes after the fork, with their semaphore, and the registration of threads.
  \<^item> \<open>Persistence\<close>: the log of a batch consumed by the back end; \<open>Region_Restore\<close>
    (\<^verbatim>\<open>region_table/region_table.c\<close>): the older ways of mapping the regions again.
  \<^item> \<open>Store_Transaction\<close>: transactions of stores and copies through the emitted code, the wrapper of \<open>memcpy\<close>, the
    callbacks and the back end, as one system; \<open>Crash_Recovery\<close>: a crash in the log of such a transaction, and
    the start of new processes over what is left.
  \<^item> \<open>Launch\<close> (\<^verbatim>\<open>mangosteen_instrumentation.c\<close>, \<^verbatim>\<open>instrumentation/instrument_front_end.c\<close>): the checkpoint, the arguments
    of the instrumentation, and the fork.
  \<^item> \<open>Dr_Client\<close> (\<^verbatim>\<open>instrumentation/instrument_front_end.c\<close>, \<^verbatim>\<open>flat_combining/dr_annotations.c\<close>): what the client
    registers with DynamoRIO and undoes at exit, and the annotations.
  \<^item> \<open>Application\<close>: the contract of an application that runs its requests through \<open>Flat_Combining\<close>.
  \<^item> \<open>Worker_Startup\<close> (\<^verbatim>\<open>flat_combining/flat_combining.c\<close>, \<^verbatim>\<open>netutils/netutils.c\<close>): a worker thread from its
    creation to its event loop; \<open>Server\<close>: all workers, with their connections and the flat combining, as one
    step relation.
  \<^item> \<open>Transient_Allocator\<close> (\<^verbatim>\<open>transient_allocator/transient_allocator.c\<close>): free lists in byte memory;
    \<open>Allocator_Test\<close>: the test program of that file.
  \<^item> \<open>Text_Copy\<close>, \<open>KV_Store\<close> and \<open>RPC_State_Machine\<close> (\<^verbatim>\<open>examples/mangosteen_local_multi_thread\<close>,
    \<^verbatim>\<open>examples/KVStoreStateMachine\<close>, \<^verbatim>\<open>examples/mangosteen_rpc\<close>): three applications as instances of the callbacks of
    \<open>Flat_Combining\<close>; \<open>Text_Copy_Main\<close>, \<open>KV_Main\<close> and \<open>RPC_Client\<close>: the programs around them, the first
    with its threads and theirs inside the library as one step relation; \<open>Local_State_Machine\<close> and \<open>Local_Main\<close>
    (\<^verbatim>\<open>examples/mangosteen_local\<close>): one transaction without threads, and the program around it; \<open>Cpp_State_Machine\<close>
    (\<^verbatim>\<open>examples/cpp_state_machine\<close>): a transaction on an object with strings, whose library is a parameter.

  \<^bold>\<open>What is shown.\<close> The path of a request, end to end: its bytes are assembled and its response is sent
  once and in order (\<open>Client_Connection\<close>); requests take effect one at a time, each once, whatever the
  interleaving (\<open>Flat_Combining\<close>), so that the whole server answers as if it executed the requests of all
  connections one after the other (\<open>Server\<close>), and from which the assertion of one example, the refinement of a map
  by another and of a counter by the third follow (\<open>Application\<close>); the emitted code records exactly the blocks a store touches (\<open>Redo_Collector\<close>,
  against \<open>Linear_Probing\<close>); the end of a batch puts these blocks with their current bytes into the log
  (\<open>Instrumentation\<close>); the log is delivered in order and never overwritten, as long as no commit that finds the ring
  full loads an older head (\<open>Ring_Channel\<close>); the back end
  that consumes it ends with the memory of the front end (\<open>Persistence\<close> and
  \<open>batch_reaches_persistent_memory\<close> below), so that any sequence of transactions has in both memories the effect of
  its plain stores and copies (\<open>Store_Transaction\<close>); a
  crash anywhere in a log of redo and commit entries loses nothing that was committed (\<open>Back_End\<close>), the recovered
  front end never runs on older data (\<open>Startup\<close>), and the two together give back every byte of a transaction
  (\<open>Crash_Recovery\<close>), as the single-threaded example shows on its text. These recoveries have two conditions, which are
  not always met and whose failure is stated as well: the commit record of the log must name the regions, which in
  a first run it does only from the first commit entry the back end consumes (a crash before that is taken for a
  first start, and everything is lost), and no semaphore with a positive value may be left of an earlier run. The
  C++ example's book reaches the memory of the back end. The
  multi-threaded example returns only with its text copied (\<open>Text_Copy_Main\<close>). Around this path: the invariants of the region table, of the
  allocator (for owners that leave its words alone) and of the connections, exclusion between readers, writers and log producers, termination
  of the batch (up to the wait for room in the ring, which the back end ends), of the replay and of the insertions (as long
  as the \<open>int\<close> size of the hash set can be doubled), the registration with DynamoRIO with the results the code ignores, and what happens on the error paths. Where the code does
  not do what it means to, the theorem states what it does: commits that wait on a stale head or hide
  entries, a crash before the first commit that loses the regions, a full hash set that is probed forever, a deadlock between a reader that maps memory and a
  combiner, memory files that are truncated or written outside the log after recovery, requests of threads that
  do not exist, and others.

  \<^bold>\<open>Interfaces.\<close> \<open>invariant_system\<close> is interpreted by the channel, by flat combining (for the lock and
  for the requests), by the server, by recovery, by a restart as a new process, by a front end without a back end, by the users
  of a free list and by the multi-threaded example; \<open>application_refinement\<close> by the three applications;
  \<open>entry_queue\<close> by the ring buffer; \<open>byte_store\<close> by the file-backed memory;
  \<open>lock_words\<close> by the spin lock; \<open>block_pool\<close> by the free lists; \<open>linear_probing\<close> by the hash set and by the
  emitted code, \<open>block_set\<close> by the hash set.

  \<^bold>\<open>Bounds and fuel.\<close> The interpreter of emitted code takes the number of instructions to run; its
  theorems give a number that reaches the end, or show that none does. Loops that may not end are \<open>partial_function (option)\<close>
  (\<open>replay_log\<close>, the probing loop of \<open>Hash_Set\<close>, walks over free lists), and their theorems state the
  value \<open>Some\<close> or \<open>None\<close>; loops that wait for another process or for the kernel take the list of what they
  observe. Widths are those of the code: 64-bit addresses and indices, 32-bit \<open>int\<close>; the sizes (65536 ring
  entries, 1024 hash-set entries, 65536 regions, four threads) are those of \<^verbatim>\<open>configuration.h\<close> and the headers.

  \<^bold>\<open>Not modelled.\<close> Cache-line flushes and fences: a file holds what was stored to it, in program order.
  DynamoRIO itself: how it finds basic blocks and reserves registers; what its calls return is a parameter. Page
  rounding of mappings. What CRIU puts into its image, the loading of jemalloc, profiling counters, printing where it
  shows nothing but counters and addresses, callbacks with an empty body, and the freeing of memory that nothing
  uses afterwards. How the C++ library represents a string: the example has it as a parameter, with a concrete
  representation in its witness. Whether the threads of an example are scheduled fairly: the theorems on
  interleavings say what holds whenever a program gets there. Read-only callbacks that write shared state: each is one
  step. Changes of a response by the application while it is being sent: the response is the bytes at the time it was made.
\<close>

section \<open>From a batch to the persistent memory\<close>

text \<open>
  C4: A batch reaches the persistent memory. Take a front end at the end of a batch, with an
  empty log that has room for it, and a back end that shares the ring buffer, is waiting at the
  same entry and has mapped the blocks of the batch, and whose memory differs from the
  application's only inside these blocks. When \<open>instrument_stop\<close> has returned and the back end has
  consumed the log, its memory is the application's, and the log is released.
\<close>

theorem batch_reaches_persistent_memory:
  assumes "valid_index (last_persisted_head (fe_rb s))"
    and "last_persisted_tail (fe_rb s) = last_persisted_head (fe_rb s)" "remote_head (fe_rb s) = last_persisted_head (fe_rb s)"
    and "buffers_ok s"
    and "sum_list (map (\<lambda>e. length (memcpy_blocks e) + 1) (recorded_copies s)) + ob_size (fe_overflow s) + 1025 \<le> 65535"
    and "global_local_head (be_g b) = last_persisted_head (fe_rb s)" "no_alias (pmem (be_proc b))"
    and "\<forall>x. (\<exists>a\<in>set (batch_blocks s). in_range a 32 x) \<longrightarrow> be_mapped b x"
    and "\<forall>x. be_contents b x \<noteq> fe_mem s x \<longrightarrow> (\<exists>a\<in>set (batch_blocks s). in_range a 32 x)"
  shows "\<exists>s' b'. instrument_stop s l = Inr (s', l)
    \<and> replay_log k (b\<lparr>be_rb := fe_rb s', be_g := (be_g b)\<lparr>global_local_tail := remote_tail (fe_rb s')\<rparr>\<rparr>) = Some (Inr b')
    \<and> be_contents b' = fe_mem s' \<and> remote_head (be_rb b') = remote_tail (be_rb b')"
  using batch_is_persisted [OF assms] by blast

text \<open>
  The example batch records a \<open>memcpy\<close> to 8192; the back end's copy of the first block is stale.
\<close>

definition stale_backend :: backend where
  "stale_backend =
     \<lparr>be_rb = zero_ring_buffer,
      be_g = \<lparr>global_local_head = 0, global_local_tail = 0, number_of_mmaped_memory_regions = 0\<rparr>,
      be_proc = \<lparr>rt = zero_region_table, sequenceNumber = 0,
        pmem = \<lparr>vmap = (\<lambda>_. Some Anon_byte), anon = (\<lambda>x. if in_range 8192 32 x then 0 else 7),
                files = (\<lambda>_. None)\<rparr>\<rparr>\<rparr>"

theorem batch_reaches_persistent_memory_witness:
  "\<exists>s' b'. instrument_stop example_front [] = Inr (s', [])
    \<and> replay_log accepting_kernel (stale_backend\<lparr>be_rb := fe_rb s',
        be_g := (be_g stale_backend)\<lparr>global_local_tail := remote_tail (fe_rb s')\<rparr>\<rparr>) = Some (Inr b')
    \<and> be_contents b' = fe_mem s' \<and> remote_head (be_rb b') = remote_tail (be_rb b')"
proof (rule batch_reaches_persistent_memory)
  have "8192 \<in> set (batch_blocks example_front)"
    by (simp add: batch_blocks_def example_copies memcpy_blocks_def Let_def upt_rec)
  then show "\<forall>x. be_contents stale_backend x \<noteq> fe_mem example_front x \<longrightarrow>
      (\<exists>a\<in>set (batch_blocks example_front). in_range a 32 x)"
    by (auto simp: stale_backend_def example_front_def contents_def load_byte_def split: if_splits)
qed (use example_room in \<open>simp_all add: stale_backend_def example_front_def zero_ring_buffer_def mapped_def
      load_byte_def no_alias_def\<close>)

end
